(* ===== verification/Prelude.thy ===== *)
theory Prelude
  imports Main "HOL-Library.Word" "HOL-Library.Finite_Map" "HOL-Library.Monad_Syntax"
begin

text \<open>
  Shared vocabulary of the development: Go's machine integers, byte strings, the map type
  and its range order, the outcome type of operations that may panic, and the generic
  lemmas the component theories use.

  \<^item> A Go \<open>int\<close> (64 bits on the supported platforms) is a 64-bit word read with \<open>sint\<close> where
    bits or wrap-around matter (\<open>gint\<close>); counters that only ever grow by one from a small
    start are \<open>int\<close>.
  \<^item> A Go \<open>string\<close> is its list of bytes.
  \<^item> A Go map is a finite map. Go iterates over a map in an unspecified order that may change
    with every \<open>range\<close>, so a loop over a map takes the order as an argument: a list that
    enumerates the keys (\<open>range_order\<close>). Theorems quantify over it.
  \<^item> A panic is the value \<open>Panic\<close> of the type \<open>outcome\<close>.
\<close>

type_synonym gint = "64 word"
type_synonym bytes = "8 word list"

text \<open>The numbers that a Go \<open>int\<close> holds, where one is modelled by \<open>int\<close> and its range matters.\<close>

definition int64 :: "int \<Rightarrow> bool" where
  "int64 i \<longleftrightarrow> - (2 ^ 63) \<le> i \<and> i < 2 ^ 63"

text \<open>Collections of the simplification rules the component theories add to.\<close>

named_theorems gomap_simps "rules about Go maps and their length"

named_theorems frame_simps "fields an operation leaves alone"

section \<open>Outcomes of operations that may panic\<close>

datatype 'a outcome = Ret 'a | Panic

fun ret_of :: "'a outcome \<Rightarrow> 'a option" where
  "ret_of (Ret x) = Some x"
| "ret_of Panic = None"

section \<open>Go maps\<close>

type_synonym ('k, 'v) gomap = "('k, 'v) fmap"

definition len_map :: "('k, 'v) gomap \<Rightarrow> nat" where
  "len_map m = card (fmdom' m)"

definition range_order :: "'k list \<Rightarrow> ('k, 'v) gomap \<Rightarrow> bool" where
  "range_order ks m \<longleftrightarrow> distinct ks \<and> set ks = fmdom' m"

definition get_or :: "'v \<Rightarrow> ('k, 'v) gomap \<Rightarrow> 'k \<Rightarrow> 'v" where
  "get_or d m k = (case fmlookup m k of None \<Rightarrow> d | Some v \<Rightarrow> v)"

lemma len_map_empty [simp]: "len_map fmempty = 0"
  by (simp add: len_map_def)

lemma len_map_upd [gomap_simps]:
  "len_map (fmupd k v m) = (if k \<in> fmdom' m then len_map m else Suc (len_map m))"
  by (simp add: len_map_def card_insert_if)

lemma len_map_drop [gomap_simps]:
  "len_map (fmdrop k m) = (if k \<in> fmdom' m then len_map m - 1 else len_map m)"
  by (simp add: len_map_def card_Diff_singleton_if)

lemma len_map_drop_less: "fmlookup m k = Some v \<Longrightarrow> len_map (fmdrop k m) < len_map m"
proof -
  assume "fmlookup m k = Some v"
  then have k: "k \<in> fmdom' m" by (rule fmdom'I)
  have "card (fmdom' m - {k}) < card (fmdom' m)"
    by (rule psubset_card_mono) (use k in auto)
  then show ?thesis by (simp add: len_map_def)
qed

lemma len_map_0_iff: "len_map m = 0 \<longleftrightarrow> m = fmempty"
  by (auto simp: len_map_def intro!: fmap_ext fmdom'_notD)

lemma len_map_drop_le [simp]: "len_map (fmdrop k m) \<le> len_map m"
  by (simp add: gomap_simps)

lemma range_order_exists: "\<exists>ks. range_order ks m"
  using finite_distinct_list [OF finite_fmdom', of m] by (auto simp: range_order_def)

lemma range_order_length: "range_order ks m \<Longrightarrow> length ks = len_map m"
  by (auto simp: range_order_def len_map_def distinct_card [symmetric])

lemma get_or_upd [simp]: "get_or d (fmupd k v m) k' = (if k = k' then v else get_or d m k')"
  by (simp add: get_or_def)

lemma get_or_empty [simp]: "get_or d fmempty k = d"
  by (simp add: get_or_def)

section \<open>Generic lemmas\<close>

text \<open>\<open>time.Second\<close>, in nanoseconds.\<close>

definition second :: int where
  "second = 1000000000"

text \<open>Go's integer division truncates towards zero.\<close>

definition go_div :: "int \<Rightarrow> int \<Rightarrow> int" where
  "go_div a b = sgn a * sgn b * (\<bar>a\<bar> div \<bar>b\<bar>)"

lemma go_div_pos: "0 \<le> a \<Longrightarrow> 0 < b \<Longrightarrow> go_div a b = a div b"
  by (cases "a = 0") (simp_all add: go_div_def)

text \<open>Two subsets of a finite set that together outnumber it meet.\<close>

lemma overlap_by_card:
  assumes "finite U" "A \<subseteq> U" "B \<subseteq> U" "card U < card A + card B"
  shows "A \<inter> B \<noteq> {}"
proof
  assume empty: "A \<inter> B = {}"
  have "finite A" "finite B" using assms(1-3) by (auto intro: finite_subset)
  with empty have "card (A \<union> B) = card A + card B" by (simp add: card_Un_disjoint)
  moreover have "card (A \<union> B) \<le> card U" using assms(1-3) by (simp add: card_mono)
  ultimately show False using assms(4) by simp
qed

lemma filter_absent: "x \<notin> set xs \<Longrightarrow> filter (\<lambda>y. y \<noteq> x) xs = xs"
  by (induction xs) auto

end
