(* ===== verification/Refines.thy ===== *)
theory Refines
  imports Prelude
begin

text \<open>
  Functional refinement between two machines with the same operations and results. The locale
  \<open>guarded_refines\<close> takes the step functions, an abstraction, an invariant and a guard saying which
  operations may be called in a state; its lemmas say that the two machines give the same results
  on every legal sequence of operations. \<open>refines\<close> is the case where every call is legal. The
  containers of \<open>lib\<close> are interpreted in them with a list, a partial function or a pair of sets
  as their specification.
\<close>

fun outputs :: "('s \<Rightarrow> 'op \<Rightarrow> 's \<times> 'out) \<Rightarrow> 's \<Rightarrow> 'op list \<Rightarrow> 'out list" where
  "outputs step s [] = []"
| "outputs step s (x # xs) = (let (s', y) = step s x in y # outputs step s' xs)"

fun final :: "('s \<Rightarrow> 'op \<Rightarrow> 's \<times> 'out) \<Rightarrow> 's \<Rightarrow> 'op list \<Rightarrow> 's" where
  "final step s [] = s"
| "final step s (x # xs) = final step (fst (step s x)) xs"

fun legal :: "('s \<Rightarrow> 'op \<Rightarrow> 's \<times> 'out) \<Rightarrow> ('s \<Rightarrow> 'op \<Rightarrow> bool) \<Rightarrow> 's \<Rightarrow> 'op list \<Rightarrow> bool" where
  "legal step guard s [] = True"
| "legal step guard s (x # xs) = (guard s x \<and> legal step guard (fst (step s x)) xs)"

locale guarded_refines =
  fixes step :: "'s \<Rightarrow> 'op \<Rightarrow> 's \<times> 'out"
    and spec :: "'a \<Rightarrow> 'op \<Rightarrow> 'a \<times> 'out"
    and abs :: "'s \<Rightarrow> 'a"
    and inv :: "'s \<Rightarrow> bool"
    and guard :: "'s \<Rightarrow> 'op \<Rightarrow> bool"
  assumes step_inv: "inv s \<Longrightarrow> guard s x \<Longrightarrow> inv (fst (step s x))"
    and step_sim: "inv s \<Longrightarrow> guard s x \<Longrightarrow> spec (abs s) x = (abs (fst (step s x)), snd (step s x))"
begin

lemma run_inv: "inv s \<Longrightarrow> legal step guard s xs \<Longrightarrow> inv (final step s xs)"
  by (induction xs arbitrary: s) (simp_all add: step_inv)

lemma run_abs: "inv s \<Longrightarrow> legal step guard s xs \<Longrightarrow> abs (final step s xs) = final spec (abs s) xs"
  by (induction xs arbitrary: s) (simp_all add: step_inv step_sim)

lemma run_outputs: "inv s \<Longrightarrow> legal step guard s xs \<Longrightarrow> outputs step s xs = outputs spec (abs s) xs"
  by (induction xs arbitrary: s) (simp_all add: step_inv step_sim Let_def split_beta)

end

locale refines =
  fixes step :: "'s \<Rightarrow> 'op \<Rightarrow> 's \<times> 'out"
    and spec :: "'a \<Rightarrow> 'op \<Rightarrow> 'a \<times> 'out"
    and abs :: "'s \<Rightarrow> 'a"
    and inv :: "'s \<Rightarrow> bool"
  assumes always_inv: "inv s \<Longrightarrow> inv (fst (step s x))"
    and always_sim: "inv s \<Longrightarrow> spec (abs s) x = (abs (fst (step s x)), snd (step s x))"

sublocale refines \<subseteq> guarded_refines step spec abs inv "\<lambda>s x. True"
  by unfold_locales (simp_all add: always_inv always_sim)

context refines begin

lemma legal_always: "legal step (\<lambda>s x. True) s xs"
  by (induction xs arbitrary: s) simp_all

lemma final_inv: "inv s \<Longrightarrow> inv (final step s xs)"
  by (rule run_inv [OF _ legal_always])

lemma outputs_eq: "inv s \<Longrightarrow> outputs step s xs = outputs spec (abs s) xs"
  by (rule run_outputs [OF _ legal_always])

end

end
