(* ===== verification/Queues.thy ===== *)
theory Queues
  imports Refines
begin

text \<open>
  The queue of \<open>lib/queue.go\<close>: a circular slice that doubles when full. A slot holds an
  \<open>interface{}\<close>, \<open>None\<close> being nil. \<open>size\<close>, \<open>head\<close> and \<open>tail\<close> never become negative and are naturals.
\<close>

record 'a Queue =
  qbuf :: "'a option list"
  qlen :: nat
  qhead :: nat
  qtail :: nat

definition NewQueue :: "'a Queue" where
  "NewQueue = \<lparr> qbuf = replicate 100 None, qlen = 0, qhead = 0, qtail = 0 \<rparr>"

definition Queue_Size :: "'a Queue \<Rightarrow> nat" where
  "Queue_Size q = qlen q"

text \<open>Go's \<open>copy(dst[off:], src)\<close>.\<close>

definition copy_at :: "nat \<Rightarrow> 'b list \<Rightarrow> 'b list \<Rightarrow> 'b list" where
  "copy_at off src dst =
     take off dst @ take (length dst - off) src @ drop (off + length src) dst"

definition grow :: "'a Queue \<Rightarrow> 'a Queue" where
  "grow q =
     (let queue = replicate (length (qbuf q) * 2) None;
          queue = copy_at 0 (drop (qhead q) (qbuf q)) queue;
          queue = copy_at (length (qbuf q) - qhead q) (take (qhead q) (qbuf q)) queue
      in q\<lparr>qhead := 0, qtail := length (qbuf q), qbuf := queue\<rparr>)"

definition Queue_Push :: "'a option \<Rightarrow> 'a Queue \<Rightarrow> 'a Queue" where
  "Queue_Push e q =
     (let q1 = (if qhead q = qtail q \<and> qlen q > 0 then grow q else q)
      in q1\<lparr>qbuf := (qbuf q1)[qtail q1 := e],
            qtail := (qtail q1 + 1) mod length (qbuf q1), qlen := qlen q1 + 1\<rparr>)"

definition Queue_Pop :: "'a Queue \<Rightarrow> 'a Queue \<times> 'a option" where
  "Queue_Pop q =
     (if qlen q = 0 then (q, None)
      else (q\<lparr>qhead := (qhead q + 1) mod length (qbuf q), qlen := qlen q - 1\<rparr>, qbuf q ! qhead q))"

section \<open>A first-in first-out list\<close>

datatype 'a queue_op = QPush "'a option" | QPop | QSize

datatype 'a queue_out = QNone | QItem "'a option" | QNum nat

fun queue_step :: "'a Queue \<Rightarrow> 'a queue_op \<Rightarrow> 'a Queue \<times> 'a queue_out" where
  "queue_step q (QPush e) = (Queue_Push e q, QNone)"
| "queue_step q QPop = (let (q', e) = Queue_Pop q in (q', QItem e))"
| "queue_step q QSize = (q, QNum (Queue_Size q))"

fun fifo_step :: "'a option list \<Rightarrow> 'a queue_op \<Rightarrow> 'a option list \<times> 'a queue_out" where
  "fifo_step xs (QPush e) = (xs @ [e], QNone)"
| "fifo_step [] QPop = ([], QItem None)"
| "fifo_step (x # xs) QPop = (xs, QItem x)"
| "fifo_step xs QSize = (xs, QNum (length xs))"

definition queue_items :: "'a Queue \<Rightarrow> 'a option list" where
  "queue_items q = map (\<lambda>i. qbuf q ! ((qhead q + i) mod length (qbuf q))) [0 ..< qlen q]"

definition queue_ok :: "'a Queue \<Rightarrow> bool" where
  "queue_ok q \<longleftrightarrow>
     qhead q < length (qbuf q) \<and> qlen q \<le> length (qbuf q) \<and>
     qtail q = (qhead q + qlen q) mod length (qbuf q)"

lemma queue_ok_new: "queue_ok NewQueue" "queue_items NewQueue = []"
  by (simp_all add: queue_ok_def NewQueue_def queue_items_def)

lemma queue_items_length: "length (queue_items q) = qlen q"
  by (simp add: queue_items_def)

lemma queue_full_iff:
  assumes "queue_ok q" "0 < qlen q"
  shows "qhead q = qtail q \<longleftrightarrow> qlen q = length (qbuf q)"
proof -
  let ?n = "length (qbuf q)"
  have h: "qhead q < ?n" "qlen q \<le> ?n" "qtail q = (qhead q + qlen q) mod ?n"
    using assms by (simp_all add: queue_ok_def)
  show ?thesis
  proof (cases "qhead q + qlen q < ?n")
    case True
    with h assms(2) show ?thesis by simp
  next
    case False
    with h have "qtail q = qhead q + qlen q - ?n" by (simp add: le_mod_geq)
    with h False show ?thesis by linarith
  qed
qed

lemma queue_nonempty_buf: "queue_ok q \<Longrightarrow> 0 < length (qbuf q)"
  unfolding queue_ok_def by linarith

lemma mod_sum: "(h :: nat) < n \<Longrightarrow> i < n \<Longrightarrow> (h + i) mod n = (if h + i < n then h + i else h + i - n)"
  by (simp add: le_mod_geq)

lemma grow_buf:
  assumes "queue_ok q"
  shows "qbuf (grow q) =
     drop (qhead q) (qbuf q) @ take (qhead q) (qbuf q) @ replicate (length (qbuf q)) None"
proof -
  let ?n = "length (qbuf q)"
  have h: "qhead q < ?n" using assms by (simp add: queue_ok_def)
  then have 1: "copy_at 0 (drop (qhead q) (qbuf q)) (replicate (?n * 2) None) =
      drop (qhead q) (qbuf q) @ replicate (?n + qhead q) None"
    by (simp add: copy_at_def)
  show ?thesis using h by (simp add: grow_def Let_def 1) (simp add: copy_at_def)
qed

lemma rotated_nth:
  assumes "h < length b" "i < length b"
  shows "(drop h b @ take h b @ ys) ! i = b ! ((h + i) mod length b)"
proof (cases "i < length b - h")
  case True
  then show ?thesis using assms by (simp add: nth_append)
next
  case False
  then have "h + i - length b = i - (length b - h)" "i - (length b - h) < h" "\<not> h + i < length b"
    using assms by simp_all
  then show ?thesis using False assms by (simp add: nth_append mod_sum)
qed

lemma queue_ok_grow:
  assumes "queue_ok q" "qhead q = qtail q" "qlen q > 0"
  shows "queue_ok (grow q) \<and> queue_items (grow q) = queue_items q \<and> qlen (grow q) < length (qbuf (grow q))"
proof -
  have full: "qlen q = length (qbuf q)" using queue_full_iff assms by blast
  have sim: "qhead (grow q) = 0" "qlen (grow q) = qlen q" "qtail (grow q) = length (qbuf q)"
    by (simp_all add: grow_def Let_def)
  have h: "qhead q < length (qbuf q)" using assms(1) by (simp add: queue_ok_def)
  have len: "length (qbuf (grow q)) = 2 * length (qbuf q)"
    using h by (simp add: grow_buf [OF assms(1)])
  have "qbuf (grow q) ! i = qbuf q ! ((qhead q + i) mod length (qbuf q))" if "i < qlen q" for i
    using that full h by (simp add: grow_buf [OF assms(1)] rotated_nth)
  then have "queue_items (grow q) = queue_items q"
    using full by (simp add: queue_items_def sim len)
  with len full assms(3) show ?thesis by (simp add: queue_ok_def sim)
qed

text \<open>The state in which a pushed element is stored: the queue, grown if it was full.\<close>

lemma Push_room:
  obtains r where "queue_ok q \<Longrightarrow> queue_ok r \<and> queue_items r = queue_items q \<and> qlen r < length (qbuf r)"
    and "Queue_Push e q = r\<lparr>qbuf := (qbuf r)[qtail r := e],
           qtail := (qtail r + 1) mod length (qbuf r), qlen := qlen r + 1\<rparr>"
proof (cases "qhead q = qtail q \<and> qlen q > 0")
  case True
  with queue_ok_grow [of q] show ?thesis by (intro that [of "grow q"]) (simp_all add: Queue_Push_def Let_def)
next
  case False
  have "qlen q < length (qbuf q)" if "queue_ok q"
    using queue_full_iff [OF that] False queue_nonempty_buf [OF that] that
    by (cases "qlen q = 0") (auto simp: queue_ok_def)
  with False show ?thesis by (intro that [of q]) (auto simp: Queue_Push_def Let_def)
qed

lemma Push_ok:
  assumes q: "queue_ok q"
  shows "queue_ok (Queue_Push e q) \<and> queue_items (Queue_Push e q) = queue_items q @ [e]"
proof (rule Push_room [of q e])
  fix r assume r': "queue_ok q \<Longrightarrow> queue_ok r \<and> queue_items r = queue_items q \<and> qlen r < length (qbuf r)"
    and push: "Queue_Push e q = r\<lparr>qbuf := (qbuf r)[qtail r := e],
           qtail := (qtail r + 1) mod length (qbuf r), qlen := qlen r + 1\<rparr>"
  let ?n = "length (qbuf r)"
  have r: "queue_items r = queue_items q" "qlen r < ?n" "qhead r < ?n" "qtail r = (qhead r + qlen r) mod ?n"
    using r' [OF q] by (simp_all add: queue_ok_def)
  have "(qbuf r)[qtail r := e] ! ((qhead r + i) mod ?n) = qbuf r ! ((qhead r + i) mod ?n)"
    if "i < qlen r" for i
  proof -
    have "(qhead r + i) mod ?n \<noteq> (qhead r + qlen r) mod ?n"
      using that r(2,3) by (simp add: mod_sum) arith
    then show ?thesis by (simp add: r(4))
  qed
  moreover have "qtail r < ?n" using r(2) unfolding r(4) by (intro mod_less_divisor) linarith
  ultimately have "queue_items (Queue_Push e q) = queue_items r @ [e]"
    by (simp add: push queue_items_def flip: r(4))
  with r(1) have "queue_items (Queue_Push e q) = queue_items q @ [e]" by simp
  moreover have "queue_ok (Queue_Push e q)"
    using r by (simp add: push queue_ok_def mod_Suc_eq)
  ultimately show ?thesis by simp
qed

lemma Pop_empty: "queue_items q = [] \<Longrightarrow> Queue_Pop q = (q, None)"
  using queue_items_length [of q] by (simp add: Queue_Pop_def)

lemma Pop_ok:
  assumes q: "queue_ok q" and xs: "queue_items q = x # xs"
  shows "queue_ok (fst (Queue_Pop q)) \<and> queue_items (fst (Queue_Pop q)) = xs \<and> snd (Queue_Pop q) = x"
proof -
  let ?n = "length (qbuf q)"
  obtain k where k: "qlen q = Suc k"
    using queue_items_length [of q] xs by (cases "qlen q") simp_all
  have pop: "Queue_Pop q = (q\<lparr>qhead := (qhead q + 1) mod ?n, qlen := k\<rparr>, qbuf q ! qhead q)"
    by (simp add: Queue_Pop_def k)
  have ok: "qhead q < ?n" "Suc k \<le> ?n" "qtail q = (qhead q + Suc k) mod ?n"
    using q k by (simp_all add: queue_ok_def)
  have "queue_items q = qbuf q ! qhead q # map (\<lambda>i. qbuf q ! ((qhead q + Suc i) mod ?n)) [0 ..< k]"
    using ok by (simp add: queue_items_def k upt_conv_Cons map_Suc_upt [symmetric] del: upt_Suc)
  moreover have "queue_items (fst (Queue_Pop q)) = map (\<lambda>i. qbuf q ! ((qhead q + Suc i) mod ?n)) [0 ..< k]"
    by (simp add: pop queue_items_def mod_simps)
  moreover have "queue_ok (fst (Queue_Pop q))"
    using ok queue_nonempty_buf [OF q] by (simp add: pop queue_ok_def mod_simps)
  ultimately show ?thesis using xs by (simp add: pop)
qed

interpretation lq: refines queue_step fifo_step queue_items queue_ok
proof
  fix q :: "'a Queue" and x
  assume q: "queue_ok q"
  have "queue_ok (fst (Queue_Pop q)) \<and>
      fifo_step (queue_items q) QPop = (queue_items (fst (Queue_Pop q)), QItem (snd (Queue_Pop q)))"
    using Pop_ok [OF q] Pop_empty [of q] q by (cases "queue_items q") simp_all
  with q show "queue_ok (fst (queue_step q x))"
    "fifo_step (queue_items q) x = (queue_items (fst (queue_step q x)), snd (queue_step q x))"
    by (cases x; simp add: Push_ok Let_def split_beta Queue_Size_def queue_items_length)+
qed

text \<open>
  C25: on every sequence of pushes, pops and size queries the circular buffer answers as a
  first-in first-out list does, through every growth of the slice.
\<close>

theorem queue_is_fifo: "outputs queue_step NewQueue ops = outputs fifo_step [] ops"
  using lq.outputs_eq [OF queue_ok_new(1)] by (simp add: queue_ok_new)

end
