(* ===== verification/HashRings.thy ===== *)
theory HashRings
  imports Prelude "HOL-Library.List_Lexorder" "HOL-Library.Multiset"
begin

text \<open>
  The hash ring of \<open>lib/hash_ring.go\<close>: a circular list of nodes ordered by hash. The ring is the
  list of its nodes from the head on, each one's \<open>next\<close> being the following one and the last one's
  the head; \<open>prev\<close> is never set. The md5 sum is an argument; of it nothing is assumed. The order
  of byte strings is the lexicographic one of \<open>bytes.Compare\<close>, the library's order on lists.
\<close>

record 'v hashRingNode =
  hash :: bytes
  nValue :: 'v

type_synonym 'v HashRing = "'v hashRingNode list"

definition bytes_Compare :: "bytes \<Rightarrow> bytes \<Rightarrow> int" where
  "bytes_Compare a b = (if a < b then - 1 else if a = b then 0 else 1)"

section \<open>Operations\<close>

text \<open>The walk to the node before the insertion, over the nodes after the head.\<close>

fun insert_after :: "'v hashRingNode \<Rightarrow> 'v hashRingNode list \<Rightarrow> 'v hashRingNode list" where
  "insert_after n [] = [n]"
| "insert_after n (j # js) =
     (if bytes_Compare (hash j) (hash n) < 0 then j # insert_after n js else n # j # js)"

fun insert_node :: "'v hashRingNode \<Rightarrow> 'v HashRing \<Rightarrow> 'v HashRing" where
  "insert_node n [] = [n]"
| "insert_node n (i # is) =
     (if bytes_Compare (hash i) (hash n) \<ge> 0 then n # i # is else i # insert_after n is)"

definition Ring_Insert :: "(bytes \<Rightarrow> bytes) \<Rightarrow> 'v \<Rightarrow> bytes \<Rightarrow> 'v HashRing \<Rightarrow> 'v HashRing" where
  "Ring_Insert md5 v b ring = insert_node \<lparr> hash = md5 b, nValue = v \<rparr> ring"

fun search_loop :: "bytes \<Rightarrow> 'v hashRingNode list \<Rightarrow> 'v hashRingNode option" where
  "search_loop h [] = None"
| "search_loop h [i] = None"
| "search_loop h (i # j # rest) =
     (if bytes_Compare h (hash i) < 0 then Some i else search_loop h (j # rest))"

text \<open>An empty ring has a nil head, which \<open>search\<close> dereferences.\<close>

definition search :: "bytes \<Rightarrow> 'v HashRing \<Rightarrow> 'v hashRingNode outcome" where
  "search h ring =
     (case ring of
        [] \<Rightarrow> Panic
      | head # rest \<Rightarrow> Ret (case search_loop h ring of None \<Rightarrow> head | Some i \<Rightarrow> i))"

definition Ring_Get :: "(bytes \<Rightarrow> bytes) \<Rightarrow> bytes \<Rightarrow> 'v HashRing \<Rightarrow> 'v outcome" where
  "Ring_Get md5 k ring =
     (case search (md5 k) ring of Panic \<Rightarrow> Panic | Ret n \<Rightarrow> Ret (nValue n))"

fun next_loop :: "'v hashRingNode \<Rightarrow> 'v \<Rightarrow> 'v hashRingNode list \<Rightarrow> 'v option" where
  "next_loop head v [] = None"
| "next_loop head v [i] = (if v = nValue i then Some (nValue head) else None)"
| "next_loop head v (i # j # rest) =
     (if v = nValue i then Some (nValue j) else next_loop head v (j # rest))"

definition Ring_Next :: "'v \<Rightarrow> 'v HashRing \<Rightarrow> 'v option outcome" where
  "Ring_Next v ring = (case ring of [] \<Rightarrow> Panic | head # rest \<Rightarrow> Ret (next_loop head v ring))"

text \<open>\<open>show\<close> is what the format verb prints for a value.\<close>

definition Ring_String :: "('v \<Rightarrow> string) \<Rightarrow> 'v HashRing \<Rightarrow> string" where
  "Ring_String show ring = fold (\<lambda>i buffer. buffer @ show (nValue i) @ '' -> '') ring []"

section \<open>The ring is sorted\<close>

lemma Compare_simps [simp]:
  "bytes_Compare a b < 0 \<longleftrightarrow> a < b" "bytes_Compare a b \<ge> 0 \<longleftrightarrow> b \<le> a"
  by (auto simp: bytes_Compare_def)

lemma insert_after_insort: "insert_after n js = insort_key hash n js"
  by (induction js) (auto simp: not_less)

lemma insert_node_insort: "insert_node n ring = insort_key hash n ring"
  by (cases ring) (auto simp: insert_after_insort)

definition inserts :: "(bytes \<Rightarrow> bytes) \<Rightarrow> ('v \<times> bytes) list \<Rightarrow> 'v HashRing" where
  "inserts md5 vbs = fold (\<lambda>(v, b). Ring_Insert md5 v b) vbs []"

lemma inserts_aux:
  assumes "sorted (map hash ring)"
  shows "sorted (map hash (fold (\<lambda>(v, b). Ring_Insert md5 v b) vbs ring)) \<and>
    mset (fold (\<lambda>(v, b). Ring_Insert md5 v b) vbs ring) =
      mset ring + mset (map (\<lambda>(v, b). \<lparr> hash = md5 b, nValue = v \<rparr>) vbs)"
  using assms
proof (induction vbs arbitrary: ring)
  case (Cons vb vbs)
  obtain v b where vb: "vb = (v, b)" by fastforce
  have "sorted (map hash (Ring_Insert md5 v b ring))"
    using Cons.prems by (simp add: Ring_Insert_def insert_node_insort sorted_insort_key)
  from Cons.IH [OF this] show ?case
    by (simp add: vb Ring_Insert_def insert_node_insort)
qed simp

lemma inserts_sorted: "sorted (map hash (inserts md5 vbs))"
  using inserts_aux [of "[]" md5 vbs] by (simp add: inserts_def)

lemma inserts_mset:
  "mset (inserts md5 vbs) = mset (map (\<lambda>(v, b). \<lparr> hash = md5 b, nValue = v \<rparr>) vbs)"
  using inserts_aux [of "[]" md5 vbs] by (simp add: inserts_def)

section \<open>Searching\<close>

lemma search_loop_Some:
  "search_loop h ring = Some i \<Longrightarrow> i \<in> set (butlast ring) \<and> h < hash i \<and>
     (sorted (map hash ring) \<longrightarrow> (\<forall>j \<in> set ring. h < hash j \<longrightarrow> hash i \<le> hash j))"
proof (induction h ring rule: search_loop.induct)
  case (3 h i' j rest)
  show ?case
  proof (cases "h < hash i'")
    case True
    with 3 show ?thesis by auto
  next
    case False
    with 3 show ?thesis by auto
  qed
qed simp_all

lemma search_loop_None: "search_loop h ring = None \<longleftrightarrow> (\<forall>i \<in> set (butlast ring). \<not> h < hash i)"
  by (induction h ring rule: search_loop.induct) auto

text \<open>
  A ring built by insertions holds the inserted values in the order of their hashes, and
  looking up a key gives the node with the least hash above the key's, or the head if there is
  none; but the last node is never considered, so it is found only when it is also the head.
\<close>

theorem ring_lookup:
  assumes "inserts md5 vbs \<noteq> []"
  shows "sorted (map hash (inserts md5 vbs)) \<and>
    mset (inserts md5 vbs) = mset (map (\<lambda>(v, b). \<lparr> hash = md5 b, nValue = v \<rparr>) vbs) \<and>
    (\<exists>n. search h (inserts md5 vbs) = Ret n \<and>
      (if \<exists>i \<in> set (butlast (inserts md5 vbs)). h < hash i
       then n \<in> set (butlast (inserts md5 vbs)) \<and> h < hash n \<and>
            (\<forall>j \<in> set (inserts md5 vbs). h < hash j \<longrightarrow> hash n \<le> hash j)
       else n = hd (inserts md5 vbs)))"
proof -
  obtain head rest where ring: "inserts md5 vbs = head # rest"
    using assms by (cases "inserts md5 vbs") auto
  have "\<exists>n. search h (inserts md5 vbs) = Ret n \<and>
      (if \<exists>i \<in> set (butlast (inserts md5 vbs)). h < hash i
       then n \<in> set (butlast (inserts md5 vbs)) \<and> h < hash n \<and>
            (\<forall>j \<in> set (inserts md5 vbs). h < hash j \<longrightarrow> hash n \<le> hash j)
       else n = hd (inserts md5 vbs))"
  proof (cases "search_loop h (inserts md5 vbs)")
    case None
    then show ?thesis
      using search_loop_None [of h "inserts md5 vbs"] ring by (auto simp: search_def)
  next
    case (Some i)
    with search_loop_Some [OF Some] inserts_sorted [of md5 vbs] show ?thesis
      by (auto simp: search_def ring)
  qed
  then show ?thesis using inserts_sorted inserts_mset by blast
qed

theorem ring_lookup_witness:
  "search [3] (inserts (\<lambda>b. b) [(''x'', [5]), (''y'', [1])]) = Ret \<lparr> hash = [1], nValue = ''y'' \<rparr>"
proof -
  have ring: "inserts (\<lambda>b. b) [(''x'', [5]), (''y'', [1])] =
      [\<lparr> hash = [1], nValue = ''y'' \<rparr>, \<lparr> hash = [5], nValue = ''x'' \<rparr>]"
    by (simp add: inserts_def Ring_Insert_def bytes_Compare_def)
  with ring_lookup [of "\<lambda>b. b" "[(''x'', [5]), (''y'', [1])]" "[3]"] show ?thesis by simp
qed

end
