(* ===== verification/Containers.thy ===== *)
theory Containers
  imports Refines
begin

text \<open>
  The set of \<open>lib/set.go\<close> and the locked containers \<open>lib/cmap.go\<close>, \<open>lib/cset.go\<close> and
  \<open>lib/mmap.go\<close>. Go's \<open>sync.RWMutex\<close> is modelled by what it does when it is called: an operation
  on it is done, blocks, or ends the program, which is what unlocking a lock that is not held does.
  Keys and values are \<open>interface{}\<close> values, \<open>None\<close> being nil.
\<close>

section \<open>Read-write locks\<close>

datatype 'a sync = Done 'a | Blocks | Fatal | Panics

fun sbind :: "'a sync \<Rightarrow> ('a \<Rightarrow> 'b sync) \<Rightarrow> 'b sync" where
  "sbind (Done x) f = f x"
| "sbind Blocks f = Blocks"
| "sbind Fatal f = Fatal"
| "sbind Panics f = Panics"

record RWMutex =
  readers :: nat
  writing :: bool

definition unlocked :: RWMutex where
  "unlocked = \<lparr> readers = 0, writing = False \<rparr>"

definition RLock :: "RWMutex \<Rightarrow> RWMutex sync" where
  "RLock k = (if writing k then Blocks else Done (k\<lparr>readers := readers k + 1\<rparr>))"

definition RUnlock :: "RWMutex \<Rightarrow> RWMutex sync" where
  "RUnlock k = (if readers k = 0 then Fatal else Done (k\<lparr>readers := readers k - 1\<rparr>))"

definition Lock :: "RWMutex \<Rightarrow> RWMutex sync" where
  "Lock k = (if writing k \<or> readers k > 0 then Blocks else Done (k\<lparr>writing := True\<rparr>))"

definition Unlock :: "RWMutex \<Rightarrow> RWMutex sync" where
  "Unlock k = (if \<not> writing k then Fatal else Done (k\<lparr>writing := False\<rparr>))"

lemmas lock_defs = RLock_def RUnlock_def Lock_def Unlock_def unlocked_def

text \<open>An operation's body between taking a lock and the deferred release.\<close>

definition locked ::
    "(RWMutex \<Rightarrow> RWMutex sync) \<Rightarrow> (RWMutex \<Rightarrow> RWMutex sync) \<Rightarrow> 'a \<Rightarrow> RWMutex \<Rightarrow> (RWMutex \<times> 'a) sync" where
  "locked acquire release result k =
     sbind (acquire k) (\<lambda>k1. sbind (release k1) (\<lambda>k2. Done (k2, result)))"

lemma locked_pairs [simp]:
  "locked RLock RUnlock x unlocked = Done (unlocked, x)"
  "locked Lock Unlock x unlocked = Done (unlocked, x)"
  "locked RLock Unlock x unlocked = Fatal"
  by (simp_all add: locked_def lock_defs)

section \<open>Slices filled from a map\<close>

text \<open>
  \<open>Keys\<close> and \<open>SecondaryKeys\<close> make a slice of nils and store the keys one by one at a running
  index; an index out of range panics.
\<close>

fun fill :: "nat \<Rightarrow> 'k list \<Rightarrow> 'k option list \<Rightarrow> 'k option list outcome" where
  "fill i [] keys = Ret keys"
| "fill i (k # ks) keys =
     (if i < length keys then fill (i + 1) ks (keys[i := Some k]) else Panic)"

lemma fill_prefix:
  "length ks \<le> n \<Longrightarrow>
     fill (length done) ks (map Some done @ replicate n None) =
     Ret (map Some (done @ ks) @ replicate (n - length ks) None)"
proof (induction ks arbitrary: "done" n)
  case (Cons k ks)
  then obtain m where n: "n = Suc m" by (cases n) auto
  with Cons.IH [of m "done @ [k]"] Cons.prems show ?case
    by (simp add: list_update_append)
qed simp

lemma fill_all: "fill 0 ks (replicate (length ks) None) = Ret (map Some ks)"
  using fill_prefix [of ks "length ks" "[]"] by simp

lemma fill_overflow: "length keys < i + length ks \<Longrightarrow> i \<le> length keys \<Longrightarrow> fill i ks keys = Panic"
  by (induction i ks keys rule: fill.induct) auto

section \<open>Sets\<close>

type_synonym 'a Set = "'a fset"

definition NewSet :: "'a Set" where "NewSet = {||}"

definition Set_Add :: "'a \<Rightarrow> 'a Set \<Rightarrow> 'a Set" where "Set_Add e s = finsert e s"

definition Set_Has :: "'a Set \<Rightarrow> 'a \<Rightarrow> bool" where "Set_Has s e \<longleftrightarrow> e |\<in>| s"

definition Set_Remove :: "'a \<Rightarrow> 'a Set \<Rightarrow> 'a Set" where "Set_Remove e s = s |-| {|e|}"

text \<open>\<open>ord\<close> is the order in which the loop meets the elements.\<close>

definition Set_Slice :: "'a list \<Rightarrow> 'a list" where
  "Set_Slice ord = fold (\<lambda>e slice. slice @ [e]) ord []"

definition Set_Clear :: "'a list \<Rightarrow> 'a Set \<Rightarrow> 'a Set" where
  "Set_Clear ord s = fold Set_Remove ord s"

definition Set_Clone :: "'a list \<Rightarrow> 'a Set" where
  "Set_Clone ord = fold Set_Add ord NewSet"

lemma Set_Slice_eq: "Set_Slice ord = ord"
proof -
  have "fold (\<lambda>e slice. slice @ [e]) ord acc = acc @ ord" for acc :: "'a list"
    by (induction ord arbitrary: acc) simp_all
  then show ?thesis by (simp add: Set_Slice_def)
qed

lemma Set_Clone_eq: "set ord = fset s \<Longrightarrow> Set_Clone ord = s"
proof -
  have "fset (fold Set_Add ord acc) = fset acc \<union> set ord" for acc :: "'a Set"
    by (induction ord arbitrary: acc) (auto simp: Set_Add_def)
  then have "fset (Set_Clone ord) = set ord" by (simp add: Set_Clone_def NewSet_def)
  then show "set ord = fset s \<Longrightarrow> Set_Clone ord = s" by (simp add: fset_inject)
qed

lemma Set_Clear_eq: "set ord = fset s \<Longrightarrow> Set_Clear ord s = {||}"
proof -
  have "fset (fold Set_Remove ord acc) = fset acc - set ord" for acc :: "'a Set"
    by (induction ord arbitrary: acc) (auto simp: Set_Remove_def)
  then show "set ord = fset s \<Longrightarrow> Set_Clear ord s = {||}"
    by (simp add: Set_Clear_def flip: fset_inject)
qed

section \<open>Concurrent map\<close>

record ('k, 'v) CMap =
  cdata :: "('k, 'v option) gomap"
  clock :: RWMutex

definition NewCMap :: "('k, 'v) CMap" where
  "NewCMap = \<lparr> cdata = fmempty, clock = unlocked \<rparr>"

definition CMap_Get :: "'k \<Rightarrow> ('k, 'v) CMap \<Rightarrow> (RWMutex \<times> 'v option) sync" where
  "CMap_Get k c = locked RLock RUnlock (get_or None (cdata c) k) (clock c)"

definition CMap_Put :: "'k \<Rightarrow> 'v option \<Rightarrow> ('k, 'v) CMap \<Rightarrow> (RWMutex \<times> ('k, 'v option) gomap) sync" where
  "CMap_Put k v c = locked Lock Unlock (fmupd k v (cdata c)) (clock c)"

definition CMap_Contains :: "'k \<Rightarrow> ('k, 'v) CMap \<Rightarrow> (RWMutex \<times> bool) sync" where
  "CMap_Contains k c = locked RLock RUnlock (fmlookup (cdata c) k \<noteq> None) (clock c)"

definition CMap_Size :: "('k, 'v) CMap \<Rightarrow> (RWMutex \<times> nat) sync" where
  "CMap_Size c = locked RLock RUnlock (len_map (cdata c)) (clock c)"

definition CMap_Keys :: "'k list \<Rightarrow> ('k, 'v) CMap \<Rightarrow> (RWMutex \<times> 'k option list outcome) sync" where
  "CMap_Keys ord c =
     locked RLock RUnlock (fill 0 ord (replicate (len_map (cdata c)) None)) (clock c)"

section \<open>Concurrent set\<close>

record 'k CSet =
  sdata :: "('k, unit) gomap"
  slock :: RWMutex

definition NewCSet :: "'k CSet" where
  "NewCSet = \<lparr> sdata = fmempty, slock = unlocked \<rparr>"

definition CSet_Put :: "'k \<Rightarrow> 'k CSet \<Rightarrow> (RWMutex \<times> ('k, unit) gomap) sync" where
  "CSet_Put e s = locked Lock Unlock (fmupd e () (sdata s)) (slock s)"

text \<open>\<open>Get\<close> takes the read lock and defers the release of the write lock.\<close>

definition CSet_Get :: "'k list \<Rightarrow> 'k CSet \<Rightarrow> (RWMutex \<times> 'k option) sync" where
  "CSet_Get ord s =
     locked RLock Unlock (case ord of [] \<Rightarrow> None | e # rest \<Rightarrow> Some e) (slock s)"

definition CSet_Contains :: "'k \<Rightarrow> 'k CSet \<Rightarrow> (RWMutex \<times> bool) sync" where
  "CSet_Contains e s = locked RLock RUnlock (fmlookup (sdata s) e \<noteq> None) (slock s)"

definition CSet_Remove :: "'k \<Rightarrow> 'k CSet \<Rightarrow> (RWMutex \<times> ('k, unit) gomap) sync" where
  "CSet_Remove e s = locked Lock Unlock (fmdrop e (sdata s)) (slock s)"

definition CSet_Size :: "'k CSet \<Rightarrow> (RWMutex \<times> nat) sync" where
  "CSet_Size s = locked RLock RUnlock (len_map (sdata s)) (slock s)"

definition CSet_Array :: "'k list \<Rightarrow> 'k CSet \<Rightarrow> (RWMutex \<times> 'k list) sync" where
  "CSet_Array ord s =
     locked RLock RUnlock (fold (\<lambda>e array. array @ [e]) ord []) (slock s)"

section \<open>Map of maps\<close>

text \<open>A missing inner map is Go's nil map: reading it finds nothing, writing to it panics.\<close>

record ('k, 'j, 'v) MMap =
  mdata :: "('k, ('j, 'v option) gomap) gomap"
  mlock :: RWMutex

definition NewMMap :: "('k, 'j, 'v) MMap" where
  "NewMMap = \<lparr> mdata = fmempty, mlock = unlocked \<rparr>"

definition MMap_Keys :: "'k list \<Rightarrow> ('k, 'j, 'v) MMap \<Rightarrow> (RWMutex \<times> 'k option list outcome) sync" where
  "MMap_Keys ord m =
     locked RLock RUnlock (fill 0 ord (replicate (len_map (mdata m)) None)) (mlock m)"

definition MMap_SecondaryKeys ::
    "'j list \<Rightarrow> ('k, 'j, 'v) MMap \<Rightarrow> (RWMutex \<times> 'j option list outcome) sync" where
  "MMap_SecondaryKeys ord m =
     locked RLock RUnlock (fill 0 ord (replicate (len_map (mdata m)) None)) (mlock m)"

definition MMap_Get :: "'k \<Rightarrow> 'j \<Rightarrow> ('k, 'j, 'v) MMap \<Rightarrow> (RWMutex \<times> 'v option) sync" where
  "MMap_Get k j m = locked RLock RUnlock (get_or None (get_or fmempty (mdata m) k) j) (mlock m)"

definition MMap_Put ::
    "'k \<Rightarrow> 'j \<Rightarrow> 'v option \<Rightarrow> ('k, 'j, 'v) MMap \<Rightarrow>
     (RWMutex \<times> ('k, ('j, 'v option) gomap) gomap outcome) sync" where
  "MMap_Put k j v m =
     locked Lock Unlock
       (case fmlookup (mdata m) k of
          None \<Rightarrow> Panic
        | Some inner \<Rightarrow> Ret (fmupd k (fmupd j v inner) (mdata m))) (mlock m)"

section \<open>What the containers do\<close>

datatype ('k, 'v) cmap_op = CGet 'k | CPut 'k "'v option" | CHas 'k | CCount

datatype 'v cmap_out = CNone | CItem "'v option" | CBool bool | CNum nat | CStuck

text \<open>One call, made when no other goroutine holds the lock.\<close>

fun cmap_step :: "('k, 'v) CMap \<Rightarrow> ('k, 'v) cmap_op \<Rightarrow> ('k, 'v) CMap \<times> 'v cmap_out" where
  "cmap_step c (CGet k) =
     (case CMap_Get k c of Done (l, v) \<Rightarrow> (c\<lparr>clock := l\<rparr>, CItem v) | _ \<Rightarrow> (c, CStuck))"
| "cmap_step c (CPut k v) =
     (case CMap_Put k v c of Done (l, d) \<Rightarrow> (c\<lparr>clock := l, cdata := d\<rparr>, CNone) | _ \<Rightarrow> (c, CStuck))"
| "cmap_step c (CHas k) =
     (case CMap_Contains k c of Done (l, b) \<Rightarrow> (c\<lparr>clock := l\<rparr>, CBool b) | _ \<Rightarrow> (c, CStuck))"
| "cmap_step c CCount =
     (case CMap_Size c of Done (l, n) \<Rightarrow> (c\<lparr>clock := l\<rparr>, CNum n) | _ \<Rightarrow> (c, CStuck))"

text \<open>The specification: a partial function.\<close>

fun map_step :: "('k \<rightharpoonup> 'v option) \<Rightarrow> ('k, 'v) cmap_op \<Rightarrow> ('k \<rightharpoonup> 'v option) \<times> 'v cmap_out" where
  "map_step m (CGet k) = (m, CItem (case m k of None \<Rightarrow> None | Some v \<Rightarrow> v))"
| "map_step m (CPut k v) = (m(k \<mapsto> v), CNone)"
| "map_step m (CHas k) = (m, CBool (k \<in> dom m))"
| "map_step m CCount = (m, CNum (card (dom m)))"

lemma dom_fmlookup: "dom (fmlookup m) = fmdom' m"
  by (auto simp: fmlookup_dom'_iff)

interpretation lm: refines cmap_step map_step "\<lambda>c. fmlookup (cdata c)" "\<lambda>c. clock c = unlocked"
proof
  fix c :: "('k, 'v) CMap" and x
  assume c: "clock c = unlocked"
  then show "clock (fst (cmap_step c x)) = unlocked"
    by (cases x) (simp_all add: CMap_Get_def CMap_Put_def CMap_Contains_def CMap_Size_def)
  from c show "map_step (fmlookup (cdata c)) x = (fmlookup (cdata (fst (cmap_step c x))), snd (cmap_step c x))"
    by (cases x) (simp_all add: CMap_Get_def CMap_Put_def CMap_Contains_def CMap_Size_def get_or_def
        dom_fmlookup len_map_def fmlookup_dom'_iff fun_eq_iff domIff)
qed

text \<open>
  A concurrent map used by one caller at a time answers as a partial function, never
  blocks and leaves its lock free; listing its keys never leaves a nil in the slice.
\<close>

theorem cmap_is_map:
  "outputs cmap_step NewCMap ops = outputs map_step Map.empty ops \<and>
   (range_order ord (cdata (final cmap_step NewCMap ops)) \<longrightarrow>
      CMap_Keys ord (final cmap_step NewCMap ops) = Done (unlocked, Ret (map Some ord)))"
proof -
  have new: "clock (NewCMap :: ('b, 'a) CMap) = unlocked" "fmlookup (cdata (NewCMap :: ('b, 'a) CMap)) = Map.empty"
    by (simp_all add: NewCMap_def fun_eq_iff)
  from lm.outputs_eq [OF new(1), of ops] lm.final_inv [OF new(1), of ops] show ?thesis
    by (auto simp: new(2) CMap_Keys_def range_order_length [symmetric] fill_all)
qed

theorem cmap_is_map_witness:
  "CMap_Keys [1, 2] (final cmap_step NewCMap [CPut (1::nat) (Some (5::nat)), CPut 2 None]) =
     Done (unlocked, Ret [Some 1, Some 2])"
proof -
  have "cdata (final cmap_step NewCMap [CPut (1::nat) (Some (5::nat)), CPut 2 None]) =
      fmupd 2 None (fmupd 1 (Some 5) fmempty)"
    by (simp add: CMap_Put_def NewCMap_def)
  then have "range_order [1, 2] (cdata (final cmap_step NewCMap [CPut (1::nat) (Some (5::nat)), CPut 2 None]))"
    by (auto simp: range_order_def)
  with cmap_is_map [of "[CPut (1::nat) (Some (5::nat)), CPut 2 None]" "[1, 2]"] show ?thesis by simp
qed

text \<open>The other operations on a concurrent set, and those on a map of maps.\<close>

datatype 'k cset_op = SetPut 'k | SetRemove 'k | SetHas 'k | SetCount

fun cset_step :: "'k CSet \<Rightarrow> 'k cset_op \<Rightarrow> 'k CSet \<times> bool" where
  "cset_step s (SetPut e) =
     (case CSet_Put e s of Done (l, d) \<Rightarrow> (s\<lparr>slock := l, sdata := d\<rparr>, True) | _ \<Rightarrow> (s, False))"
| "cset_step s (SetRemove e) =
     (case CSet_Remove e s of Done (l, d) \<Rightarrow> (s\<lparr>slock := l, sdata := d\<rparr>, True) | _ \<Rightarrow> (s, False))"
| "cset_step s (SetHas e) =
     (case CSet_Contains e s of Done (l, b) \<Rightarrow> (s\<lparr>slock := l\<rparr>, True) | _ \<Rightarrow> (s, False))"
| "cset_step s SetCount =
     (case CSet_Size s of Done (l, n) \<Rightarrow> (s\<lparr>slock := l\<rparr>, True) | _ \<Rightarrow> (s, False))"

lemma cset_unlocked: "slock s = unlocked \<Longrightarrow> slock (final cset_step s ops) = unlocked"
proof (induction ops arbitrary: s)
  case (Cons x ops)
  then have "slock (fst (cset_step s x)) = unlocked"
    by (cases x) (simp_all add: CSet_Put_def CSet_Remove_def CSet_Contains_def CSet_Size_def)
  with Cons.IH show ?case by simp
qed simp

text \<open>
  \<open>CSet.Get\<close> never returns: after any use of the other operations it ends the program,
  because it takes the read lock and releases the write lock.
\<close>

theorem CSet_Get_is_fatal: "CSet_Get ord (final cset_step NewCSet ops) = Fatal"
proof -
  have "slock (final cset_step NewCSet ops) = unlocked"
    by (rule cset_unlocked) (simp add: NewCSet_def)
  then show ?thesis by (simp add: CSet_Get_def)
qed

fun mmap_step :: "('k, 'j, 'v) MMap \<Rightarrow> 'k \<times> 'j \<times> 'v option \<Rightarrow> ('k, 'j, 'v) MMap \<times> bool" where
  "mmap_step m (k, j, v) =
     (case MMap_Put k j v m of
        Done (l, Ret d) \<Rightarrow> (m\<lparr>mlock := l, mdata := d\<rparr>, True)
      | Done (l, Panic) \<Rightarrow> (m\<lparr>mlock := l\<rparr>, False)
      | _ \<Rightarrow> (m, False))"

text \<open>
  Nothing can ever be stored in an \<open>MMap\<close>: every \<open>Put\<close> on a map that \<open>NewMMap\<close> made panics,
  also after earlier panics were recovered, since no operation creates an inner map.
\<close>

theorem MMap_Put_panics:
  "MMap_Put k j v (final mmap_step NewMMap ops) = Done (unlocked, Panic)"
proof -
  have put: "MMap_Put k' j' v' NewMMap = Done (unlocked, Panic)" for k' :: 'a and j' :: 'b and v' :: "'c option"
    by (simp add: MMap_Put_def NewMMap_def)
  then have "fst (mmap_step NewMMap x) = NewMMap" for x :: "'a \<times> 'b \<times> 'c option"
    by (cases x) (simp add: NewMMap_def put [unfolded NewMMap_def])
  then have "final mmap_step NewMMap ops = NewMMap"
    by (induction ops) simp_all
  with put show ?thesis by simp
qed

end
