(* ===== verification/Stacks.thy ===== *)
theory Stacks
  imports Refines
begin

text \<open>
  The stack of \<open>lib/stack.go\<close>, a linked list of nodes and a length kept beside it. Nodes are never
  changed once linked, so a pointer to one is the node itself. \<open>Peek\<close> and \<open>Pop\<close> dereference
  \<open>top\<close> when the length is positive, and panic if it is nil then.
\<close>

datatype 'a stackNode = StackNode "'a option" "'a stackNode option"

record 'a Stack =
  top :: "'a stackNode option"
  slen :: int

definition NewStack :: "'a Stack" where
  "NewStack = \<lparr> top = None, slen = 0 \<rparr>"

definition Stack_Len :: "'a Stack \<Rightarrow> int" where
  "Stack_Len s = slen s"

definition Stack_Peek :: "'a Stack \<Rightarrow> 'a option outcome" where
  "Stack_Peek s =
     (if slen s = 0 then Ret None
      else case top s of None \<Rightarrow> Panic | Some (StackNode v p) \<Rightarrow> Ret v)"

definition Stack_Pop :: "'a Stack \<Rightarrow> ('a Stack \<times> 'a option) outcome" where
  "Stack_Pop s =
     (if slen s = 0 then Ret (s, None)
      else case top s of
             None \<Rightarrow> Panic
           | Some (StackNode v p) \<Rightarrow> Ret (s\<lparr>top := p, slen := slen s - 1\<rparr>, v))"

definition Stack_Push :: "'a option \<Rightarrow> 'a Stack \<Rightarrow> 'a Stack" where
  "Stack_Push v s = s\<lparr>top := Some (StackNode v (top s)), slen := slen s + 1\<rparr>"

definition Stack_Empty :: "'a Stack \<Rightarrow> bool" where
  "Stack_Empty s \<longleftrightarrow> slen s = 0"

section \<open>A last-in first-out list\<close>

datatype 'a stack_op = SPush "'a option" | SPop | SPeek | SLen | SEmpty

datatype 'a stack_out = SNone | SItem "'a option" | SNum int | SBool bool | SPanic

fun stack_step :: "'a Stack \<Rightarrow> 'a stack_op \<Rightarrow> 'a Stack \<times> 'a stack_out" where
  "stack_step s (SPush v) = (Stack_Push v s, SNone)"
| "stack_step s SPop =
     (case Stack_Pop s of Panic \<Rightarrow> (s, SPanic) | Ret (s', v) \<Rightarrow> (s', SItem v))"
| "stack_step s SPeek = (s, case Stack_Peek s of Panic \<Rightarrow> SPanic | Ret v \<Rightarrow> SItem v)"
| "stack_step s SLen = (s, SNum (Stack_Len s))"
| "stack_step s SEmpty = (s, SBool (Stack_Empty s))"

fun lifo_step :: "'a option list \<Rightarrow> 'a stack_op \<Rightarrow> 'a option list \<times> 'a stack_out" where
  "lifo_step xs (SPush v) = (v # xs, SNone)"
| "lifo_step [] SPop = ([], SItem None)"
| "lifo_step (x # xs) SPop = (xs, SItem x)"
| "lifo_step [] SPeek = ([], SItem None)"
| "lifo_step (x # xs) SPeek = (x # xs, SItem x)"
| "lifo_step xs SLen = (xs, SNum (int (length xs)))"
| "lifo_step xs SEmpty = (xs, SBool (xs = []))"

fun chain :: "'a stackNode option \<Rightarrow> 'a option list" where
  "chain None = []"
| "chain (Some (StackNode v p)) = v # chain p"

definition stack_ok :: "'a Stack \<Rightarrow> bool" where
  "stack_ok s \<longleftrightarrow> slen s = int (length (chain (top s)))"

definition stack_items :: "'a Stack \<Rightarrow> 'a option list" where
  "stack_items s = chain (top s)"

lemma stack_new: "stack_ok NewStack" "stack_items NewStack = []"
  by (simp_all add: stack_ok_def stack_items_def NewStack_def)

lemma stack_push:
  "stack_ok s \<Longrightarrow> stack_ok (Stack_Push v s)" "stack_items (Stack_Push v s) = v # stack_items s"
  by (simp_all add: stack_ok_def stack_items_def Stack_Push_def)

lemma stack_empty: "stack_ok s \<Longrightarrow> Stack_Empty s \<longleftrightarrow> stack_items s = []"
  by (simp add: stack_ok_def stack_items_def Stack_Empty_def)

lemma chain_Cons: "chain t = x # xs \<Longrightarrow> \<exists>p. t = Some (StackNode x p) \<and> chain p = xs"
  by (cases t rule: chain.cases) auto

lemma stack_pop:
  assumes "stack_ok s"
  shows "stack_items s = [] \<Longrightarrow> Stack_Pop s = Ret (s, None)"
    and "stack_items s = x # xs \<Longrightarrow>
      \<exists>s'. Stack_Pop s = Ret (s', x) \<and> stack_ok s' \<and> stack_items s' = xs"
  using assms chain_Cons [of "top s" x xs]
  by (auto simp: stack_ok_def stack_items_def Stack_Pop_def)

lemma stack_peek:
  "stack_ok s \<Longrightarrow> Stack_Peek s = Ret (case stack_items s of [] \<Rightarrow> None | x # xs \<Rightarrow> x)"
  by (cases "top s" rule: chain.cases) (auto simp: stack_ok_def stack_items_def Stack_Peek_def)

interpretation ls: refines stack_step lifo_step stack_items stack_ok
proof
  fix s :: "'a Stack" and x
  assume s: "stack_ok s"
  have pop: "stack_ok (fst (stack_step s SPop)) \<and>
      lifo_step (stack_items s) SPop = (stack_items (fst (stack_step s SPop)), snd (stack_step s SPop))"
    using stack_pop [OF s] s by (cases "stack_items s") fastforce+
  have peek: "lifo_step (stack_items s) SPeek = (stack_items s, snd (stack_step s SPeek))"
    using stack_peek [OF s] by (cases "stack_items s") simp_all
  have len: "Stack_Len s = int (length (stack_items s))"
    using s by (simp add: stack_ok_def Stack_Len_def stack_items_def)
  show "stack_ok (fst (stack_step s x))"
    using s pop by (cases x) (simp_all add: stack_push)
  show "lifo_step (stack_items s) x = (stack_items (fst (stack_step s x)), snd (stack_step s x))"
  proof (cases x)
    case SPop
    with pop show ?thesis by simp
  next
    case SPeek
    with peek show ?thesis by simp
  qed (simp_all add: stack_push len stack_empty [OF s])
qed

text \<open>
  On every sequence of operations the stack answers as a last-in first-out list does; it
  never panics, and the length it keeps is the number of its nodes.
\<close>

theorem stack_is_lifo: "outputs stack_step NewStack ops = outputs lifo_step [] ops"
  using ls.outputs_eq [OF stack_new(1)] by (simp add: stack_new)

end
