(* ===== verification/Graphs.thy ===== *)
theory Graphs
  imports Containers Stacks
begin

text \<open>
  The directed graph of \<open>lib/graph.go\<close>: the set of vertices and, for each, the sets of its direct
  successors and predecessors. A lookup of a missing vertex in \<open>from\<close> or \<open>to\<close> gives Go's nil set,
  which is empty to read and to remove from. Loops over a set take the order in which they meet
  its elements from a function of the vertex and the set, \<open>ord\<close>.
\<close>

record 'v Graph =
  vertices :: "'v Set"
  gfrom :: "('v, 'v Set) gomap"
  gto :: "('v, 'v Set) gomap"

definition NewGraph :: "'v Graph" where
  "NewGraph = \<lparr> vertices = NewSet, gfrom = fmempty, gto = fmempty \<rparr>"

definition Graph_Size :: "'v Graph \<Rightarrow> nat" where
  "Graph_Size g = fcard (vertices g)"

definition Graph_Has :: "'v Graph \<Rightarrow> 'v \<Rightarrow> bool" where
  "Graph_Has g v = Set_Has (vertices g) v"

text \<open>\<open>From\<close> and \<open>To\<close>; the nil set of a missing vertex is the empty one.\<close>

definition From :: "'v Graph \<Rightarrow> 'v \<Rightarrow> 'v Set" where
  "From g v = get_or {||} (gfrom g) v"

definition To :: "'v Graph \<Rightarrow> 'v \<Rightarrow> 'v Set" where
  "To g v = get_or {||} (gto g) v"

definition Vertices :: "'v Graph \<Rightarrow> 'v Set" where
  "Vertices g = vertices g"

definition Graph_Add :: "'v \<Rightarrow> 'v Graph \<Rightarrow> 'v Graph" where
  "Graph_Add v g =
     (if \<not> Graph_Has g v
      then g\<lparr>vertices := Set_Add v (vertices g), gfrom := fmupd v NewSet (gfrom g),
             gto := fmupd v NewSet (gto g)\<rparr>
      else g)"

text \<open>\<open>m[u].Remove(v)\<close>: the set under \<open>u\<close> is shared with the map, and removing from nil does nothing.\<close>

definition remove_under :: "'v \<Rightarrow> 'v \<Rightarrow> ('v, 'v Set) gomap \<Rightarrow> ('v, 'v Set) gomap" where
  "remove_under u v m =
     (case fmlookup m u of None \<Rightarrow> m | Some s \<Rightarrow> fmupd u (Set_Remove v s) m)"

text \<open>\<open>m[u].Add(v)\<close>: adding to the nil set panics.\<close>

definition add_under :: "'v \<Rightarrow> 'v \<Rightarrow> ('v, 'v Set) gomap \<Rightarrow> ('v, 'v Set) gomap outcome" where
  "add_under u v m =
     (case fmlookup m u of None \<Rightarrow> Panic | Some s \<Rightarrow> Ret (fmupd u (Set_Add v s) m))"

text \<open>The body of the loop of \<open>Remove\<close> for the remaining vertex \<open>u\<close>.\<close>

definition detach :: "'v \<Rightarrow> 'v \<Rightarrow> 'v Graph \<Rightarrow> 'v Graph" where
  "detach v u g = g\<lparr>gfrom := remove_under u v (gfrom g), gto := remove_under u v (gto g)\<rparr>"

definition Graph_Remove :: "'v list \<Rightarrow> 'v \<Rightarrow> 'v Graph \<Rightarrow> 'v Graph" where
  "Graph_Remove ord v g =
     (if \<not> Graph_Has g v then g
      else let g1 = g\<lparr>vertices := Set_Remove v (vertices g)\<rparr>;
               g2 = fold (detach v) ord g1
           in g2\<lparr>gfrom := fmdrop v (gfrom g2), gto := fmdrop v (gto g2)\<rparr>)"

definition AddEdge :: "'v \<Rightarrow> 'v \<Rightarrow> 'v Graph \<Rightarrow> 'v Graph outcome" where
  "AddEdge u v g =
     (if u = v then Panic
      else let g1 = (if \<not> Graph_Has g u then Graph_Add u g else g);
               g2 = (if \<not> Graph_Has g1 v then Graph_Add v g1 else g1)
           in case add_under u v (gfrom g2) of
                Panic \<Rightarrow> Panic
              | Ret f \<Rightarrow> (case add_under v u (gto g2) of
                            Panic \<Rightarrow> Panic
                          | Ret t \<Rightarrow> Ret (g2\<lparr>gfrom := f, gto := t\<rparr>)))"

definition RemoveEdge :: "'v \<Rightarrow> 'v \<Rightarrow> 'v Graph \<Rightarrow> 'v Graph" where
  "RemoveEdge u v g =
     (if \<not> Graph_Has g u \<or> \<not> Graph_Has g v then g
      else g\<lparr>gfrom := remove_under u v (gfrom g), gto := remove_under v u (gto g)\<rparr>)"

definition Transpose ::
    "('v \<Rightarrow> 'v Set \<Rightarrow> 'v list) \<Rightarrow> 'v list \<Rightarrow> 'v list \<Rightarrow> 'v Graph \<Rightarrow> 'v Graph" where
  "Transpose ord us vs g =
     fold (\<lambda>v t. t\<lparr>gfrom := fmupd v (Set_Clone (ord v (To g v))) (gfrom t),
                   gto := fmupd v (Set_Clone (ord v (From g v))) (gto t)\<rparr>) vs
       (NewGraph\<lparr>vertices := Set_Clone us\<rparr>)"

section \<open>Well-formed graphs\<close>

definition graph_ok :: "'v Graph \<Rightarrow> bool" where
  "graph_ok g \<longleftrightarrow>
     fmdom (gfrom g) = vertices g \<and> fmdom (gto g) = vertices g \<and>
     (\<forall>u v. v |\<in>| From g u \<longleftrightarrow> u |\<in>| To g v) \<and>
     (\<forall>u v. v |\<in>| From g u \<longrightarrow> u |\<in>| vertices g \<and> v |\<in>| vertices g \<and> u \<noteq> v)"

definition edges :: "'v Graph \<Rightarrow> ('v \<times> 'v) set" where
  "edges g = {(u, v). v |\<in>| From g u}"

definition iterates :: "('v \<Rightarrow> 'v Set \<Rightarrow> 'v list) \<Rightarrow> bool" where
  "iterates ord \<longleftrightarrow> (\<forall>v s. distinct (ord v s) \<and> set (ord v s) = fset s)"

lemma graph_ok_new: "graph_ok NewGraph"
  by (simp add: graph_ok_def NewGraph_def From_def To_def NewSet_def)

lemma Graph_Add_simps:
  "vertices (Graph_Add v g) = finsert v (vertices g)"
  "\<not> Graph_Has g v \<Longrightarrow> gfrom (Graph_Add v g) = fmupd v {||} (gfrom g)"
  "\<not> Graph_Has g v \<Longrightarrow> gto (Graph_Add v g) = fmupd v {||} (gto g)"
  by (auto simp: Graph_Add_def Set_Add_def Graph_Has_def Set_Has_def NewSet_def finsert_absorb)

lemma get_or_missing: "v |\<notin>| fmdom m \<Longrightarrow> get_or d m v = d"
  by (simp add: get_or_def fmdom_notD)

lemma graph_okD:
  assumes "graph_ok g"
  shows "fmdom (gfrom g) = vertices g" "fmdom (gto g) = vertices g"
    "u |\<in>| To g v \<longleftrightarrow> v |\<in>| From g u"
    "v |\<in>| From g u \<Longrightarrow> u |\<in>| vertices g"
    "v |\<in>| From g u \<Longrightarrow> v |\<in>| vertices g"
    "v |\<in>| From g u \<Longrightarrow> u \<noteq> v"
  using assms unfolding graph_ok_def by blast+

lemma graph_okI:
  assumes "fmdom (gfrom g) = vertices g" "fmdom (gto g) = vertices g"
    "\<And>u v. u |\<in>| To g v \<longleftrightarrow> v |\<in>| From g u"
    "\<And>u v. v |\<in>| From g u \<Longrightarrow> u |\<in>| vertices g \<and> v |\<in>| vertices g \<and> u \<noteq> v"
  shows "graph_ok g"
  using assms unfolding graph_ok_def by blast

lemma graph_no_self: "graph_ok g \<Longrightarrow> u |\<notin>| From g u"
  using graph_okD(6) [of g u u] by auto

lemma missing_vertex:
  assumes "graph_ok g" "\<not> Graph_Has g v"
  shows "From g v = {||}" "To g v = {||}"
  using assms(2) graph_okD(1,2) [OF assms(1)]
  by (simp_all add: Graph_Has_def Set_Has_def From_def To_def get_or_missing)

lemma Graph_Add_edges: "graph_ok g \<Longrightarrow> From (Graph_Add v g) u = From g u \<and> To (Graph_Add v g) u = To g u"
proof (cases "Graph_Has g v")
  case True
  then show ?thesis by (simp add: Graph_Add_def)
next
  case False
  assume g: "graph_ok g"
  from missing_vertex [OF g False] show ?thesis
    by (auto simp: From_def To_def Graph_Add_simps(2,3) [OF False])
qed

lemma graph_ok_Add: "graph_ok g \<Longrightarrow> graph_ok (Graph_Add v g)"
proof (cases "Graph_Has g v")
  case True
  then show "graph_ok g \<Longrightarrow> ?thesis" by (simp add: Graph_Add_def)
next
  case False
  assume g: "graph_ok g"
  show ?thesis
    by (rule graph_okI)
      (use graph_okD [OF g] Graph_Add_edges [OF g] in \<open>auto simp: Graph_Add_simps False\<close>)
qed

lemma From_upd:
  "From (g\<lparr>gfrom := f, gto := t\<rparr>) v = get_or {||} f v" "To (g\<lparr>gfrom := f, gto := t\<rparr>) v = get_or {||} t v"
  by (simp_all add: From_def To_def)

text \<open>Adding an edge to a graph that has both ends, and in general.\<close>

lemma fmlookup_From: "graph_ok g \<Longrightarrow> v |\<in>| vertices g \<Longrightarrow> fmlookup (gfrom g) v = Some (From g v)"
  and fmlookup_To: "graph_ok g \<Longrightarrow> v |\<in>| vertices g \<Longrightarrow> fmlookup (gto g) v = Some (To g v)"
  using graph_okD(1,2) [of g] by (auto simp: From_def To_def get_or_def fmlookup_dom_iff split: option.splits)

lemma Graph_Add_cond: "(if \<not> Graph_Has g v then Graph_Add v g else g) = Graph_Add v g"
  by (simp add: Graph_Add_def)

lemma AddEdge_correct:
  assumes g: "graph_ok g" and ne: "u \<noteq> v"
  shows "\<exists>g'. AddEdge u v g = Ret g' \<and> graph_ok g' \<and>
    vertices g' = finsert u (finsert v (vertices g)) \<and> edges g' = insert (u, v) (edges g)"
proof -
  define g2 where "g2 = Graph_Add v (Graph_Add u g)"
  have g2: "graph_ok g2" by (simp add: g2_def g graph_ok_Add)
  have E: "From g2 w = From g w" "To g2 w = To g w" for w
    using Graph_Add_edges [OF g, of u] Graph_Add_edges [OF graph_ok_Add [OF g], of v u] by (simp_all add: g2_def)
  have V: "vertices g2 = finsert u (finsert v (vertices g))"
    by (auto simp: g2_def Graph_Add_simps)
  define g' where "g' = g2\<lparr>gfrom := fmupd u (finsert v (From g u)) (gfrom g2),
      gto := fmupd v (finsert u (To g v)) (gto g2)\<rparr>"
  have "AddEdge u v g = Ret g'"
    using ne fmlookup_From [OF g2, of u] fmlookup_To [OF g2, of v]
    unfolding AddEdge_def Let_def Graph_Add_cond g2_def [symmetric]
    by (simp add: add_under_def V E Set_Add_def g'_def)
  moreover have F': "From g' w = (if w = u then finsert v (From g u) else From g w)"
      and T': "To g' w = (if w = v then finsert u (To g v) else To g w)" for w
    using E by (simp_all add: g'_def From_upd) (simp_all add: From_def To_def)
  moreover have G': "vertices g' = finsert u (finsert v (vertices g))" "fmdom (gfrom g') = vertices g'"
      "fmdom (gto g') = vertices g'"
    using graph_okD(1,2) [OF g2] by (auto simp: g'_def V)
  moreover have "graph_ok g'"
    by (rule graph_okI) (use ne graph_okD(3-5) [OF g] graph_no_self [OF g] in \<open>auto simp: F' T' G' split: if_splits\<close>)
  ultimately show ?thesis
    by (intro exI [of _ g']) (auto simp: edges_def F' split: if_splits)
qed

lemma fmlookup_remove_under:
  "fmlookup (remove_under u v m) w =
     (if w = u then map_option (\<lambda>s. s |-| {|v|}) (fmlookup m w) else fmlookup m w)"
  by (auto simp: remove_under_def Set_Remove_def split: option.splits)

lemma fmdom_remove_under [simp]: "fmdom (remove_under u v m) = fmdom m"
  by (auto simp: remove_under_def finsert_absorb fmdomI split: option.splits)

lemma get_or_remove_under:
  "get_or {||} (remove_under u v m) w = (if w = u then get_or {||} m w |-| {|v|} else get_or {||} m w)"
  by (auto simp: get_or_def fmlookup_remove_under split: option.splits)

lemma RemoveEdge_correct:
  assumes g: "graph_ok g"
  shows "graph_ok (RemoveEdge u v g) \<and> vertices (RemoveEdge u v g) = vertices g \<and>
    edges (RemoveEdge u v g) = edges g - {(u, v)}"
proof (cases "Graph_Has g u \<and> Graph_Has g v")
  case True
  then have r: "RemoveEdge u v g = g\<lparr>gfrom := remove_under u v (gfrom g), gto := remove_under v u (gto g)\<rparr>"
    by (simp add: RemoveEdge_def)
  have F: "From (RemoveEdge u v g) w = (if w = u then From g w |-| {|v|} else From g w)"
    and T: "To (RemoveEdge u v g) w = (if w = v then To g w |-| {|u|} else To g w)" for w
    by (simp_all add: r From_upd get_or_remove_under) (simp_all add: From_def To_def)
  have G: "vertices (RemoveEdge u v g) = vertices g" "fmdom (gfrom (RemoveEdge u v g)) = vertices g"
      "fmdom (gto (RemoveEdge u v g)) = vertices g"
    using graph_okD(1,2) [OF g] by (simp_all add: r)
  have "graph_ok (RemoveEdge u v g)"
    by (rule graph_okI) (use graph_okD(3-5) [OF g] graph_no_self [OF g] in \<open>auto simp: F T G split: if_splits\<close>)
  then show ?thesis by (auto simp: edges_def F G split: if_splits)
next
  case False
  then have "RemoveEdge u v g = g" "(u, v) \<notin> edges g"
    using graph_okD(4,5) [OF g, of v u] by (auto simp: RemoveEdge_def edges_def Graph_Has_def Set_Has_def)
  with g show ?thesis by simp
qed

lemma remove_loop:
  "vertices (fold (detach v) ord g) = vertices g"
  "fmdom (gfrom (fold (detach v) ord g)) = fmdom (gfrom g)"
  "fmdom (gto (fold (detach v) ord g)) = fmdom (gto g)"
  "From (fold (detach v) ord g) w = (if w \<in> set ord then From g w |-| {|v|} else From g w)"
  "To (fold (detach v) ord g) w = (if w \<in> set ord then To g w |-| {|v|} else To g w)"
  by (induction ord arbitrary: g)
    (auto simp: detach_def From_upd get_or_remove_under simp flip: From_def To_def)

lemma Remove_correct:
  assumes g: "graph_ok g" and ord: "set ord = fset (vertices g |-| {|v|})"
  shows "graph_ok (Graph_Remove ord v g) \<and> vertices (Graph_Remove ord v g) = vertices g |-| {|v|} \<and>
    edges (Graph_Remove ord v g) = {(a, b) \<in> edges g. a \<noteq> v \<and> b \<noteq> v}"
proof (cases "Graph_Has g v")
  case True
  define g1 where "g1 = g\<lparr>vertices := Set_Remove v (vertices g)\<rparr>"
  define g2 where "g2 = fold (detach v) ord g1"
  note detached = remove_loop [where v = v and ord = ord and g = g1, folded g2_def]
  have r: "Graph_Remove ord v g = g2\<lparr>gfrom := fmdrop v (gfrom g2), gto := fmdrop v (gto g2)\<rparr>"
    using True by (simp add: Graph_Remove_def Let_def g1_def g2_def)
  have g1: "From g1 w = From g w" "To g1 w = To g w" "fmdom (gfrom g1) = vertices g"
      "fmdom (gto g1) = vertices g" "vertices g1 = vertices g |-| {|v|}" for w
    using graph_okD(1,2) [OF g] by (simp_all add: g1_def From_def To_def Set_Remove_def)
  have drop: "get_or {||} (fmdrop v m) w = (if w = v then {||} else get_or {||} m w)" for w and m :: "('a, 'a Set) gomap"
    by (simp add: get_or_def fmlookup_drop)
  have F: "From (Graph_Remove ord v g) w = (if w = v then {||} else From g w |-| {|v|})"
    and T: "To (Graph_Remove ord v g) w = (if w = v then {||} else To g w |-| {|v|})" for w
    using detached(4,5) [of w] graph_okD(3,5) [OF g, of _ w] graph_okD(4) [OF g, of _ w]
      graph_okD(5) [OF g, of w]
    by (auto simp: r From_upd drop ord g1 simp flip: From_def To_def)
  have G: "vertices (Graph_Remove ord v g) = vertices g |-| {|v|}"
      "fmdom (gfrom (Graph_Remove ord v g)) = vertices g |-| {|v|}"
      "fmdom (gto (Graph_Remove ord v g)) = vertices g |-| {|v|}"
    by (simp_all add: r detached g1)
  have "graph_ok (Graph_Remove ord v g)"
    by (rule graph_okI) (use graph_okD(3-5) [OF g] graph_no_self [OF g] in \<open>auto simp: F T G split: if_splits\<close>)
  then show ?thesis by (auto simp: edges_def F G split: if_splits)
next
  case False
  then have "Graph_Remove ord v g = g" "vertices g |-| {|v|} = vertices g"
    by (auto simp: Graph_Remove_def Graph_Has_def Set_Has_def)
  moreover have "(a, b) \<in> edges g \<Longrightarrow> a \<noteq> v \<and> b \<noteq> v" for a b
    using graph_okD(4,5) [OF g, of b a] False by (auto simp: edges_def Graph_Has_def Set_Has_def)
  ultimately show ?thesis using g by auto
qed

lemma transpose_loop:
  defines "body \<equiv> \<lambda>ord g v t. t\<lparr>gfrom := fmupd v (Set_Clone (ord v (To g v))) (gfrom t),
      gto := fmupd v (Set_Clone (ord v (From g v))) (gto t)\<rparr>"
  assumes "iterates ord"
  shows "vertices (fold (body ord g) vs t) = vertices t"
    "fmlookup (gfrom (fold (body ord g) vs t)) w =
       (if w \<in> set vs then Some (To g w) else fmlookup (gfrom t) w)"
    "fmlookup (gto (fold (body ord g) vs t)) w =
       (if w \<in> set vs then Some (From g w) else fmlookup (gto t) w)"
  using assms(2) unfolding body_def
  by (induction vs arbitrary: t) (auto simp: iterates_def Set_Clone_eq)

lemma Transpose_correct:
  assumes g: "graph_ok g" and ord: "iterates ord"
    and us: "set us = fset (vertices g)" and vs: "set vs = fset (vertices g)"
  shows "Transpose ord us vs g = \<lparr> vertices = vertices g, gfrom = gto g, gto = gfrom g \<rparr>"
proof -
  note clone = transpose_loop [OF ord]
  have dom: "fmlookup (gfrom g) w = None" "fmlookup (gto g) w = None" if "w |\<notin>| vertices g" for w
    using that graph_okD(1,2) [OF g] by (auto simp: fmdom_notD)
  have "vertices (Transpose ord us vs g) = vertices g"
    using us by (simp add: Transpose_def clone(1) Set_Clone_eq)
  moreover have "gfrom (Transpose ord us vs g) = gto g"
    by (rule fmap_ext) (auto simp: Transpose_def clone(2) vs NewGraph_def dom fmlookup_To [OF g])
  moreover have "gto (Transpose ord us vs g) = gfrom g"
    by (rule fmap_ext) (auto simp: Transpose_def clone(3) vs NewGraph_def dom fmlookup_From [OF g])
  ultimately show ?thesis by (simp add: Graph.equality)
qed

section \<open>Graphs as pairs of sets\<close>

datatype 'v graph_op =
    GAdd 'v | GRemove "'v list" 'v | GAddEdge 'v 'v | GRemoveEdge 'v 'v
  | GHas 'v | GSize | GFrom 'v | GTo 'v

datatype 'v graph_out = GNone | GPanic | GBool bool | GNum nat | GSet "'v set"

fun graph_step :: "'v Graph \<Rightarrow> 'v graph_op \<Rightarrow> 'v Graph \<times> 'v graph_out" where
  "graph_step g (GAdd v) = (Graph_Add v g, GNone)"
| "graph_step g (GRemove ord v) = (Graph_Remove ord v g, GNone)"
| "graph_step g (GAddEdge u v) =
     (case AddEdge u v g of Panic \<Rightarrow> (g, GPanic) | Ret g' \<Rightarrow> (g', GNone))"
| "graph_step g (GRemoveEdge u v) = (RemoveEdge u v g, GNone)"
| "graph_step g (GHas v) = (g, GBool (Graph_Has g v))"
| "graph_step g GSize = (g, GNum (Graph_Size g))"
| "graph_step g (GFrom v) = (g, GSet (fset (From g v)))"
| "graph_step g (GTo v) = (g, GSet (fset (To g v)))"

text \<open>A run of \<open>Remove\<close> iterates over the remaining vertices.\<close>

fun graph_guard :: "'v Graph \<Rightarrow> 'v graph_op \<Rightarrow> bool" where
  "graph_guard g (GRemove ord v) = (set ord = fset (vertices g |-| {|v|}))"
| "graph_guard g x = True"

type_synonym 'v pure_graph = "'v set \<times> ('v \<times> 'v) set"

fun pure_step :: "'v pure_graph \<Rightarrow> 'v graph_op \<Rightarrow> 'v pure_graph \<times> 'v graph_out" where
  "pure_step (V, E) (GAdd v) = ((insert v V, E), GNone)"
| "pure_step (V, E) (GRemove ord v) = ((V - {v}, {(a, b) \<in> E. a \<noteq> v \<and> b \<noteq> v}), GNone)"
| "pure_step (V, E) (GAddEdge u v) =
     (if u = v then ((V, E), GPanic) else ((insert u (insert v V), insert (u, v) E), GNone))"
| "pure_step (V, E) (GRemoveEdge u v) = ((V, E - {(u, v)}), GNone)"
| "pure_step (V, E) (GHas v) = ((V, E), GBool (v \<in> V))"
| "pure_step (V, E) GSize = ((V, E), GNum (card V))"
| "pure_step (V, E) (GFrom v) = ((V, E), GSet (E `` {v}))"
| "pure_step (V, E) (GTo v) = ((V, E), GSet {u. (u, v) \<in> E})"

definition pure :: "'v Graph \<Rightarrow> 'v pure_graph" where
  "pure g = (fset (vertices g), edges g)"

lemma graph_step_sim:
  assumes "graph_ok g" "graph_guard g x"
  shows "graph_ok (fst (graph_step g x)) \<and>
    pure_step (pure g) x = (pure (fst (graph_step g x)), snd (graph_step g x))"
proof (cases x)
  case (GAdd v)
  with graph_ok_Add [OF assms(1), of v] Graph_Add_edges [OF assms(1), of v] show ?thesis
    by (simp add: pure_def Graph_Add_simps edges_def)
next
  case (GRemove ord v)
  with Remove_correct [OF assms(1), of ord v] assms(2) show ?thesis by (simp add: pure_def)
next
  case (GAddEdge u v)
  show ?thesis
  proof (cases "u = v")
    case True
    with GAddEdge assms(1) show ?thesis by (simp add: pure_def AddEdge_def)
  next
    case False
    with AddEdge_correct [OF assms(1) False] GAddEdge show ?thesis by (auto simp: pure_def)
  qed
next
  case (GRemoveEdge u v)
  with RemoveEdge_correct [OF assms(1), of u v] show ?thesis by (simp add: pure_def)
next
  case (GTo v)
  with assms(1) graph_okD(3) [OF assms(1)] show ?thesis by (auto simp: pure_def edges_def)
qed (use assms(1) in \<open>auto simp: pure_def Graph_Has_def Set_Has_def Graph_Size_def fcard.rep_eq edges_def\<close>)

interpretation gr: guarded_refines graph_step pure_step pure graph_ok graph_guard
  by unfold_locales (simp_all add: graph_step_sim)

lemma pure_new: "pure NewGraph = ({}, {})"
  by (simp add: pure_def NewGraph_def NewSet_def edges_def From_def)

text \<open>
  C26: every sequence of calls on a new graph answers as a set of vertices with a set of edges
  does: adding and removing keep the two maps of neighbours converse to each other, removing a
  vertex removes its edges, and only a self edge panics.
\<close>

theorem graph_is_pair_of_sets:
  assumes "legal graph_step graph_guard NewGraph ops"
  shows "outputs graph_step NewGraph ops = outputs pure_step ({}, {}) ops \<and>
    graph_ok (final graph_step NewGraph ops) \<and>
    pure (final graph_step NewGraph ops) = final pure_step ({}, {}) ops"
  using gr.run_outputs [OF graph_ok_new assms] gr.run_inv [OF graph_ok_new assms]
    gr.run_abs [OF graph_ok_new assms]
  by (simp add: pure_new)

theorem graph_is_pair_of_sets_witness:
  "pure (final graph_step NewGraph
     [GAddEdge (1::nat) 2, GAddEdge 2 3, GRemove [1, 3] 2, GAddEdge 3 1]) = ({1, 3}, {(3, 1)})"
proof -
  have "vertices (fst (graph_step (fst (graph_step NewGraph (GAddEdge (1::nat) 2))) (GAddEdge 2 3))) = {|1, 2, 3|}"
    by (auto simp: AddEdge_def Graph_Add_def NewGraph_def NewSet_def Graph_Has_def Set_Has_def
        add_under_def Set_Add_def)
  then have "legal graph_step graph_guard NewGraph
      [GAddEdge (1::nat) 2, GAddEdge 2 3, GRemove [1, 3] 2, GAddEdge 3 1]"
    by (auto simp del: graph_step.simps)
  then have "pure (final graph_step NewGraph
     [GAddEdge (1::nat) 2, GAddEdge 2 3, GRemove [1, 3] 2, GAddEdge 3 1]) =
     final pure_step ({}, {}) [GAddEdge 1 2, GAddEdge 2 3, GRemove [1, 3] 2, GAddEdge 3 1]"
    using graph_is_pair_of_sets by blast
  then show ?thesis by auto
qed

end
