(* ===== verification/Traversals.thy ===== *)
theory Traversals
  imports Graphs
begin

text \<open>
  The traversals of \<open>lib/graph.go\<close>. They are functions of the adjacency lists, that is of the map
  \<open>from\<close> (or \<open>to\<close>) with each set replaced by the order in which the loop meets its elements. The
  queue of \<open>BFS\<close> is a list, as in \<open>container/list\<close>; the stack of \<open>DFS\<close> is the list of items of the
  stack of \<open>lib/stack.go\<close>, top first, which is what the theory \<open>Stacks\<close> shows it to be.
\<close>

type_synonym 'v adjacency = "('v, 'v list) gomap"

definition ordered :: "('v \<Rightarrow> 'v Set \<Rightarrow> 'v list) \<Rightarrow> ('v, 'v Set) gomap \<Rightarrow> 'v adjacency" where
  "ordered ord m = fmmap_keys ord m"

definition targets :: "'v adjacency \<Rightarrow> 'v set" where
  "targets adj = (\<Union>u \<in> fmdom' adj. set (get_or [] adj u))"

definition arcs :: "'v adjacency \<Rightarrow> ('v \<times> 'v) set" where
  "arcs adj = {(u, w). w \<in> set (get_or [] adj u)}"

lemma finite_targets [simp]: "finite (targets adj)"
  by (simp add: targets_def)

lemma arcs_targets: "set (get_or [] adj u) \<subseteq> targets adj"
proof (cases "fmlookup adj u")
  case None
  then show ?thesis by (simp add: get_or_def)
next
  case (Some ts)
  then have "u \<in> fmdom' adj" by (rule fmdom'I)
  then show ?thesis by (auto simp: targets_def)
qed

section \<open>Breadth first\<close>

text \<open>The inner loop: what becomes visited, and the queue with it at the back.\<close>

fun push_unvisited :: "'v list \<Rightarrow> 'v Set \<Rightarrow> 'v list \<Rightarrow> 'v Set \<times> 'v list" where
  "push_unvisited [] visited queue = (visited, queue)"
| "push_unvisited (t # ts) visited queue =
     (if \<not> t |\<in>| visited then push_unvisited ts (finsert t visited) (queue @ [t])
      else push_unvisited ts visited queue)"

lemma push_unvisited_result:
  "push_unvisited ts visited queue = (visited', queue') \<Longrightarrow>
     \<exists>new. queue' = queue @ new \<and> fset visited' = fset visited \<union> set new \<and>
       distinct new \<and> set new = set ts - fset visited"
proof (induction ts visited queue arbitrary: visited' queue' rule: push_unvisited.induct)
  case (2 t ts visited queue)
  show ?case
  proof (cases "t |\<in>| visited")
    case True
    with 2 show ?thesis by auto
  next
    case False
    with 2 obtain new where new: "queue' = (queue @ [t]) @ new"
      "fset visited' = fset (finsert t visited) \<union> set new"
      "distinct new" "set new = set ts - fset (finsert t visited)"
      by auto
    with False show ?thesis by (intro exI [of _ "t # new"]) auto
  qed
qed auto

function bfs_loop :: "'v adjacency \<Rightarrow> 'v list \<Rightarrow> 'v Set \<Rightarrow> 'v list \<Rightarrow> 'v list" where
  "bfs_loop adj [] visited result = result"
| "bfs_loop adj (s # queue) visited result =
     (let (visited', queue') = push_unvisited (get_or [] adj s) visited queue
      in bfs_loop adj queue' visited' (result @ [s]))"
  by pat_completeness auto
termination
proof (relation "measure (\<lambda>(adj, queue, visited, result). card (targets adj - fset visited) + length queue)")
  fix adj :: "'v adjacency" and s queue visited result x visited' queue'
  assume "x = push_unvisited (get_or [] adj s) visited queue" "(visited', queue') = x"
  then obtain new where new: "queue' = queue @ new" "fset visited' = fset visited \<union> set new"
    "distinct new" "set new = set (get_or [] adj s) - fset visited"
    using push_unvisited_result [of "get_or [] adj s" visited queue visited' queue'] by auto
  have "card (targets adj - fset visited) = card (targets adj - fset visited') + length new"
  proof -
    have "targets adj - fset visited = (targets adj - fset visited') \<union> set new"
      using new arcs_targets [of adj s] by auto
    moreover have "(targets adj - fset visited') \<inter> set new = {}" using new by auto
    ultimately show ?thesis using new(3) by (simp add: card_Un_disjoint distinct_card)
  qed
  with new show "((adj, queue', visited', result @ [s]), adj, s # queue, visited, result) \<in>
      measure (\<lambda>(adj, queue, visited, result). card (targets adj - fset visited) + length queue)"
    by simp
qed simp

definition BFS :: "('v \<Rightarrow> 'v Set \<Rightarrow> 'v list) \<Rightarrow> 'v \<Rightarrow> 'v Graph \<Rightarrow> 'v list" where
  "BFS ord v g = bfs_loop (ordered ord (gfrom g)) [v] {|v|} []"

definition BFSReverse :: "('v \<Rightarrow> 'v Set \<Rightarrow> 'v list) \<Rightarrow> 'v \<Rightarrow> 'v Graph \<Rightarrow> 'v list" where
  "BFSReverse ord v g = bfs_loop (ordered ord (gto g)) [v] {|v|} []"

section \<open>Depth first\<close>

definition push_all :: "'v list \<Rightarrow> 'v Set \<Rightarrow> 'v list \<Rightarrow> 'v list" where
  "push_all ts visited stack =
     fold (\<lambda>i stack. if \<not> Set_Has visited i then i # stack else stack) ts stack"

lemma push_all_eq: "push_all ts visited stack = rev (filter (\<lambda>i. i |\<notin>| visited) ts) @ stack"
  unfolding push_all_def Set_Has_def by (induction ts arbitrary: stack) simp_all

lemma set_push_all: "set (push_all ts visited stack) = set stack \<union> (set ts - fset visited)"
  by (auto simp: push_all_eq)

function dfs_loop :: "'v adjacency \<Rightarrow> 'v list \<Rightarrow> 'v Set \<Rightarrow> 'v list \<Rightarrow> 'v list" where
  "dfs_loop adj [] visited result = result"
| "dfs_loop adj (s # stack) visited result =
     (let (visited', result') =
        (if \<not> Set_Has visited s then (Set_Add s visited, result @ [s]) else (visited, result))
      in dfs_loop adj (push_all (get_or [] adj s) visited' stack) visited' result')"
  by pat_completeness auto
termination
proof (relation "measures [\<lambda>(adj, stack, visited, result). card (targets adj \<union> set stack - fset visited),
    \<lambda>(adj, stack, visited, result). if stack \<noteq> [] \<and> hd stack |\<notin>| visited then 0 else 1,
    \<lambda>(adj, stack, visited, result). length stack]")
  fix adj :: "'v adjacency" and s :: 'v and stack visited result x visited' result'
  assume "x = (if \<not> Set_Has visited s then (Set_Add s visited, result @ [s]) else (visited, result))"
    and "(visited', result') = x"
  then have v': "fset visited' = insert s (fset visited)"
    by (auto simp: Set_Has_def Set_Add_def split: if_splits)
  define stack' where "stack' = push_all (get_or [] adj s) visited' stack"
  define new where "new = rev (filter (\<lambda>i. i |\<notin>| visited') (get_or [] adj s))"
  have st: "stack' = new @ stack" by (simp add: stack'_def push_all_eq new_def)
  have new: "set new \<subseteq> targets adj" "\<And>i. i \<in> set new \<Longrightarrow> i |\<notin>| visited'"
    using arcs_targets [of adj s] by (auto simp: new_def)
  let ?A = "targets adj \<union> set (s # stack) - fset visited" and ?B = "targets adj \<union> set stack' - fset visited'"
  have sub: "?B \<subseteq> ?A" using new(1) by (auto simp: st v')
  have le: "card ?B \<le> card ?A" by (rule card_mono) (use sub in simp_all)
  have less: "card ?B < card ?A" if "s |\<notin>| visited"
  proof (rule psubset_card_mono)
    have "s \<in> ?A - ?B" using that by (simp add: v')
    with sub show "?B \<subset> ?A" by blast
  qed simp
  have top: "hd stack' |\<notin>| visited'" if "new \<noteq> []"
    using that new(2) [of "hd new"] by (simp add: st)
  show "((adj, push_all (get_or [] adj s) visited' stack, visited', result'), adj, s # stack, visited, result)
    \<in> measures [\<lambda>(adj, stack, visited, result). card (targets adj \<union> set stack - fset visited),
    \<lambda>(adj, stack, visited, result). if stack \<noteq> [] \<and> hd stack |\<notin>| visited then 0 else 1,
    \<lambda>(adj, stack, visited, result). length stack]"
    using less le top by (cases "new = []") (auto simp: st simp flip: stack'_def)
qed simp

definition DFS :: "('v \<Rightarrow> 'v Set \<Rightarrow> 'v list) \<Rightarrow> 'v \<Rightarrow> 'v Graph \<Rightarrow> 'v list" where
  "DFS ord v g = dfs_loop (ordered ord (gfrom g)) [v] NewSet []"

section \<open>They find exactly the reachable vertices\<close>

text \<open>What a traversal must return, given the vertices \<open>R\<close> it may visit and those it has to.\<close>

definition explores :: "'v adjacency \<Rightarrow> 'v set \<Rightarrow> 'v set \<Rightarrow> 'v list \<Rightarrow> bool" where
  "explores adj R from vs \<longleftrightarrow>
     distinct vs \<and> set vs \<subseteq> R \<and> from \<subseteq> set vs \<and> (\<forall>u \<in> set vs. set (get_or [] adj u) \<subseteq> set vs)"

lemma explores_reachable:
  assumes "explores adj ((arcs adj)\<^sup>* `` {v}) {v} vs"
  shows "distinct vs \<and> set vs = (arcs adj)\<^sup>* `` {v}"
proof -
  have "w \<in> set vs" if "(v, w) \<in> (arcs adj)\<^sup>*" for w
    using that assms by (induction rule: rtrancl_induct) (auto simp: explores_def arcs_def)
  with assms show ?thesis by (auto simp: explores_def)
qed

lemma bfs_loop_explores:
  assumes "fset visited = set result \<union> set queue" "distinct (result @ queue)"
    "set (result @ queue) \<subseteq> R" "\<And>u. u \<in> R \<Longrightarrow> set (get_or [] adj u) \<subseteq> R"
    "\<And>u. u \<in> set result \<Longrightarrow> set (get_or [] adj u) \<subseteq> fset visited"
  shows "explores adj R (set result \<union> set queue) (bfs_loop adj queue visited result)"
  using assms
proof (induction adj queue visited result rule: bfs_loop.induct)
  case (1 adj visited result)
  then show ?case by (simp add: explores_def)
next
  case (2 adj s queue visited result)
  define x where "x = push_unvisited (get_or [] adj s) visited queue"
  obtain visited' queue' where x: "x = (visited', queue')" by fastforce
  then obtain new where new: "queue' = queue @ new" "fset visited' = fset visited \<union> set new"
    "distinct new" "set new = set (get_or [] adj s) - fset visited"
    using push_unvisited_result [of "get_or [] adj s" visited queue visited' queue'] by (auto simp: x_def)
  have s: "s \<in> R" using 2(4) by simp
  have "explores adj R (set (result @ [s]) \<union> set queue') (bfs_loop adj queue' visited' (result @ [s]))"
  proof (rule 2(1) [OF x_def x [symmetric]])
    show "fset visited' = set (result @ [s]) \<union> set queue'" using new 2(2) by auto
    show "distinct ((result @ [s]) @ queue')" using new 2(2,3) by auto
    show "set ((result @ [s]) @ queue') \<subseteq> R" using new 2(4) 2(5) [OF s] by auto
    show "set (get_or [] adj u) \<subseteq> R" if "u \<in> R" for u using that by (rule 2(5))
    show "set (get_or [] adj u) \<subseteq> fset visited'" if "u \<in> set (result @ [s])" for u
      using that 2(6) [of u] new by auto
  qed
  then show ?case using x new(1) by (auto simp: explores_def x_def)
qed

lemma dfs_loop_explores:
  assumes "fset visited = set result" "distinct result" "set result \<union> set stack \<subseteq> R"
    "\<And>u. u \<in> R \<Longrightarrow> set (get_or [] adj u) \<subseteq> R"
    "\<And>u. u \<in> set result \<Longrightarrow> set (get_or [] adj u) \<subseteq> set result \<union> set stack"
  shows "explores adj R (set result \<union> set stack) (dfs_loop adj stack visited result)"
  using assms
proof (induction adj stack visited result rule: dfs_loop.induct)
  case (1 adj visited result)
  then show ?case by (simp add: explores_def)
next
  case (2 adj s stack visited result)
  define x where "x = (if \<not> Set_Has visited s then (Set_Add s visited, result @ [s]) else (visited, result))"
  obtain visited' result' where x: "x = (visited', result')" by fastforce
  have r: "set result' = insert s (set result)" "distinct result'" "fset visited' = set result'"
    using x 2(2,3) unfolding x_def Set_Has_def Set_Add_def
    by (cases "s |\<in>| visited"; fastforce)+
  define stack' where "stack' = push_all (get_or [] adj s) visited' stack"
  have st: "set stack' = set stack \<union> (set (get_or [] adj s) - set result')"
    by (simp only: stack'_def set_push_all r(3))
  have s: "s \<in> R" using 2(4) by simp
  have st_R: "set result' \<union> set stack' \<subseteq> R" using 2(4) 2(5) [OF s] unfolding st r(1) by auto
  have closed: "set (get_or [] adj u) \<subseteq> set result' \<union> set stack'" if "u \<in> set result'" for u
    using that 2(6) [of u] unfolding st r(1) by auto
  have "explores adj R (set result' \<union> set stack') (dfs_loop adj stack' visited' result')"
    unfolding stack'_def
    by (rule 2(1) [OF x_def x [symmetric]])
      (use r 2(5) st_R closed in \<open>simp_all only: stack'_def\<close>)
  moreover have "dfs_loop adj (s # stack) visited result = dfs_loop adj stack' visited' result'"
    using x by (simp add: x_def stack'_def split: if_splits)
  ultimately show ?case using r st by (auto simp: explores_def)
qed

lemma arcs_closed: "u \<in> (arcs adj)\<^sup>* `` {v} \<Longrightarrow> set (get_or [] adj u) \<subseteq> (arcs adj)\<^sup>* `` {v}"
  by (auto simp: arcs_def intro: rtrancl_into_rtrancl)

lemma bfs_reach: "explores adj ((arcs adj)\<^sup>* `` {v}) {v} (bfs_loop adj [v] {|v|} [])"
proof -
  have "explores adj ((arcs adj)\<^sup>* `` {v}) (set [] \<union> set [v]) (bfs_loop adj [v] {|v|} [])"
    by (rule bfs_loop_explores) (use arcs_closed in \<open>simp_all del: Image_singleton_iff\<close>, simp)
  then show ?thesis by simp
qed

lemma dfs_reach: "explores adj ((arcs adj)\<^sup>* `` {v}) {v} (dfs_loop adj [v] NewSet [])"
proof -
  have "explores adj ((arcs adj)\<^sup>* `` {v}) (set [] \<union> set [v]) (dfs_loop adj [v] NewSet [])"
    by (rule dfs_loop_explores)
      (use arcs_closed in \<open>simp_all add: NewSet_def del: Image_singleton_iff\<close>, simp)
  then show ?thesis by simp
qed

lemma arcs_ordered:
  assumes "iterates ord"
  shows "arcs (ordered ord m) = {(u, v). v |\<in>| get_or {||} m u}"
proof -
  have "set (get_or [] (ordered ord m) u) = fset (get_or {||} m u)" for u
    using assms by (cases "fmlookup m u") (simp_all add: ordered_def get_or_def iterates_def)
  then show ?thesis by (simp add: arcs_def)
qed

lemma arcs_from: "iterates ord \<Longrightarrow> arcs (ordered ord (gfrom g)) = edges g"
  by (simp add: arcs_ordered edges_def From_def)

lemma arcs_to: "iterates ord \<Longrightarrow> graph_ok g \<Longrightarrow> arcs (ordered ord (gto g)) = (edges g)\<inverse>"
  using graph_okD(3) [of g] by (auto simp: arcs_ordered edges_def To_def)

text \<open>
  All three traversals return and list each vertex once: \<open>BFS\<close> and \<open>DFS\<close> those reachable from
  the source, the reverse search those that reach it; it is the search of the transposed graph.
\<close>

theorem traversals_exact:
  assumes "iterates ord" and "graph_ok g"
    and "set us = fset (vertices g)" and "set vs = fset (vertices g)"
  shows "distinct (BFS ord v g) \<and> set (BFS ord v g) = (edges g)\<^sup>* `` {v} \<and>
    distinct (DFS ord v g) \<and> set (DFS ord v g) = (edges g)\<^sup>* `` {v} \<and>
    distinct (BFSReverse ord v g) \<and> set (BFSReverse ord v g) = {u. (u, v) \<in> (edges g)\<^sup>*} \<and>
    BFSReverse ord v g = BFS ord v (Transpose ord us vs g)"
proof -
  note bfs = explores_reachable [OF bfs_reach [of "ordered ord (gfrom g)" v]]
    and dfs = explores_reachable [OF dfs_reach [of "ordered ord (gfrom g)" v]]
    and rev = explores_reachable [OF bfs_reach [of "ordered ord (gto g)" v]]
  have "((edges g)\<inverse>)\<^sup>* `` {v} = {u. (u, v) \<in> (edges g)\<^sup>*}"
    by (auto simp: rtrancl_converse)
  moreover have "BFSReverse ord v g = BFS ord v (Transpose ord us vs g)"
    by (simp add: Transpose_correct [OF assms(2,1,3,4)] BFS_def BFSReverse_def)
  ultimately show ?thesis
    using bfs dfs rev arcs_from [OF assms(1)] arcs_to [OF assms(1,2)]
    by (simp add: BFS_def DFS_def BFSReverse_def)
qed

text \<open>The graph with one edge, in an order that lists sets of numbers by size.\<close>

theorem traversals_exact_witness:
  "set (BFS (\<lambda>v. sorted_list_of_fset) 2 \<lparr> vertices = {|1, 2|},
     gfrom = fmupd 1 {||} (fmupd (2::int) {|1|} fmempty),
     gto = fmupd 1 {|2|} (fmupd 2 {||} fmempty) \<rparr>) = {1, 2}"
proof -
  let ?g = "\<lparr> vertices = {|1, 2|}, gfrom = fmupd 1 {||} (fmupd (2::int) {|1|} fmempty),
     gto = fmupd 1 {|2|} (fmupd 2 {||} fmempty) \<rparr>"
  have ord: "iterates (\<lambda>v. sorted_list_of_fset :: int fset \<Rightarrow> int list)"
    by (simp add: iterates_def sorted_list_of_fset.rep_eq)
  have ok: "graph_ok ?g"
    by (rule graph_okI) (auto simp: From_def To_def split: if_splits)
  have E: "edges ?g = {(2, 1)}" by (auto simp: edges_def From_def split: if_splits)
  have "(2, y) \<in> {(2::int, 1)}\<^sup>* \<Longrightarrow> y = 1 \<or> y = 2" for y
    by (induction rule: rtrancl_induct) auto
  then have "{(2::int, 1)}\<^sup>* `` {2} = {1, 2}" by auto
  with E have "(edges ?g)\<^sup>* `` {2} = {1, 2}" by simp
  with traversals_exact [OF ord ok, of "[1, 2]" "[1, 2]" 2] show ?thesis by simp
qed

end
