(* ===== verification/Cycles.thy ===== *)
theory Cycles
  imports Traversals
begin

text \<open>
  Cycle detection of \<open>lib/graph.go\<close>: the recursive \<open>visit\<close> with its colours, \<open>Cyclic\<close> and \<open>Cycle\<close>.
  The recursion carries a fuel and gives \<open>None\<close> when it runs out; one more than the number of
  white vertices is always enough, which is proved. The map of colours is shared by all calls, so it is
  passed along; a vertex without an entry is white, Go's zero value.
\<close>

datatype color = white | gray | black

type_synonym 'v colors = "('v, color) gomap"

definition color_of :: "'v colors \<Rightarrow> 'v \<Rightarrow> color" where
  "color_of cs v = get_or white cs v"

fun visit :: "nat \<Rightarrow> 'v adjacency \<Rightarrow> 'v \<Rightarrow> 'v colors \<Rightarrow> (bool \<times> 'v colors) option"
  and visit_list :: "nat \<Rightarrow> 'v adjacency \<Rightarrow> 'v \<Rightarrow> 'v list \<Rightarrow> 'v colors \<Rightarrow> (bool \<times> 'v colors) option"
where
  "visit 0 adj v cs = None"
| "visit (Suc n) adj v cs = visit_list n adj v (Set_Slice (get_or [] adj v)) (fmupd v gray cs)"
| "visit_list n adj v [] cs = Some (False, fmupd v black cs)"
| "visit_list n adj v (u # us) cs =
     (if color_of cs u = gray then Some (True, cs)
      else if color_of cs u = white
      then (case visit n adj u cs of
              None \<Rightarrow> None
            | Some (found, cs') \<Rightarrow> if found then Some (True, cs') else visit_list n adj v us cs')
      else visit_list n adj v us cs)"

text \<open>The loop of \<open>Cyclic\<close> and \<open>Cycle\<close>: up to the first vertex from which a visit finds a cycle.\<close>

fun color_loop :: "nat \<Rightarrow> 'v adjacency \<Rightarrow> 'v list \<Rightarrow> 'v colors \<Rightarrow> (bool \<times> 'v colors) option" where
  "color_loop n adj [] cs = Some (False, cs)"
| "color_loop n adj (v # vs) cs =
     (if color_of cs v = white
      then (case visit n adj v cs of
              None \<Rightarrow> None
            | Some (found, cs') \<Rightarrow> if found then Some (True, cs') else color_loop n adj vs cs')
      else color_loop n adj vs cs)"

definition all_white :: "'v list \<Rightarrow> 'v colors" where
  "all_white us = fold (\<lambda>v cs. fmupd v white cs) us fmempty"

definition Cyclic ::
    "nat \<Rightarrow> ('v \<Rightarrow> 'v Set \<Rightarrow> 'v list) \<Rightarrow> 'v list \<Rightarrow> 'v list \<Rightarrow> 'v Graph \<Rightarrow> bool option" where
  "Cyclic n ord us vs g = map_option fst (color_loop n (ordered ord (gfrom g)) vs (all_white us))"

text \<open>\<open>cord\<close> is the order in which the last loop of \<open>Cycle\<close> meets the colours; nil is \<open>None\<close>.\<close>

definition Cycle ::
    "nat \<Rightarrow> ('v \<Rightarrow> 'v Set \<Rightarrow> 'v list) \<Rightarrow> 'v list \<Rightarrow> 'v list \<Rightarrow> ('v colors \<Rightarrow> 'v list) \<Rightarrow> 'v Graph \<Rightarrow>
     'v list option option" where
  "Cycle n ord us vs cord g =
     map_option (\<lambda>(found, cs).
         if found
         then Some (fold (\<lambda>v cycle. if color_of cs v = gray then cycle @ [v] else cycle) (cord cs) [])
         else None)
       (color_loop n (ordered ord (gfrom g)) vs (all_white us))"

section \<open>Black vertices lie on no cycle\<close>

definition settled :: "'v adjacency \<Rightarrow> 'v colors \<Rightarrow> bool" where
  "settled adj cs \<longleftrightarrow>
     (\<forall>b. color_of cs b = black \<longrightarrow>
        (\<forall>u. (b, u) \<in> arcs adj \<longrightarrow> color_of cs u = black) \<and> (b, b) \<notin> (arcs adj)\<^sup>+)"

lemma color_of_upd [simp]: "color_of (fmupd v c cs) u = (if u = v then c else color_of cs u)"
  by (simp add: color_of_def)

lemma settled_closed:
  assumes "settled adj cs" "color_of cs b = black" "(b, u) \<in> (arcs adj)\<^sup>*"
  shows "color_of cs u = black"
  using assms(3,1,2) by (induction rule: rtrancl_induct) (auto simp: settled_def)

lemma settled_gray: "settled adj cs \<Longrightarrow> color_of cs v = white \<Longrightarrow> settled adj (fmupd v gray cs)"
  by (auto simp: settled_def)

lemma settled_black:
  assumes cs: "settled adj cs" and v: "color_of cs v = gray"
    and succs: "\<And>u. (v, u) \<in> arcs adj \<Longrightarrow> color_of cs u = black"
  shows "settled adj (fmupd v black cs)"
proof -
  have "(v, v) \<notin> (arcs adj)\<^sup>+"
  proof
    assume "(v, v) \<in> (arcs adj)\<^sup>+"
    then obtain u where "(v, u) \<in> arcs adj" "(u, v) \<in> (arcs adj)\<^sup>*" by (blast dest: tranclD)
    with succs settled_closed [OF cs] have "color_of cs v = black" by blast
    with v show False by simp
  qed
  with assms show ?thesis by (auto simp: settled_def)
qed

text \<open>What a visit of \<open>v\<close> does to the colours when it finds nothing, and what it found otherwise.\<close>

definition blackens :: "'v adjacency \<Rightarrow> 'v \<Rightarrow> 'v colors \<Rightarrow> 'v colors \<Rightarrow> bool" where
  "blackens adj v cs cs' \<longleftrightarrow>
     settled adj cs' \<and> color_of cs' v = black \<and>
     (\<forall>u. u \<noteq> v \<longrightarrow> (color_of cs' u = gray \<longleftrightarrow> color_of cs u = gray)) \<and>
     (\<forall>u. color_of cs u = black \<longrightarrow> color_of cs' u = black)"

definition path_to :: "'v adjacency \<Rightarrow> 'v colors \<Rightarrow> 'v \<Rightarrow> bool" where
  "path_to adj cs v \<longleftrightarrow> (\<forall>g. color_of cs g = gray \<longrightarrow> (g, v) \<in> (arcs adj)\<^sup>*)"

definition has_cycle :: "('v \<times> 'v) set \<Rightarrow> bool" where
  "has_cycle E \<longleftrightarrow> (\<exists>x. (x, x) \<in> E\<^sup>+)"

lemma blackens_gray:
  "blackens adj u cs cs' \<Longrightarrow> color_of cs u \<noteq> gray \<Longrightarrow> color_of cs' w = gray \<longleftrightarrow> color_of cs w = gray"
  by (cases "w = u") (simp_all add: blackens_def)

lemma visit_correct:
  "visit n adj v cs = Some (found, cs') \<Longrightarrow> settled adj cs \<Longrightarrow> color_of cs v = white \<Longrightarrow>
     path_to adj cs v \<Longrightarrow> (if found then has_cycle (arcs adj) else blackens adj v cs cs')"
  "visit_list n adj v us cs = Some (found, cs') \<Longrightarrow> settled adj cs \<Longrightarrow> color_of cs v = gray \<Longrightarrow>
     path_to adj cs v \<Longrightarrow>
     (\<And>u. (v, u) \<in> arcs adj \<Longrightarrow> u \<in> set us \<or> color_of cs u = black) \<Longrightarrow>
     (\<And>u. u \<in> set us \<Longrightarrow> (v, u) \<in> arcs adj) \<Longrightarrow>
     (if found then has_cycle (arcs adj) else blackens adj v cs cs')"
proof (induction n adj v cs and n adj v us cs arbitrary: found cs' and found cs'
    rule: visit_visit_list.induct)
  case (2 n adj v cs)
  have "if found then has_cycle (arcs adj) else blackens adj v (fmupd v gray cs) cs'"
  proof (rule 2(1))
    show "visit_list n adj v (Set_Slice (get_or [] adj v)) (fmupd v gray cs) = Some (found, cs')"
      using 2(2) by simp
    show "settled adj (fmupd v gray cs)" using 2(3,4) by (rule settled_gray)
    show "path_to adj (fmupd v gray cs) v" using 2(5) by (simp add: path_to_def)
  qed (simp_all add: Set_Slice_eq arcs_def)
  then show ?case using 2(4) by (auto simp: blackens_def split: if_splits)
next
  case (3 n adj v cs)
  then have "settled adj (fmupd v black cs)" by (intro settled_black) auto
  with 3 show ?case by (auto simp: blackens_def)
next
  case (4 n adj v u us cs)
  show ?case
  proof (cases "color_of cs u")
    case gray
    then have "(u, v) \<in> (arcs adj)\<^sup>*" "(v, u) \<in> arcs adj" using 4(7,9) by (simp_all add: path_to_def)
    then have "(v, v) \<in> (arcs adj)\<^sup>+" by (rule rtrancl_into_trancl2 [rotated])
    with 4(4) gray show ?thesis by (auto simp: has_cycle_def)
  next
    case black
    show ?thesis by (rule 4(3)) (use black 4(4-9) in auto)
  next
    case white
    with 4(4) obtain found1 cs1 where v1: "visit n adj u cs = Some (found1, cs1)"
      by (auto split: option.splits)
    have "(v, u) \<in> arcs adj" using 4(9) by simp
    then have "path_to adj cs u" using 4(7) by (auto simp: path_to_def intro: rtrancl_into_rtrancl)
    with 4(1) white v1 4(5) have u: "if found1 then has_cycle (arcs adj) else blackens adj u cs cs1" by simp
    show ?thesis
    proof (cases found1)
      case True
      with u v1 white 4(4) show ?thesis by simp
    next
      case False
      then have b: "blackens adj u cs cs1" and rest: "visit_list n adj v us cs1 = Some (found, cs')"
        using u v1 white 4(4) by simp_all
      have "v \<noteq> u" using white 4(6) by auto
      then have "settled adj cs1" "color_of cs1 v = gray"
        using b 4(6) by (auto simp: blackens_def)
      moreover have "path_to adj cs1 v"
        unfolding path_to_def
      proof (intro allI impI)
        fix g assume g: "color_of cs1 g = gray"
        with b have "g \<noteq> u" by (auto simp: blackens_def)
        with g b 4(7) show "(g, v) \<in> (arcs adj)\<^sup>*" by (auto simp: blackens_def path_to_def)
      qed
      ultimately have cs1: "settled adj cs1" "color_of cs1 v = gray" "path_to adj cs1 v" .
      have "if found then has_cycle (arcs adj) else blackens adj v cs1 cs'"
        by (rule 4(2) [OF _ _ v1 refl _ rest cs1])
          (use white False b 4(8,9) in \<open>auto simp: blackens_def\<close>)
      then show ?thesis using b white blackens_gray [OF b] by (auto simp: blackens_def)
    qed
  qed
qed simp

section \<open>Enough fuel\<close>

definition whites :: "'v adjacency \<Rightarrow> 'v set \<Rightarrow> 'v colors \<Rightarrow> 'v set" where
  "whites adj V cs = {u \<in> V \<union> targets adj. color_of cs u = white}"

lemma finite_whites: "finite V \<Longrightarrow> finite (whites adj V cs)"
  by (simp add: whites_def)

lemma whites_paint: "c \<noteq> white \<Longrightarrow> whites adj V (fmupd v c cs) = whites adj V cs - {v}"
  by (auto simp: whites_def)

lemma visit_returns:
  "finite V \<Longrightarrow> v \<in> whites adj V cs \<Longrightarrow> card (whites adj V cs) \<le> n \<Longrightarrow>
     \<exists>r cs'. visit n adj v cs = Some (r, cs') \<and> whites adj V cs' \<subseteq> whites adj V cs"
  "finite V \<Longrightarrow> set us \<subseteq> targets adj \<Longrightarrow> card (whites adj V cs) \<le> n \<Longrightarrow>
     \<exists>r cs'. visit_list n adj v us cs = Some (r, cs') \<and> whites adj V cs' \<subseteq> whites adj V cs"
proof (induction n adj v cs and n adj v us cs rule: visit_visit_list.induct)
  case (1 adj v cs)
  then show ?case using finite_whites [of V adj cs] by auto
next
  case (2 n adj v cs)
  have "card (whites adj V cs) = Suc (card (whites adj V (fmupd v gray cs)))"
    unfolding whites_paint [OF color.distinct(2)]
    using card.remove [OF finite_whites [OF 2(2)] 2(3)] .
  then have "card (whites adj V (fmupd v gray cs)) \<le> n" using 2(4) by simp
  moreover have "set (Set_Slice (get_or [] adj v)) \<subseteq> targets adj"
    by (simp add: Set_Slice_eq arcs_targets)
  ultimately obtain r cs' where "visit_list n adj v (Set_Slice (get_or [] adj v)) (fmupd v gray cs) = Some (r, cs')"
    "whites adj V cs' \<subseteq> whites adj V (fmupd v gray cs)"
    using 2(1) [OF 2(2)] by blast
  then show ?case by (simp add: whites_paint subset_Diff_insert)
next
  case (3 n adj v cs)
  then show ?case by (auto simp: whites_paint)
next
  case (4 n adj v u us cs)
  show ?case
  proof (cases "color_of cs u")
    case white
    then have "u \<in> whites adj V cs" using 4(5) by (simp add: whites_def)
    with 4(1) white 4(4,6) obtain r cs1 where
      v1: "visit n adj u cs = Some (r, cs1)" and sub: "whites adj V cs1 \<subseteq> whites adj V cs"
      by auto
    show ?thesis
    proof (cases r)
      case True
      with v1 white sub show ?thesis by auto
    next
      case False
      have "card (whites adj V cs1) \<le> n"
        using card_mono [OF finite_whites [OF 4(4)] sub] 4(6) by simp
      with 4(2) [OF _ _ v1 refl] white False 4(4,5) obtain r2 cs2 where
        "visit_list n adj v us cs1 = Some (r2, cs2)" "whites adj V cs2 \<subseteq> whites adj V cs1"
        by auto
      with v1 white False sub show ?thesis by auto
    qed
  next
    case gray
    then show ?thesis by auto
  next
    case black
    with 4(3) 4(4-6) show ?thesis by simp
  qed
qed

section \<open>Cyclic\<close>

lemma color_loop_result:
  assumes "finite V" "set vs \<subseteq> V" "card V + card (targets adj) \<le> n"
    "settled adj cs" "\<And>u. color_of cs u \<noteq> gray"
  shows "\<exists>found cs'. color_loop n adj vs cs = Some (found, cs') \<and>
    (if found then has_cycle (arcs adj)
     else settled adj cs' \<and> (\<forall>u. color_of cs' u \<noteq> gray) \<and> (\<forall>u. color_of cs u = black \<longrightarrow> color_of cs' u = black) \<and>
          (\<forall>v \<in> set vs. color_of cs' v = black))"
  using assms
proof (induction vs arbitrary: cs)
  case (Cons v vs)
  show ?case
  proof (cases "color_of cs v = white")
    case True
    have "card (whites adj V cs) \<le> card (V \<union> targets adj)"
      using Cons.prems(1) by (intro card_mono) (auto simp: whites_def)
    then have "card (whites adj V cs) \<le> n"
      using card_Un_le [of V "targets adj"] Cons.prems(3) by simp
    moreover have "v \<in> whites adj V cs" using True Cons.prems(2) by (simp add: whites_def)
    ultimately obtain r cs1 where v1: "visit n adj v cs = Some (r, cs1)"
      using visit_returns(1) [OF Cons.prems(1)] by blast
    have "path_to adj cs v" using Cons.prems(5) by (simp add: path_to_def)
    from visit_correct(1) [OF v1 Cons.prems(4) True this]
    have r: "if r then has_cycle (arcs adj) else blackens adj v cs cs1" .
    show ?thesis
    proof (cases r)
      case True
      with r v1 \<open>color_of cs v = white\<close> show ?thesis
        by (intro exI [of _ True] exI [of _ cs1]) simp
    next
      case False
      with r have b: "blackens adj v cs cs1" by simp
      then have cs1: "settled adj cs1" "color_of cs1 v = black" "\<And>u. color_of cs1 u \<noteq> gray"
        "\<And>u. color_of cs u = black \<Longrightarrow> color_of cs1 u = black"
        using Cons.prems(5) unfolding blackens_def by (metis color.distinct(5))+
      from Cons.IH [OF Cons.prems(1) _ Cons.prems(3) cs1(1,3)] Cons.prems(2)
      show ?thesis using v1 False True cs1(2,4) by (auto split: if_splits)
    qed
  next
    case False
    then have "color_of cs v = black" using Cons.prems(5) [of v] by (cases "color_of cs v") auto
    with Cons.IH [OF Cons.prems(1) _ Cons.prems(3-5)] Cons.prems(2) False show ?thesis
      by (auto split: if_splits)
  qed
qed auto

lemma all_white_color [simp]: "color_of (all_white us) v = white"
proof -
  have "(\<forall>v. color_of cs v = white) \<Longrightarrow> color_of (fold (\<lambda>v cs. fmupd v white cs) us cs) v = white" for cs
    by (induction us arbitrary: cs) auto
  then show ?thesis by (simp add: all_white_def color_of_def)
qed

lemma color_loop_cycle:
  assumes "iterates ord" "graph_ok g" "set vs = fset (vertices g)" "2 * fcard (vertices g) \<le> n"
  shows "\<exists>found cs. color_loop n (ordered ord (gfrom g)) vs (all_white us) = Some (found, cs) \<and>
    (found \<longleftrightarrow> has_cycle (edges g))"
proof -
  let ?adj = "ordered ord (gfrom g)" and ?V = "fset (vertices g)"
  have E: "arcs ?adj = edges g" by (rule arcs_from) (rule assms(1))
  have targets: "targets ?adj \<subseteq> ?V"
  proof
    fix u assume "u \<in> targets ?adj"
    then obtain w where "(w, u) \<in> arcs ?adj" by (auto simp: targets_def arcs_def)
    then show "u \<in> ?V" using graph_okD(5) [OF assms(2)] unfolding E edges_def by blast
  qed
  then have "card ?V + card (targets ?adj) \<le> n"
    using card_mono [OF _ targets] assms(4) by (simp add: fcard.rep_eq)
  from color_loop_result [OF _ _ this, of vs "all_white us"] assms(3)
  obtain found cs where r: "color_loop n ?adj vs (all_white us) = Some (found, cs)"
    "if found then has_cycle (edges g)
     else settled ?adj cs \<and> (\<forall>v \<in> ?V. color_of cs v = black)"
    by (auto simp: settled_def E split: if_splits)
  have "\<not> has_cycle (edges g)" if "\<not> found"
  proof
    assume "has_cycle (edges g)"
    then obtain x where x: "(x, x) \<in> (edges g)\<^sup>+" by (auto simp: has_cycle_def)
    then obtain y where "(x, y) \<in> edges g" by (blast dest: tranclD)
    then have "x \<in> ?V" using graph_okD(4) [OF assms(2)] by (auto simp: edges_def)
    with r(2) that have "(x, x) \<notin> (edges g)\<^sup>+" by (simp add: settled_def E)
    with x show False by simp
  qed
  with r show ?thesis by (intro exI [of _ found] exI [of _ cs]) (auto split: if_splits)
qed

text \<open>
  C27: \<open>Cyclic\<close> always returns, whatever the orders of its loops, and says whether the graph has a
  cycle. \<open>Cycle\<close> returns nil exactly if there is none.
\<close>

theorem Cyclic_exact:
  assumes "iterates ord" and "graph_ok g" and "set vs = fset (vertices g)"
    and "2 * fcard (vertices g) \<le> n"
  shows "Cyclic n ord us vs g = Some (\<exists>x. (x, x) \<in> (edges g)\<^sup>+) \<and>
    (\<exists>res. Cycle n ord us vs cord g = Some res \<and> (res = None \<longleftrightarrow> \<not> (\<exists>x. (x, x) \<in> (edges g)\<^sup>+)))"
proof -
  obtain found cs where "color_loop n (ordered ord (gfrom g)) vs (all_white us) = Some (found, cs)"
    and "found \<longleftrightarrow> has_cycle (edges g)"
    using color_loop_cycle [OF assms, of us] by blast
  then show ?thesis by (cases found) (simp_all add: Cyclic_def Cycle_def has_cycle_def)
qed

text \<open>Two vertices that point at each other, and a third one that points at them.\<close>

theorem Cyclic_exact_witness:
  "Cyclic 6 (\<lambda>v. sorted_list_of_fset) [1, 2, 3] [1, 2, 3] \<lparr> vertices = {|1, 2, 3|},
     gfrom = fmupd 1 {|2|} (fmupd (2::int) {|3|} (fmupd 3 {|2|} fmempty)),
     gto = fmupd 1 {||} (fmupd 2 {|1, 3|} (fmupd 3 {|2|} fmempty)) \<rparr> = Some True"
proof -
  let ?g = "\<lparr> vertices = {|1, 2, 3|},
     gfrom = fmupd 1 {|2|} (fmupd (2::int) {|3|} (fmupd 3 {|2|} fmempty)),
     gto = fmupd 1 {||} (fmupd 2 {|1, 3|} (fmupd 3 {|2|} fmempty)) \<rparr>"
  have ord: "iterates (\<lambda>v. sorted_list_of_fset :: int fset \<Rightarrow> int list)"
    by (simp add: iterates_def sorted_list_of_fset.rep_eq)
  have ok: "graph_ok ?g"
    by (rule graph_okI) (auto simp: From_def To_def split: if_splits)
  have "(2, 3) \<in> edges ?g" "(3, 2) \<in> edges ?g" by (simp_all add: edges_def From_def)
  then have "(2, 2) \<in> (edges ?g)\<^sup>+" by (blast intro: trancl_into_trancl)
  with Cyclic_exact [OF ord ok, of "[1, 2, 3]" 6 "[1, 2, 3]"] show ?thesis
    by (auto simp: fcard.rep_eq)
qed

text \<open>
  \<open>Cycle\<close> does not return a cycle but every vertex that was on the path of the search when it
  closed one: on this graph, in this order, it returns all three vertices, though the first one
  lies on no cycle.
\<close>

theorem Cycle_returns_path:
  "Cycle 6 (\<lambda>v. sorted_list_of_fset) [1, 2, 3] [1, 2, 3] (\<lambda>cs. [1, 2, 3]) \<lparr> vertices = {|1, 2, 3|},
     gfrom = fmupd 1 {|2|} (fmupd (2::int) {|3|} (fmupd 3 {|2|} fmempty)),
     gto = fmupd 1 {||} (fmupd 2 {|1, 3|} (fmupd 3 {|2|} fmempty)) \<rparr> = Some (Some [1, 2, 3])"
  by (simp add: Cycle_def ordered_def all_white_def color_of_def get_or_def Set_Slice_def
      sorted_list_of_fset.rep_eq eval_nat_numeral)

end
