(* ===== verification/Components.thy ===== *)
theory Components
  imports Graphs
begin

text \<open>
  The strongly connected components of \<open>lib/graph_scc.go\<close>. The loop over the successors ranges over
  the values of a set, not its keys: a set is a map from its elements to the empty struct, so each
  iteration gets the empty struct. An \<open>interface{}\<close> holding it is \<open>EmptyStruct\<close>, one holding a
  vertex is \<open>Vertex v\<close>. A pointer to a node is its index in \<open>nodes\<close>; growing the slice may leave old
  pointers to an old copy, but only \<open>lowlink\<close> is used through pointers, and only through them. The
  recursion carries a fuel, \<open>None\<close> meaning that it ran out (or an index out of range).
\<close>

datatype 'v key = Vertex 'v | EmptyStruct

record scc_node =
  lowlink :: nat
  stacked :: bool

record 'v scc_data =
  snodes :: "scc_node list"
  sstack :: "'v key list"
  sindex :: "('v key, nat) gomap"
  soutput :: "'v key list list"

text \<open>What the successor loop sees for a vertex: one empty struct per successor.\<close>

definition range_values :: "('v, 'v Set) gomap \<Rightarrow> 'v key \<Rightarrow> 'v key list" where
  "range_values graph v =
     (case v of
        EmptyStruct \<Rightarrow> []
      | Vertex u \<Rightarrow> replicate (fcard (get_or {||} graph u)) EmptyStruct)"

definition set_lowlink :: "nat \<Rightarrow> nat \<Rightarrow> 'v scc_data \<Rightarrow> 'v scc_data" where
  "set_lowlink i k d = d\<lparr>snodes := (snodes d)[i := (snodes d ! i)\<lparr>lowlink := k\<rparr>]\<rparr>"

text \<open>The loop that takes a component off the stack; \<open>rev_stack\<close> is the stack from its end.\<close>

fun pop_component ::
    "nat \<Rightarrow> 'v key list \<Rightarrow> 'v key list \<Rightarrow> 'v scc_data \<Rightarrow> ('v key list \<times> 'v scc_data) option" where
  "pop_component index [] scc d = None"
| "pop_component index (w # rev_stack) scc d =
     (let i = get_or 0 (sindex d) w;
          d1 = d\<lparr>snodes := (snodes d)[i := (snodes d ! i)\<lparr>stacked := False\<rparr>]\<rparr>;
          scc1 = scc @ [w]
      in if i = index then Some (scc1, d1\<lparr>sstack := rev rev_stack\<rparr>)
         else pop_component index rev_stack scc1 d1)"

fun strongConnect :: "nat \<Rightarrow> ('v, 'v Set) gomap \<Rightarrow> 'v key \<Rightarrow> 'v scc_data \<Rightarrow> (nat \<times> 'v scc_data) option"
  and connect_loop ::
    "nat \<Rightarrow> ('v, 'v Set) gomap \<Rightarrow> nat \<Rightarrow> 'v key list \<Rightarrow> 'v scc_data \<Rightarrow> 'v scc_data option"
where
  "strongConnect 0 graph v d = None"
| "strongConnect (Suc n) graph v d =
     (let index = length (snodes d);
          d1 = d\<lparr>sindex := fmupd v index (sindex d), sstack := sstack d @ [v],
                 snodes := snodes d @ [\<lparr> lowlink = index, stacked = True \<rparr>]\<rparr>
      in case connect_loop n graph index (range_values graph v) d1 of
           None \<Rightarrow> None
         | Some d2 \<Rightarrow>
             if lowlink (snodes d2 ! index) = index
             then (case pop_component index (rev (sstack d2)) [] d2 of
                     None \<Rightarrow> None
                   | Some (scc, d3) \<Rightarrow> Some (index, d3\<lparr>soutput := soutput d3 @ [scc]\<rparr>))
             else Some (index, d2))"
| "connect_loop n graph index [] d = Some d"
| "connect_loop n graph index (w # ws) d =
     (case fmlookup (sindex d) w of
        None \<Rightarrow>
          (case strongConnect n graph w d of
             None \<Rightarrow> None
           | Some (k, d1) \<Rightarrow>
               connect_loop n graph index ws
                 (if lowlink (snodes d1 ! k) < lowlink (snodes d1 ! index)
                  then set_lowlink index (lowlink (snodes d1 ! k)) d1 else d1))
      | Some i \<Rightarrow>
          connect_loop n graph index ws
            (if stacked (snodes d ! i) \<and> i < lowlink (snodes d ! index)
             then set_lowlink index i d else d))"

fun scc_loop :: "nat \<Rightarrow> ('v, 'v Set) gomap \<Rightarrow> 'v list \<Rightarrow> 'v scc_data \<Rightarrow> 'v scc_data option" where
  "scc_loop n graph [] d = Some d"
| "scc_loop n graph (v # vs) d =
     (if fmlookup (sindex d) (Vertex v) = None
      then (case strongConnect n graph (Vertex v) d of
              None \<Rightarrow> None
            | Some (k, d1) \<Rightarrow> scc_loop n graph vs d1)
      else scc_loop n graph vs d)"

text \<open>\<open>vs\<close> is the order in which the loop meets the keys of \<open>from\<close>.\<close>

definition SCC :: "nat \<Rightarrow> 'v list \<Rightarrow> 'v Graph \<Rightarrow> 'v key list list option" where
  "SCC n vs g =
     map_option soutput
       (scc_loop n (gfrom g) vs \<lparr> snodes = [], sstack = [], sindex = fmempty, soutput = [] \<rparr>)"

section \<open>It finds no component with two vertices\<close>

text \<open>Between two calls from the outer loop: nothing is on the stack.\<close>

definition quiet :: "'v scc_data \<Rightarrow> bool" where
  "quiet d \<longleftrightarrow> sstack d = [] \<and>
     (\<forall>i. fmlookup (sindex d) EmptyStruct = Some i \<longrightarrow> i < length (snodes d) \<and> \<not> stacked (snodes d ! i))"

text \<open>The components the code outputs for the vertices \<open>vs\<close>, given whether it has met the empty struct.\<close>

fun singletons :: "('v, 'v Set) gomap \<Rightarrow> bool \<Rightarrow> 'v list \<Rightarrow> 'v key list list" where
  "singletons graph met [] = []"
| "singletons graph met (v # vs) =
     (if get_or {||} graph v \<noteq> {||} \<and> \<not> met
      then [EmptyStruct] # [Vertex v] # singletons graph True vs
      else [Vertex v] # singletons graph met vs)"

lemma connect_empty:
  assumes "fmlookup (sindex d) EmptyStruct = None"
  shows "strongConnect (Suc n) graph EmptyStruct d = Some (length (snodes d),
     d\<lparr>sindex := fmupd EmptyStruct (length (snodes d)) (sindex d),
       snodes := snodes d @ [\<lparr> lowlink = length (snodes d), stacked = False \<rparr>],
       soutput := soutput d @ [[EmptyStruct]]\<rparr>)"
  by (simp add: range_values_def Let_def)

lemma connect_loop_met:
  "fmlookup (sindex d) EmptyStruct = Some i \<Longrightarrow> \<not> stacked (snodes d ! i) \<Longrightarrow>
     connect_loop n graph index (replicate k EmptyStruct) d = Some d"
  by (induction k) simp_all

lemma get_or_Some [simp]: "fmlookup m k = Some v \<Longrightarrow> get_or d m k = v"
  by (simp add: get_or_def)

text \<open>The state in which the successor loop of a vertex starts, and what follows the loop.\<close>

definition entered :: "'v \<Rightarrow> 'v scc_data \<Rightarrow> 'v scc_data" where
  "entered v d = d\<lparr>sindex := fmupd (Vertex v) (length (snodes d)) (sindex d), sstack := [Vertex v],
     snodes := snodes d @ [\<lparr> lowlink = length (snodes d), stacked = True \<rparr>]\<rparr>"

definition left :: "'v \<Rightarrow> nat \<Rightarrow> 'v scc_data \<Rightarrow> 'v scc_data" where
  "left v i d = d\<lparr>snodes := (snodes d)[i := (snodes d ! i)\<lparr>stacked := False\<rparr>], sstack := [],
     soutput := soutput d @ [[Vertex v]]\<rparr>"

lemma connect_vertex:
  assumes "quiet d"
    and loop: "connect_loop n graph (length (snodes d)) (range_values graph (Vertex v)) (entered v d) = Some d2"
    and d2: "lowlink (snodes d2 ! length (snodes d)) = length (snodes d)" "sstack d2 = [Vertex v]"
      "fmlookup (sindex d2) (Vertex v) = Some (length (snodes d))"
  shows "strongConnect (Suc n) graph (Vertex v) d = Some (length (snodes d), left v (length (snodes d)) d2)"
proof -
  have "d\<lparr>sindex := fmupd (Vertex v) (length (snodes d)) (sindex d), sstack := sstack d @ [Vertex v],
      snodes := snodes d @ [\<lparr> lowlink = length (snodes d), stacked = True \<rparr>]\<rparr> = entered v d"
    using assms(1) by (simp add: entered_def quiet_def)
  with loop d2 show ?thesis by (simp add: Let_def left_def)
qed

lemma strongConnect_vertex:
  assumes d: "quiet d" and n: "n = Suc (Suc m)"
  shows "\<exists>k d'. strongConnect n graph (Vertex v) d = Some (k, d') \<and> quiet d' \<and>
    soutput d' = soutput d @ singletons graph (fmlookup (sindex d) EmptyStruct \<noteq> None) [v] \<and>
    (fmlookup (sindex d') EmptyStruct \<noteq> None \<longleftrightarrow>
       fmlookup (sindex d) EmptyStruct \<noteq> None \<or> get_or {||} graph v \<noteq> {||}) \<and>
    (\<forall>u. u \<noteq> v \<longrightarrow> fmlookup (sindex d') (Vertex u) = fmlookup (sindex d) (Vertex u))"
proof -
  let ?i = "length (snodes d)"
  have rv: "range_values graph (Vertex v) = replicate (fcard (get_or {||} graph v)) EmptyStruct"
    by (simp add: range_values_def)
  consider (none) "get_or {||} graph v = {||}" | (met) j where "fmlookup (sindex d) EmptyStruct = Some j"
    | (new) "get_or {||} graph v \<noteq> {||}" "fmlookup (sindex d) EmptyStruct = None"
    by fastforce
  then show ?thesis
  proof cases
    case none
    have "strongConnect n graph (Vertex v) d = Some (?i, left v ?i (entered v d))"
      unfolding n by (rule connect_vertex [OF d]) (simp_all add: rv none entered_def fcard.rep_eq)
    then show ?thesis
      using d none by (auto simp: left_def entered_def quiet_def nth_append)
  next
    case met
    then have j: "j < ?i" "\<not> stacked (snodes d ! j)" using d by (simp_all add: quiet_def)
    have "strongConnect n graph (Vertex v) d = Some (?i, left v ?i (entered v d))"
      unfolding n
    proof (rule connect_vertex [OF d])
      show "connect_loop (Suc m) graph ?i (range_values graph (Vertex v)) (entered v d) = Some (entered v d)"
        unfolding rv by (rule connect_loop_met [of _ j]) (use met j in \<open>simp_all add: entered_def nth_append\<close>)
    qed (simp_all add: entered_def)
    then show ?thesis
      using d met by (auto simp: left_def entered_def quiet_def nth_append)
  next
    case new
    define d2 where "d2 = (entered v d)\<lparr>sindex := fmupd EmptyStruct (Suc ?i) (sindex (entered v d)),
        snodes := snodes (entered v d) @ [\<lparr> lowlink = Suc ?i, stacked = False \<rparr>],
        soutput := soutput d @ [[EmptyStruct]]\<rparr>"
    obtain k where k: "fcard (get_or {||} graph v) = Suc k"
      using new(1) by (cases "fcard (get_or {||} graph v)") (auto simp: fcard_0_eq)
    have first: "strongConnect (Suc m) graph EmptyStruct (entered v d) = Some (Suc ?i, d2)"
      using connect_empty [of "entered v d" m graph] new(2) by (simp add: d2_def entered_def)
    have rest: "connect_loop (Suc m) graph ?i (replicate k EmptyStruct) d2 = Some d2"
      by (rule connect_loop_met [of _ "Suc ?i"]) (simp_all add: d2_def entered_def nth_append)
    have "strongConnect n graph (Vertex v) d = Some (?i, left v ?i d2)"
      unfolding n
    proof (rule connect_vertex [OF d])
      have "\<not> lowlink (snodes d2 ! Suc ?i) < lowlink (snodes d2 ! ?i)"
        by (simp add: d2_def entered_def nth_append)
      then show "connect_loop (Suc m) graph ?i (range_values graph (Vertex v)) (entered v d) = Some d2"
        using new(2) first rest by (simp add: rv k entered_def)
    qed (simp_all add: d2_def entered_def nth_append)
    then show ?thesis
      using new by (auto simp: left_def d2_def entered_def quiet_def nth_append nth_list_update)
  qed
qed

lemma scc_loop_result:
  assumes "quiet d" "n = Suc (Suc m)" "distinct vs"
    "\<And>v. v \<in> set vs \<Longrightarrow> fmlookup (sindex d) (Vertex v) = None"
  shows "\<exists>d'. scc_loop n graph vs d = Some d' \<and>
    soutput d' = soutput d @ singletons graph (fmlookup (sindex d) EmptyStruct \<noteq> None) vs"
  using assms
proof (induction vs arbitrary: d)
  case (Cons v vs)
  obtain k d1 where d1: "strongConnect n graph (Vertex v) d = Some (k, d1)" "quiet d1"
    "soutput d1 = soutput d @ singletons graph (fmlookup (sindex d) EmptyStruct \<noteq> None) [v]"
    "fmlookup (sindex d1) EmptyStruct \<noteq> None \<longleftrightarrow>
       fmlookup (sindex d) EmptyStruct \<noteq> None \<or> get_or {||} graph v \<noteq> {||}"
    "\<And>u. u \<noteq> v \<Longrightarrow> fmlookup (sindex d1) (Vertex u) = fmlookup (sindex d) (Vertex u)"
    using strongConnect_vertex [OF Cons.prems(1,2), of graph v] by blast
  have "fmlookup (sindex d1) (Vertex u) = None" if "u \<in> set vs" for u
    using that Cons.prems(3,4) d1(5) by (metis distinct.simps(2) list.set_intros(2))
  from Cons.IH [OF d1(2) Cons.prems(2) _ this] Cons.prems(3)
  obtain d' where d': "scc_loop n graph vs d1 = Some d'"
    "soutput d' = soutput d1 @ singletons graph (fmlookup (sindex d1) EmptyStruct \<noteq> None) vs"
    by auto
  have "scc_loop n graph (v # vs) d = Some d'" using d1(1) d'(1) Cons.prems(4) by simp
  moreover have "soutput d' = soutput d @ singletons graph (fmlookup (sindex d) EmptyStruct \<noteq> None) (v # vs)"
    using d'(2) d1(3,4) by auto
  ultimately show ?case by blast
qed simp

lemma singletons_facts:
  "scc \<in> set (singletons graph met vs) \<Longrightarrow> length scc = 1"
  "[Vertex v] \<in> set (singletons graph met vs) \<longleftrightarrow> v \<in> set vs"
  "[EmptyStruct] \<in> set (singletons graph met vs) \<longleftrightarrow>
     \<not> met \<and> (\<exists>v \<in> set vs. get_or {||} graph v \<noteq> {||})"
  by (induction graph met vs rule: singletons.induct) (auto split: if_splits)

text \<open>
  Whatever the graph, every component \<open>SCC\<close> returns has a single element, cycles or not, and
  as soon as there is an edge one of them is the empty struct, which is no vertex.
\<close>

theorem SCC_finds_only_singletons:
  assumes "graph_ok g" and "distinct vs" and "set vs = fset (vertices g)" and "n \<ge> 2"
  shows "\<exists>res. SCC n vs g = Some res \<and> (\<forall>scc \<in> set res. length scc = 1) \<and>
    (\<forall>v. [Vertex v] \<in> set res \<longleftrightarrow> v |\<in>| vertices g) \<and> ([EmptyStruct] \<in> set res \<longleftrightarrow> edges g \<noteq> {})"
proof -
  let ?d = "\<lparr> snodes = [], sstack = [], sindex = fmempty, soutput = [] \<rparr>"
  obtain m where n: "n = Suc (Suc m)" using assms(4) by (metis Suc_le_D numeral_2_eq_2 Suc_le_mono)
  have "quiet ?d" by (simp add: quiet_def)
  from scc_loop_result [OF this n assms(2), of "gfrom g"]
  have "SCC n vs g = Some (singletons (gfrom g) False vs)" by (auto simp: SCC_def)
  moreover have "edges g \<noteq> {} \<longleftrightarrow> (\<exists>v \<in> set vs. get_or {||} (gfrom g) v \<noteq> {||})"
  proof
    assume "edges g \<noteq> {}"
    then obtain u w where "w |\<in>| From g u" by (auto simp: edges_def)
    with graph_okD(4) [OF assms(1)] show "\<exists>v \<in> set vs. get_or {||} (gfrom g) v \<noteq> {||}"
      unfolding assms(3) From_def by blast
  next
    assume "\<exists>v \<in> set vs. get_or {||} (gfrom g) v \<noteq> {||}"
    then show "edges g \<noteq> {}" by (auto simp: edges_def From_def)
  qed
  ultimately show ?thesis by (auto simp: singletons_facts assms(3))
qed

theorem SCC_finds_only_singletons_witness:
  "\<exists>res. SCC 2 [1, 2] \<lparr> vertices = {|1, 2|},
     gfrom = fmupd 1 {|2|} (fmupd (2::int) {|1|} fmempty),
     gto = fmupd 1 {|2|} (fmupd 2 {|1|} fmempty) \<rparr> = Some res \<and>
   (\<forall>scc \<in> set res. length scc = 1) \<and> [EmptyStruct] \<in> set res"
proof -
  let ?g = "\<lparr> vertices = {|1, 2|}, gfrom = fmupd 1 {|2|} (fmupd (2::int) {|1|} fmempty),
     gto = fmupd 1 {|2|} (fmupd 2 {|1|} fmempty) \<rparr>"
  have ok: "graph_ok ?g"
    by (rule graph_okI) (auto simp: From_def To_def split: if_splits)
  have "(1, 2) \<in> edges ?g" by (simp add: edges_def From_def)
  with SCC_finds_only_singletons [OF ok, of "[1, 2]" 2] show ?thesis by auto
qed

end
