(* ===== verification/Strconv.thy ===== *)
theory Strconv
  imports Prelude
begin

text \<open>
  What the program uses of Go's \<open>strconv\<close> and \<open>strings\<close> packages: \<open>Itoa\<close>, \<open>ParseUint(s, 10, 64)\<close>,
  \<open>Atoi\<close>, \<open>Contains\<close>, \<open>Split\<close> and \<open>SplitN(s, sep, 2)\<close> with a one-byte separator. A number parser
  returns a value together with an error, as in Go: on an error the value is still defined
  (0 for a syntax error, the nearest bound for a range error) and some callers use it.
  The lemmas show that parsing inverts printing.
\<close>

datatype num_error = ErrSyntax | ErrRange

section \<open>Printing\<close>

definition digit_char :: "nat \<Rightarrow> char" where
  "digit_char d = char_of (48 + d)"

fun digits :: "nat \<Rightarrow> string" where
  "digits n = (if n < 10 then [digit_char n] else digits (n div 10) @ [digit_char (n mod 10)])"

declare digits.simps [simp del]

definition Itoa :: "gint \<Rightarrow> string" where
  "Itoa i = (if sint i < 0 then CHR ''-'' # digits (nat (- sint i)) else digits (nat (sint i)))"

section \<open>Parsing\<close>

text \<open>
  The loop of \<open>ParseUint\<close> for base 10 and 64 bits: a byte that is no digit is a syntax
  error with value 0; a prefix that no longer fits is a range error with the largest value,
  whatever follows.
\<close>

definition is_digit :: "char \<Rightarrow> bool" where
  "is_digit c \<longleftrightarrow> 48 \<le> (of_char c :: nat) \<and> (of_char c :: nat) \<le> 57"

definition digit_val :: "char \<Rightarrow> nat" where
  "digit_val c = of_char c - 48"

fun parse_loop :: "nat \<Rightarrow> string \<Rightarrow> nat \<times> num_error option" where
  "parse_loop n [] = (n, None)"
| "parse_loop n (c # cs) =
     (if \<not> is_digit c then (0, Some ErrSyntax)
      else if 2 ^ 64 \<le> n * 10 + digit_val c then (2 ^ 64 - 1, Some ErrRange)
      else parse_loop (n * 10 + digit_val c) cs)"

definition parse_nat :: "string \<Rightarrow> nat \<times> num_error option" where
  "parse_nat s = (if s = [] then (0, Some ErrSyntax) else parse_loop 0 s)"

definition ParseUint :: "string \<Rightarrow> gint \<times> num_error option" where
  "ParseUint s = (case parse_nat s of (n, e) \<Rightarrow> (of_nat n, e))"

definition Atoi :: "string \<Rightarrow> gint \<times> num_error option" where
  "Atoi s =
     (if s = [] then (0, Some ErrSyntax)
      else let neg = (hd s = CHR ''-'');
               body = (if neg \<or> hd s = CHR ''+'' then tl s else s)
           in case parse_nat body of
                (n, Some ErrSyntax) \<Rightarrow> (0, Some ErrSyntax)
              | (n, _) \<Rightarrow>
                  if \<not> neg \<and> 2 ^ 63 \<le> n then (2 ^ 63 - 1, Some ErrRange)
                  else if neg \<and> 2 ^ 63 < n then (- (2 ^ 63), Some ErrRange)
                  else (if neg then - of_nat n else of_nat n, None))"

section \<open>Splitting\<close>

definition Contains :: "string \<Rightarrow> char \<Rightarrow> bool" where
  "Contains s c \<longleftrightarrow> c \<in> set s"

fun Split :: "char \<Rightarrow> string \<Rightarrow> string list" where
  "Split c [] = [[]]"
| "Split c (x # xs) =
     (if x = c then [] # Split c xs
      else case Split c xs of [] \<Rightarrow> [[x]] | p # ps \<Rightarrow> (x # p) # ps)"

text \<open>\<open>SplitN(s, c, 2)\<close> on a string that contains \<open>c\<close>: what is before and after the first \<open>c\<close>.\<close>

definition Split2 :: "char \<Rightarrow> string \<Rightarrow> string \<times> string" where
  "Split2 c s = (takeWhile (\<lambda>x. x \<noteq> c) s, tl (dropWhile (\<lambda>x. x \<noteq> c) s))"

section \<open>Lemmas\<close>

text \<open>Rules that evaluate a printer or a parser on a literal.\<close>

lemmas print_simps = Itoa_def digits.simps digit_char_def char_of_eq_iff

lemmas parse_simps = ParseUint_def parse_nat_def is_digit_def digit_val_def

lemma Split_not_Nil [simp]: "Split c xs \<noteq> []"
  by (induction xs) (auto split: list.splits)

lemma Split_no_sep: "c \<notin> set xs \<Longrightarrow> Split c xs = [xs]"
  by (induction xs) auto

lemma Split_append: "c \<notin> set xs \<Longrightarrow> Split c (xs @ c # ys) = xs # Split c ys"
  by (induction xs) auto

lemma Split2_append: "c \<notin> set xs \<Longrightarrow> Split2 c (xs @ c # ys) = (xs, ys)"
  by (induction xs) (auto simp: Split2_def)

lemma of_char_digit: "d < 10 \<Longrightarrow> of_char (digit_char d) = 48 + d"
  by (simp add: digit_char_def)

lemma is_digit_digit_char [simp]: "d < 10 \<Longrightarrow> is_digit (digit_char d)"
  by (simp add: is_digit_def of_char_digit)

lemma digit_val_digit_char [simp]: "d < 10 \<Longrightarrow> digit_val (digit_char d) = d"
  by (simp add: digit_val_def of_char_digit)

lemma digits_not_Nil [simp]: "digits n \<noteq> []"
  by (subst digits.simps) simp

lemma digits_are_digits: "c \<in> set (digits n) \<Longrightarrow> is_digit c"
proof (induction n rule: digits.induct)
  case (1 n)
  then show ?case
    by (subst (asm) digits.simps) (auto split: if_splits)
qed

lemma not_is_digit [simp]: "\<not> is_digit CHR ''.''" "\<not> is_digit CHR ''-''" "\<not> is_digit CHR ''+''"
  by (simp_all add: is_digit_def)

lemma dot_notin_digits [simp]: "CHR ''.'' \<notin> set (digits n)"
  using digits_are_digits not_is_digit(1) by blast

lemma hd_digits [simp]: "is_digit (hd (digits n))"
  using digits_are_digits [of "hd (digits n)" n] by simp

lemma parse_loop_append:
  "parse_loop n (xs @ ys) =
     (case parse_loop n xs of (m, None) \<Rightarrow> parse_loop m ys | r \<Rightarrow> r)"
  by (induction xs arbitrary: n) auto

text \<open>Parsing the digits of a number that fits in 64 bits gives it back.\<close>

lemma parse_loop_digits: "n < 2 ^ 64 \<Longrightarrow> parse_loop 0 (digits n) = (n, None)"
proof (induction n rule: digits.induct)
  case (1 n)
  show ?case
  proof (cases "n < 10")
    case True
    then show ?thesis by (subst digits.simps) simp
  next
    case False
    with "1" have "parse_loop 0 (digits (n div 10)) = (n div 10, None)" by simp
    moreover have "n div 10 * 10 + n mod 10 = n" by simp
    ultimately show ?thesis using False "1.prems"
      by (subst digits.simps) (simp add: parse_loop_append)
  qed
qed

lemma parse_nat_digits: "n < 2 ^ 64 \<Longrightarrow> parse_nat (digits n) = (n, None)"
  by (simp add: parse_nat_def parse_loop_digits)

lemma ParseUint_digits: "n < 2 ^ 64 \<Longrightarrow> ParseUint (digits n) = (of_nat n, None)"
  by (simp add: ParseUint_def parse_nat_digits)

lemma ParseUint_Nil [simp]: "ParseUint [] = (0, Some ErrSyntax)"
  by (simp add: ParseUint_def parse_nat_def)

lemma of_nat_nat_sint [simp]: "0 \<le> sint (i :: gint) \<Longrightarrow> of_nat (nat (sint i)) = i"
  by (simp add: of_nat_nat)

lemma nat_sint_bound: "nat (sint (i :: gint)) < 2 ^ 63"
  using sint_lt [of i] by (simp add: nat_less_iff)

lemma ParseUint_Itoa: "0 \<le> sint i \<Longrightarrow> ParseUint (Itoa i) = (i, None)"
  using nat_sint_bound [of i] by (simp add: Itoa_def ParseUint_digits)

lemma ParseUint_Itoa_neg: "sint i < 0 \<Longrightarrow> ParseUint (Itoa i) = (0, Some ErrSyntax)"
  by (simp add: Itoa_def ParseUint_def parse_nat_def)

lemma dot_notin_Itoa [simp]: "CHR ''.'' \<notin> set (Itoa i)"
  by (simp add: Itoa_def)

text \<open>\<open>Atoi\<close> inverts \<open>Itoa\<close> on every 64-bit integer.\<close>

lemma not_sign_hd_digits [simp]: "hd (digits n) \<noteq> CHR ''-''" "hd (digits n) \<noteq> CHR ''+''"
  using hd_digits [of n] not_is_digit by metis+

lemma Atoi_Itoa: "Atoi (Itoa i) = (i, None)"
proof (cases "sint i < 0")
  case True
  have lo: "- (2 ^ 63) \<le> sint i" using sint_ge [of i] by simp
  then have "parse_nat (digits (nat (- sint i))) = (nat (- sint i), None)"
    by (intro parse_nat_digits) (simp add: nat_less_iff)
  moreover have "- of_nat (nat (- sint i)) = i" using True by (simp add: of_nat_nat)
  moreover have "\<not> 2 ^ 63 < nat (- sint i)" using lo by simp
  ultimately show ?thesis using True by (simp add: Atoi_def Itoa_def)
next
  case False
  have "parse_nat (digits (nat (sint i))) = (nat (sint i), None)"
    by (intro parse_nat_digits) (use nat_sint_bound [of i] in simp)
  moreover have "\<not> 2 ^ 63 \<le> nat (sint i)" using nat_sint_bound [of i] by simp
  ultimately show ?thesis using False by (simp add: Atoi_def Itoa_def)
qed

end
