(* ===== verification/Ids.thy ===== *)
theory Ids
  imports Strconv
begin

text \<open>
  Node identifiers (\<open>id.go\<close>): an \<open>ID\<close> is a string \<open>Zone.Node\<close>. \<open>NewID\<close> prints the two numbers,
  \<open>Zone\<close> and \<open>Node\<close> parse them back, and the type \<open>IDs\<close> orders identifiers for sorting. The
  log output of a failed parse is not modelled; the value returned then is.
\<close>

type_synonym gid = string

definition NewID :: "gint \<Rightarrow> gint \<Rightarrow> gid" where
  "NewID zone0 node0 =
     (let zone = (if sint zone0 < 0 then - zone0 else zone0);
          node = (if sint node0 < 0 then - node0 else node0)
      in Itoa zone @ ''.'' @ Itoa node)"

definition NewIDRest :: "gint \<Rightarrow> gint \<Rightarrow> gid" where
  "NewIDRest zone node = Itoa zone @ ''.'' @ Itoa node"

definition Zone :: "gid \<Rightarrow> gint" where
  "Zone i =
     (if \<not> Contains i CHR ''.'' then 0
      else case ParseUint (Split CHR ''.'' i ! 0) of
             (zone, None) \<Rightarrow> zone
           | (_, Some _) \<Rightarrow> 0)"

definition Node :: "gid \<Rightarrow> gint" where
  "Node i =
     (let s = (if \<not> Contains i CHR ''.'' then i else Split CHR ''.'' i ! 1)
      in case ParseUint s of
           (node, None) \<Rightarrow> node
         | (_, Some _) \<Rightarrow> 0)"

text \<open>The \<open>sort.Interface\<close> methods of \<open>IDs\<close>; an index out of range panics.\<close>

definition IDs_Len :: "gid list \<Rightarrow> nat" where
  "IDs_Len a = length a"

definition IDs_Swap :: "gid list \<Rightarrow> nat \<Rightarrow> nat \<Rightarrow> gid list outcome" where
  "IDs_Swap a i j =
     (if i < length a \<and> j < length a then Ret (a[i := a ! j, j := a ! i]) else Panic)"

definition id_less :: "gid \<Rightarrow> gid \<Rightarrow> bool" where
  "id_less x y =
     (if sint (Zone x) < sint (Zone y) then True
      else if sint (Zone x) > sint (Zone y) then False
      else sint (Node x) < sint (Node y))"

definition IDs_Less :: "gid list \<Rightarrow> nat \<Rightarrow> nat \<Rightarrow> bool outcome" where
  "IDs_Less a i j =
     (if i < length a \<and> j < length a then Ret (id_less (a ! i) (a ! j)) else Panic)"

section \<open>Printing and parsing an identifier\<close>

lemma Split_dot_Itoa [simp]:
  "Split CHR ''.'' (Itoa z @ CHR ''.'' # Itoa n) = [Itoa z, Itoa n]"
  by (simp add: Split_append Split_no_sep)

lemma Zone_print: "0 \<le> sint z \<Longrightarrow> Zone (Itoa z @ ''.'' @ Itoa n) = z"
  by (simp add: Zone_def Contains_def ParseUint_Itoa)

lemma Node_print: "0 \<le> sint n \<Longrightarrow> Node (Itoa z @ ''.'' @ Itoa n) = n"
  by (simp add: Node_def Contains_def ParseUint_Itoa)

lemma Zone_print_neg: "sint z < 0 \<Longrightarrow> Zone (Itoa z @ ''.'' @ Itoa n) = 0"
  by (simp add: Zone_def Contains_def ParseUint_Itoa_neg)

text \<open>
  The absolute value \<open>NewID\<close> takes is wrong for one number only, the least 64-bit integer,
  which is its own negation.
\<close>

definition abs_int :: "gint \<Rightarrow> gint" where
  "abs_int x = (if sint x < 0 then - x else x)"

lemma NewID_abs: "NewID z n = Itoa (abs_int z) @ ''.'' @ Itoa (abs_int n)"
  by (simp add: NewID_def abs_int_def Let_def)

lemma abs_int_nonneg: "x \<noteq> - (2 ^ 63) \<Longrightarrow> 0 \<le> sint (abs_int x)"
proof (cases "sint x < 0")
  case True
  assume ne: "x \<noteq> - (2 ^ 63)"
  have "sint x \<noteq> - (2 ^ 63)"
  proof
    assume "sint x = - (2 ^ 63)"
    then have "word_of_int (sint x) = (word_of_int (- (2 ^ 63)) :: gint)" by (rule arg_cong)
    then have "x = - (2 ^ 63)" by simp
    with ne show False ..
  qed
  with sint_ge [of x] have lo: "- (2 ^ 63) < sint x" by simp
  have "sint (- x) = - sint x"
    using True lo sint_lt [of x] by (simp add: sint_word_ariths signed_take_bit_int_eq_self)
  then show ?thesis using True by (simp add: abs_int_def)
qed (simp add: abs_int_def)

lemma abs_int_id: "0 \<le> sint x \<Longrightarrow> abs_int x = x"
  by (simp add: abs_int_def)

lemma NewID_Zone: "z \<noteq> - (2 ^ 63) \<Longrightarrow> Zone (NewID z n) = abs_int z"
  unfolding NewID_abs by (rule Zone_print) (rule abs_int_nonneg)

lemma NewID_Node: "n \<noteq> - (2 ^ 63) \<Longrightarrow> Node (NewID z n) = abs_int n"
  unfolding NewID_abs by (rule Node_print) (rule abs_int_nonneg)

text \<open>An identifier is canonical when it is what \<open>NewID\<close> prints for its own fields.\<close>

definition canonical :: "gid \<Rightarrow> bool" where
  "canonical i \<longleftrightarrow> NewID (Zone i) (Node i) = i"

lemma canonical_NewID: "z \<noteq> - (2 ^ 63) \<Longrightarrow> n \<noteq> - (2 ^ 63) \<Longrightarrow> canonical (NewID z n)"
  by (simp add: canonical_def NewID_Zone NewID_Node)
     (simp add: NewID_abs abs_int_id abs_int_nonneg)

section \<open>The order of identifiers\<close>

lemma id_less_iff:
  "id_less x y \<longleftrightarrow> sint (Zone x) < sint (Zone y) \<or>
     sint (Zone x) = sint (Zone y) \<and> sint (Node x) < sint (Node y)"
  by (auto simp: id_less_def)

lemma id_less_irrefl [simp]: "\<not> id_less x x"
  by (simp add: id_less_iff)

lemma id_less_trans: "id_less x y \<Longrightarrow> id_less y z \<Longrightarrow> id_less x z"
  by (auto simp: id_less_iff)

lemma id_less_total: "\<not> id_less x y \<Longrightarrow> \<not> id_less y x \<Longrightarrow> Zone x = Zone y \<and> Node x = Node y"
  by (auto simp: id_less_iff intro: signed_word_eqI)

text \<open>
  Printing a pair of numbers with \<open>NewID\<close> and reading the parts with \<open>Zone\<close> and \<open>Node\<close>
  gives their absolute values back, for all numbers but the least 64-bit integer.
\<close>

theorem NewID_roundtrip:
  assumes "z \<noteq> - (2 ^ 63)" and "n \<noteq> - (2 ^ 63)"
  shows "Zone (NewID z n) = (if sint z < 0 then - z else z) \<and>
         Node (NewID z n) = (if sint n < 0 then - n else n)"
  using assms by (simp_all add: NewID_Zone NewID_Node abs_int_def)

theorem NewID_roundtrip_witness: "Zone (NewID (- 3) 5) = 3 \<and> Node (NewID (- 3) 5) = 5"
  using NewID_roundtrip [of "- 3" 5] by simp

end
