(* ===== verification/Floats.thy ===== *)
theory Floats
  imports Complex_Main Prelude "HOL-Library.Log_Nat"
begin

text \<open>
  Go's \<open>float64\<close> where the code computes with it. A float is the rational number it stands for, and an
  operation is the exact one rounded to 53 binary digits, to nearest, a tie to the even one
  (\<open>fround\<close>). The exponent is not bounded: the numbers of this program (zones, milliseconds, counts, and
  their averages) are far from overflow and underflow. NaN and the infinities come up in one
  place, the remainder by zero in \<open>view.go\<close>, and are \<open>None\<close> there.
\<close>

type_synonym float64 = rat

text \<open>The binary exponent of a positive rational number.\<close>

definition expo :: "rat \<Rightarrow> int" where
  "expo x =
     (let (a, b) = quotient_of x; k = int (floorlog 2 (nat a)) - int (floorlog 2 (nat b))
      in if 2 powi k \<le> x then k else k - 1)"

text \<open>To the nearest integer, a tie to the even one; and \<open>math.Round\<close>, a tie away from zero.\<close>

definition round_even :: "rat \<Rightarrow> int" where
  "round_even x =
     (let f = \<lfloor>x\<rfloor>; d = x - of_int f
      in if d < 1 / 2 then f else if d > 1 / 2 then f + 1 else if even f then f else f + 1)"

definition math_Round :: "rat \<Rightarrow> int" where
  "math_Round x = (if x < 0 then - \<lfloor>- x + 1 / 2\<rfloor> else \<lfloor>x + 1 / 2\<rfloor>)"

definition fround :: "rat \<Rightarrow> float64" where
  "fround x =
     (if x = 0 then 0
      else let ulp = 2 powi (expo \<bar>x\<bar> - 52) in of_int (round_even (x / ulp)) * ulp)"

definition fadd :: "float64 \<Rightarrow> float64 \<Rightarrow> float64" where "fadd x y = fround (x + y)"

definition fsub :: "float64 \<Rightarrow> float64 \<Rightarrow> float64" where "fsub x y = fround (x - y)"

definition fmul :: "float64 \<Rightarrow> float64 \<Rightarrow> float64" where "fmul x y = fround (x * y)"

definition fdiv :: "float64 \<Rightarrow> float64 \<Rightarrow> float64" where "fdiv x y = fround (x / y)"

text \<open>Conversions from and to \<open>int\<close>; the latter drops the fraction.\<close>

definition float_of_int :: "int \<Rightarrow> float64" where "float_of_int i = fround (of_int i)"

definition int_of_float :: "float64 \<Rightarrow> int" where
  "int_of_float x = (if x < 0 then - \<lfloor>- x\<rfloor> else \<lfloor>x\<rfloor>)"

section \<open>Rounding errors\<close>

lemma round_even_error: "\<bar>of_int (round_even x) - x\<bar> \<le> 1 / 2"
proof -
  have "0 \<le> x - of_int \<lfloor>x\<rfloor>" "x - of_int \<lfloor>x\<rfloor> < 1" by linarith+
  then show ?thesis by (auto simp: round_even_def Let_def abs_le_iff)
qed

lemma round_even_int [simp]: "round_even (of_int i) = i"
  by (simp add: round_even_def)

lemma floorlog_bounds:
  assumes "0 < n"
  shows "2 ^ (floorlog 2 n - 1) \<le> n" "n < 2 ^ floorlog 2 n" "0 < floorlog 2 n"
  using assms floorlog_bounds [of n 2] by (simp_all add: floorlog_def)

lemma expo_bounds:
  assumes "0 < x"
  shows "2 powi (expo x) \<le> x" "x < 2 powi (expo x + 1)"
proof -
  obtain a b where q: "quotient_of x = (a, b)" by fastforce
  have x: "x = of_int a / of_int b" "0 < b" using quotient_of_div [OF q] quotient_of_denom_pos [OF q] by simp_all
  then have a: "0 < a" using assms by (simp add: zero_less_divide_iff)
  let ?m = "floorlog 2 (nat a)" and ?n = "floorlog 2 (nat b)"
  have na: "2 ^ (?m - 1) \<le> nat a" "nat a < 2 ^ ?m" "0 < ?m" using floorlog_bounds [of "nat a"] a by simp_all
  have nb: "2 ^ (?n - 1) \<le> nat b" "nat b < 2 ^ ?n" "0 < ?n" using floorlog_bounds [of "nat b"] x(2) by simp_all
  have "of_nat (nat a) < (of_nat (2 ^ ?m) :: rat)" "of_nat (2 ^ (?m - 1)) \<le> (of_nat (nat a) :: rat)"
    using na by (simp_all only: of_nat_less_iff of_nat_le_iff)
  then have ra: "of_int a < (2 ^ ?m :: rat)" "2 ^ (?m - 1) \<le> (of_int a :: rat)" using a by simp_all
  have "of_nat (nat b) < (of_nat (2 ^ ?n) :: rat)" "of_nat (2 ^ (?n - 1)) \<le> (of_nat (nat b) :: rat)"
    using nb by (simp_all only: of_nat_less_iff of_nat_le_iff)
  then have rb: "of_int b < (2 ^ ?n :: rat)" "2 ^ (?n - 1) \<le> (of_int b :: rat)" using x(2) by simp_all
  define k where "k = int ?m - int ?n"
  have pm: "(2 :: rat) ^ ?m = 2 * 2 ^ (?m - 1)" "(2 :: rat) ^ ?n = 2 * 2 ^ (?n - 1)"
    using na(3) nb(3) by (simp_all flip: power_Suc)
  have pk: "(2 :: rat) powi k = 2 ^ ?m / 2 ^ ?n" by (simp add: k_def power_int_diff)
  have "x < 2 ^ ?m / 2 ^ (?n - 1)"
    unfolding x(1) using ra(1) rb(2) a x(2) by (intro frac_less) simp_all
  also have "\<dots> = 2 powi (k + 1)" by (simp add: power_int_add pk pm(2))
  finally have up: "x < 2 powi (k + 1)" .
  have "2 ^ (?m - 1) / 2 ^ ?n < x"
    unfolding x(1) using ra(2) rb(1) a x(2) by (intro frac_less2) simp_all
  then have low: "2 powi (k - 1) \<le> x" by (simp add: power_int_diff pk pm(1))
  have e: "expo x = (if 2 powi k \<le> x then k else k - 1)" by (simp add: expo_def q k_def)
  show "2 powi (expo x) \<le> x" using low by (simp add: e)
  show "x < 2 powi (expo x + 1)" using up by (simp add: e)
qed

text \<open>The unit in which errors are counted: half a unit in the last of 53 places.\<close>

definition eps :: rat where "eps = 1 / 2 ^ 53"

lemma fround_error: "\<bar>fround x - x\<bar> \<le> \<bar>x\<bar> * eps"
proof (cases "x = 0")
  case False
  define u :: rat where "u = 2 powi (expo \<bar>x\<bar> - 52)"
  have u: "0 < u" by (simp add: u_def)
  have "fround x - x = (of_int (round_even (x / u)) - x / u) * u"
    using False u by (simp add: fround_def Let_def u_def algebra_simps)
  then have "\<bar>fround x - x\<bar> = \<bar>of_int (round_even (x / u)) - x / u\<bar> * u" using u by (simp add: abs_mult)
  also have "\<dots> \<le> 1 / 2 * u" using round_even_error u by (intro mult_right_mono) simp_all
  also have "1 / 2 * u = 2 powi (expo \<bar>x\<bar>) * eps" by (simp add: u_def power_int_diff eps_def)
  also have "\<dots> \<le> \<bar>x\<bar> * eps" using expo_bounds(1) [of "\<bar>x\<bar>"] False by (intro mult_right_mono) (simp_all add: eps_def)
  finally show ?thesis .
qed (simp add: fround_def)

lemma eps_small: "0 < eps" "eps \<le> 1 / 9000000000000000"
  by (simp_all add: eps_def)

lemma fround_near:
  assumes "\<bar>x\<bar> \<le> B"
  shows "\<bar>fround x - x\<bar> \<le> B * eps"
  using fround_error [of x] assms eps_small(1) by (meson mult_right_mono order_less_imp_le order_trans)

lemma fround_int:
  assumes "\<bar>n\<bar> < 2 ^ 53"
  shows "fround (of_int n) = of_int n"
proof (cases "n = 0")
  case False
  let ?x = "rat_of_int n"
  have "2 powi (expo \<bar>?x\<bar>) \<le> \<bar>?x\<bar>" using expo_bounds(1) [of "\<bar>?x\<bar>"] False by simp
  also have "\<dots> < 2 ^ 53" using assms by (metis of_int_abs of_int_less_iff of_int_numeral of_int_power)
  finally have "(2 :: rat) powi (expo \<bar>?x\<bar>) < 2 powi 53" by simp
  then have e: "expo \<bar>?x\<bar> < 53"
    using power_int_increasing [of 53 "expo \<bar>?x\<bar>" "2 :: rat"] by linarith
  define k where "k = nat (52 - expo \<bar>?x\<bar>)"
  have "expo \<bar>?x\<bar> - 52 = - int k" using e by (simp add: k_def)
  then have u: "(2 :: rat) powi (expo \<bar>?x\<bar> - 52) = 1 / 2 ^ k" by (simp add: power_int_minus divide_inverse)
  have "?x / (1 / 2 ^ k) = of_int (n * 2 ^ k)" by simp
  then have "round_even (?x / (1 / 2 ^ k)) = n * 2 ^ k" by (simp only: round_even_int)
  then show ?thesis using False by (simp add: fround_def u Let_def)
qed (simp add: fround_def)

lemma fround_0 [simp]: "fround 0 = 0"
  by (simp add: fround_def)

lemma float_of_int_exact: "\<bar>n\<bar> < 2 ^ 53 \<Longrightarrow> float_of_int n = of_int n"
  by (simp add: float_of_int_def fround_int)

lemma int_of_float_int [simp]: "int_of_float (of_int i) = i"
  by (simp add: int_of_float_def)

lemma math_Round_near: "\<bar>of_int (math_Round x) - x\<bar> \<le> 1 / 2"
proof (cases "x < 0")
  case True
  have "of_int \<lfloor>- x + 1 / 2\<rfloor> \<le> - x + 1 / 2" "- x + 1 / 2 < of_int \<lfloor>- x + 1 / 2\<rfloor> + 1" by linarith+
  with True show ?thesis unfolding math_Round_def abs_le_iff by (simp only: if_True of_int_minus) linarith
next
  case False
  have "of_int \<lfloor>x + 1 / 2\<rfloor> \<le> x + 1 / 2" "x + 1 / 2 < of_int \<lfloor>x + 1 / 2\<rfloor> + 1" by linarith+
  with False show ?thesis unfolding math_Round_def abs_le_iff by (simp only: if_False) linarith
qed

lemma math_Round_unique:
  assumes "\<bar>x - of_int i\<bar> < 1 / 2"
  shows "math_Round x = i"
proof -
  have "\<bar>of_int (math_Round x) - rat_of_int i\<bar> < 1" using math_Round_near [of x] assms by linarith
  then show ?thesis by linarith
qed

end
