(* ===== verification/Policies.thy ===== *)
theory Policies
  imports Ids Floats
begin

text \<open>
  The access policies of \<open>policy.go\<close>. \<open>Hit\<close> returns the identifier to which data should move, or the
  empty one. Time is an argument, in nanoseconds. The moving average of \<open>ema\<close> is computed with the
  floats of \<open>Floats\<close>. Go lets a platform fuse a multiplication and the addition of its result into one operation
  with one rounding; which of the two products is fused, if any, is an argument.
\<close>

section \<open>The consecutive policy\<close>

record consecutive =
  clast :: gid
  chits :: int
  cthreshold :: int

definition consecutive_new :: "int \<Rightarrow> consecutive" where
  "consecutive_new n = \<lparr> clast = [], chits = 0, cthreshold = n \<rparr>"

definition consecutive_Hit :: "gid \<Rightarrow> consecutive \<Rightarrow> consecutive \<times> gid" where
  "consecutive_Hit i c =
     (let c1 = (if i = clast c then c\<lparr>chits := chits c + 1\<rparr> else c\<lparr>clast := i, chits := 1\<rparr>)
      in if chits c1 \<ge> cthreshold c1 then (c1\<lparr>clast := [], chits := 0\<rparr>, clast c1)
         else (c1, []))"

fun consecutive_run :: "gid list \<Rightarrow> consecutive \<Rightarrow> consecutive \<times> gid list" where
  "consecutive_run [] c = (c, [])"
| "consecutive_run (i # is) c =
     (let (c1, r) = consecutive_Hit i c; (c2, rs) = consecutive_run is c1 in (c2, r # rs))"

text \<open>The length of the last run of equal identifiers.\<close>

fun last_run :: "gid list \<Rightarrow> nat" where
  "last_run is = length (takeWhile (\<lambda>i. i = last is) (rev is))"

declare last_run.simps [simp del]

lemma last_run_Nil [simp]: "last_run [] = 0"
  by (simp add: last_run.simps)

lemma last_run_single [simp]: "last_run [i] = 1"
  by (simp add: last_run.simps)

lemma last_run_snoc:
  "last_run (is @ [i, j]) = (if i = j then Suc (last_run (is @ [i])) else 1)"
  by (simp add: last_run.simps)

text \<open>The state after the hits \<open>is\<close> with threshold \<open>n\<close>.\<close>

definition counting :: "int \<Rightarrow> gid list \<Rightarrow> consecutive \<Rightarrow> bool" where
  "counting n is c \<longleftrightarrow> cthreshold c = n \<and> chits c = int (last_run is) mod n \<and>
     clast c = (if int (last_run is) mod n = 0 then [] else last is)"

lemma counting_step:
  assumes c: "counting n is c" and n: "1 \<le> n" and i: "i \<noteq> []"
  shows "counting n (is @ [i]) (fst (consecutive_Hit i c)) \<and>
    snd (consecutive_Hit i c) = (if int (last_run (is @ [i])) mod n = 0 then i else [])"
proof -
  let ?k = "int (last_run is)" and ?k' = "int (last_run (is @ [i]))"
  have m: "0 \<le> ?k mod n" "?k mod n < n" using n by simp_all
  have hit: "consecutive_Hit i c =
      (if ?k mod n \<noteq> 0 \<and> i = last is
       then (if ?k mod n + 1 \<ge> n then (c\<lparr>clast := [], chits := 0\<rparr>, i) else (c\<lparr>chits := ?k mod n + 1\<rparr>, []))
       else (if 1 \<ge> n then (c\<lparr>clast := [], chits := 0\<rparr>, i) else (c\<lparr>clast := i, chits := 1\<rparr>, [])))"
    using c i by (auto simp: consecutive_Hit_def Let_def counting_def)
  have k': "?k' = (if is \<noteq> [] \<and> i = last is then ?k + 1 else 1)"
  proof (cases "is" rule: rev_cases)
    case (snoc js j)
    then show ?thesis by (auto simp: last_run_snoc)
  qed simp
  have "?k' mod n = (if ?k mod n \<noteq> 0 \<and> i = last is
      then (if ?k mod n + 1 \<ge> n then 0 else ?k mod n + 1) else (if 1 \<ge> n then 0 else 1))"
  proof (cases "is \<noteq> [] \<and> i = last is")
    case True
    have "(?k + 1) mod n = (?k mod n + 1) mod n" by (simp add: mod_add_left_eq)
    also have "\<dots> = (if ?k mod n + 1 \<ge> n then 0 else ?k mod n + 1)"
      using m by (auto simp: le_less)
    finally show ?thesis using True k' by auto
  next
    case False
    then have "?k mod n = 0 \<or> i \<noteq> last is" by auto
    with False k' n show ?thesis by auto
  qed
  moreover have "?k mod n + 1 \<noteq> 0" using m(1) by linarith
  ultimately show ?thesis using hit c i by (auto simp: counting_def)
qed

lemma consecutive_run_counting:
  assumes "1 \<le> n" "[] \<notin> set js" "counting n is c"
  shows "counting n (is @ js) (fst (consecutive_run js c)) \<and>
    snd (consecutive_run js c) =
      map (\<lambda>k. if int (last_run (is @ take (Suc k) js)) mod n = 0 then js ! k else []) [0 ..< length js]"
  using assms
proof (induction js arbitrary: "is" c)
  case (Cons j js)
  have step: "counting n (is @ [j]) (fst (consecutive_Hit j c))"
      "snd (consecutive_Hit j c) = (if int (last_run (is @ [j])) mod n = 0 then j else [])"
    using counting_step [OF Cons.prems(3,1), of j] Cons.prems(2) by auto
  have "map (\<lambda>k. if int (last_run (is @ take (Suc k) (j # js))) mod n = 0 then (j # js) ! k else [])
      [0 ..< length (j # js)] =
    (if int (last_run (is @ [j])) mod n = 0 then j else []) #
      map (\<lambda>k. if int (last_run ((is @ [j]) @ take (Suc k) js)) mod n = 0 then js ! k else [])
        [0 ..< length js]"
    by (simp add: upt_conv_Cons map_Suc_upt [symmetric] del: upt_Suc)
  with step Cons.IH [OF Cons.prems(1) _ step(1)] Cons.prems(2) show ?case
    by (simp add: Let_def split_beta)
qed simp

text \<open>
  The consecutive policy answers a hit with its identifier when the run of equal hits that
  ends there has a length divisible by the threshold, and with the empty identifier otherwise.
\<close>

theorem consecutive_policy:
  assumes "1 \<le> n" and "[] \<notin> set is"
  shows "snd (consecutive_run is (consecutive_new n)) =
    map (\<lambda>k. if int (last_run (take (Suc k) is)) mod n = 0 then is ! k else []) [0 ..< length is]"
  using consecutive_run_counting [OF assms, of "[]" "consecutive_new n"]
  by (simp add: counting_def consecutive_new_def)

theorem consecutive_policy_witness:
  "snd (consecutive_run [''1.1'', ''1.2'', ''1.2'', ''1.2'', ''1.2''] (consecutive_new 2)) =
     [[], [], ''1.2'', [], ''1.2'']"
  using consecutive_policy [of 2 "[''1.1'', ''1.2'', ''1.2'', ''1.2'', ''1.2'']"]
  by (simp add: upt_rec last_run.simps)

section \<open>The majority policy\<close>

record majority =
  mhits :: "(gid, int) gomap"
  minterval :: int
  mtime :: int
  msum :: int

definition majority_new :: "int \<Rightarrow> int \<Rightarrow> majority" where
  "majority_new n now = \<lparr> mhits = fmempty, minterval = n, mtime = now, msum = 0 \<rparr>"

text \<open>\<open>reset\<close>: the loop sets every entry to zero and keeps the keys.\<close>

definition majority_reset :: "gid list \<Rightarrow> int \<Rightarrow> majority \<Rightarrow> majority" where
  "majority_reset ord now m =
     (fold (\<lambda>i m. m\<lparr>mhits := fmupd i 0 (mhits m)\<rparr>) ord m)\<lparr>msum := 0, mtime := now\<rparr>"

text \<open>The three clock readings and the orders of the two loops are arguments.\<close>

definition counted :: "gid \<Rightarrow> majority \<Rightarrow> majority" where
  "counted i m = m\<lparr>mhits := fmupd i (get_or 0 (mhits m) i + 1) (mhits m), msum := msum m + 1\<rparr>"

definition majority_Hit :: "int \<Rightarrow> int \<Rightarrow> gid list \<Rightarrow> gid list \<Rightarrow> gid \<Rightarrow> majority \<Rightarrow> majority \<times> gid" where
  "majority_Hit now now' ord ord' i m =
     (let m1 = counted i m
      in if msum m1 > 1 \<and> now - mtime m1 \<ge> second * minterval m1
         then (majority_reset ord' now' m1,
               fold (\<lambda>j res. if get_or 0 (mhits m1) j \<ge> go_div (msum m1) 2 then j else res) ord [])
         else (m1, []))"

definition null_Hit :: "gid \<Rightarrow> gid" where
  "null_Hit i = []"

section \<open>The moving average\<close>

record ema =
  alpha :: float64
  average :: float64
  epsilon :: float64
  ezone :: int

definition ema_new :: "float64 \<Rightarrow> ema" where
  "ema_new a = \<lparr> alpha = a, average = 0, epsilon = fround (1 / 10), ezone = 0 \<rparr>"

datatype fusion = Separate | FuseFirst | FuseSecond

definition weighted :: "fusion \<Rightarrow> float64 \<Rightarrow> float64 \<Rightarrow> float64 \<Rightarrow> float64" where
  "weighted fu a z s =
     (case fu of
        Separate \<Rightarrow> fadd (fmul a z) (fmul (fsub 1 a) s)
      | FuseFirst \<Rightarrow> fround (a * z + fmul (fsub 1 a) s)
      | FuseSecond \<Rightarrow> fround (fmul a z + fsub 1 a * s))"

definition ema_Hit :: "fusion \<Rightarrow> gid \<Rightarrow> ema \<Rightarrow> ema \<times> gid" where
  "ema_Hit fu i e =
     (if average e = 0 then (e\<lparr>average := float_of_int (sint (Zone i))\<rparr>, [])
      else let s = weighted fu (alpha e) (float_of_int (sint (Zone i))) (average e);
               e1 = e\<lparr>average := s\<rparr>
           in if \<bar>fsub s (of_int (math_Round s))\<bar> > epsilon e1 then (e1, [])
              else let z = math_Round s
                   in if z \<noteq> ezone e1 then (e1\<lparr>ezone := z\<rparr>, NewID (word_of_int z) 1) else (e1, []))"

fun ema_run :: "fusion \<Rightarrow> gid list \<Rightarrow> ema \<Rightarrow> ema \<times> gid list" where
  "ema_run fu [] e = (e, [])"
| "ema_run fu (i # is) e = (let (e1, r) = ema_Hit fu i e; (e2, rs) = ema_run fu is e1 in (e2, r # rs))"

text \<open>
  \<open>NewPolicy\<close> by the configured name and threshold; \<open>None\<close> is the fatal error on an unknown name.
\<close>

datatype Policy = NullPolicy | ConsecutivePolicy consecutive | MajorityPolicy majority | EmaPolicy ema

definition NewPolicy :: "string \<Rightarrow> float64 \<Rightarrow> int \<Rightarrow> Policy option" where
  "NewPolicy name threshold now =
     (if name = [] \<or> name = ''null'' then Some NullPolicy
      else if name = ''consecutive'' then Some (ConsecutivePolicy (consecutive_new (int_of_float threshold)))
      else if name = ''majority'' then Some (MajorityPolicy (majority_new (int_of_float threshold) now))
      else if name = ''ema'' then Some (EmaPolicy (ema_new threshold))
      else None)"

lemma fold_last_in:
  "(fold (\<lambda>j res. if P j then j else res) ord r = r \<and> (\<forall>j \<in> set ord. \<not> P j)) \<or>
   (fold (\<lambda>j res. if P j then j else res) ord r \<in> {j \<in> set ord. P j})"
proof (induction ord arbitrary: r)
  case (Cons a ord)
  show ?case using Cons [of "if P a then a else r"] by auto
qed simp

lemma reset_hits:
  "range_order ord (mhits m) \<Longrightarrow> get_or 0 (mhits (majority_reset ord now m)) j = 0"
proof -
  have reset: "mhits (fold (\<lambda>i m. m\<lparr>mhits := fmupd i 0 (mhits m)\<rparr>) js k) =
      fold (\<lambda>i. fmupd i 0) js (mhits k)" for js and k :: majority
    by (induction js arbitrary: k) simp_all
  have zero: "get_or 0 (fold (\<lambda>i. fmupd i 0) js h) j = (if j \<in> set js then 0 else get_or (0 :: int) h j)"
    for js and h :: "(gid, int) gomap"
    by (induction js arbitrary: h) auto
  have missing: "j \<notin> fmdom' (mhits m) \<Longrightarrow> get_or 0 (mhits m) j = 0"
    by (simp add: get_or_def fmdom'_notD)
  assume "range_order ord (mhits m)"
  then show ?thesis
    using missing by (simp add: majority_reset_def reset zero range_order_def)
qed

text \<open>
  When the interval is over, the majority policy returns an identifier with at least half of
  the hits, rounded down, or none if there is no such identifier, and counts afresh. With three
  hits one is enough, so an identifier that is not the majority can win.
\<close>

theorem majority_policy:
  assumes "1 \<le> msum m" and "now - mtime m \<ge> second * minterval m"
    and "range_order ord (mhits (counted i m))" and "range_order ord' (mhits (counted i m))"
  shows "case majority_Hit now now' ord ord' i m of (m', res) \<Rightarrow>
    (if \<exists>j \<in> fmdom' (mhits (counted i m)). get_or 0 (mhits (counted i m)) j \<ge> (msum m + 1) div 2
     then res \<in> fmdom' (mhits (counted i m)) \<and> get_or 0 (mhits (counted i m)) res \<ge> (msum m + 1) div 2
     else res = []) \<and>
    msum m' = 0 \<and> mtime m' = now' \<and> (\<forall>j. get_or 0 (mhits m') j = 0)"
proof -
  define P where "P j \<longleftrightarrow> get_or 0 (mhits (counted i m)) j \<ge> (msum m + 1) div 2" for j
  define res where "res = fold (\<lambda>j res. if P j then j else res) ord []"
  have hit: "majority_Hit now now' ord ord' i m = (majority_reset ord' now' (counted i m), res)"
    using assms(1,2) unfolding majority_Hit_def Let_def P_def res_def by (simp add: counted_def go_div_pos)
  have "if \<exists>j \<in> fmdom' (mhits (counted i m)). P j
     then res \<in> fmdom' (mhits (counted i m)) \<and> P res else res = []"
    using fold_last_in [of P ord "[]", folded res_def] assms(3) unfolding range_order_def by auto
  moreover have "msum (majority_reset ord' now' (counted i m)) = 0"
    "mtime (majority_reset ord' now' (counted i m)) = now'"
    by (simp_all add: majority_reset_def)
  ultimately show ?thesis
    using reset_hits [OF assms(4)] unfolding hit P_def by simp
qed

definition two_hits :: majority where
  "two_hits = \<lparr> mhits = fmupd ''1.1'' 2 fmempty, minterval = 0, mtime = 0, msum = 2 \<rparr>"

theorem majority_policy_witness:
  "snd (majority_Hit 5 5 [''1.1'', ''1.2''] [''1.1'', ''1.2''] ''1.2'' two_hits) = ''1.2'' \<and>
   get_or 0 (mhits (counted ''1.2'' two_hits)) ''1.2'' = 1 \<and>
   msum (fst (majority_Hit 5 5 [''1.1'', ''1.2''] [''1.1'', ''1.2''] ''1.2'' two_hits)) = 0"
proof -
  have h: "mhits (counted ''1.2'' two_hits) = fmupd ''1.2'' 1 (fmupd ''1.1'' 2 fmempty)"
    by (simp add: counted_def two_hits_def)
  then have "range_order [''1.1'', ''1.2''] (mhits (counted ''1.2'' two_hits))"
    by (auto simp: range_order_def)
  with majority_policy [of two_hits 5 "[''1.1'', ''1.2'']" "''1.2''" "[''1.1'', ''1.2'']" 5]
  have "msum (fst (majority_Hit 5 5 [''1.1'', ''1.2''] [''1.1'', ''1.2''] ''1.2'' two_hits)) = 0"
    by (simp add: two_hits_def split_beta)
  then show ?thesis
    by (simp add: majority_Hit_def Let_def h) (simp add: counted_def two_hits_def go_div_pos)
qed

section \<open>The average of hits from one zone\<close>

definition near :: "int \<Rightarrow> ema \<Rightarrow> bool" where
  "near z e \<longleftrightarrow> \<bar>average e - of_int z\<bar> \<le> 1 / 20"

text \<open>Four roundings of numbers below some thousands do not add up to what one step takes off.\<close>

lemma average_step:
  assumes a: "1 / 1000 \<le> a" "a \<le> 1" and z: "1 \<le> z" "z \<le> (1000 :: rat)" and s: "\<bar>s - z\<bar> \<le> 1 / 20"
  shows "\<bar>weighted fu a z s - z\<bar> \<le> 1 / 20"
proof -
  define b p q where "b = fsub 1 a" and "p = (if fu = FuseFirst then a * z else fmul a z)"
    and "q = (if fu = FuseSecond then b * s else fmul b s)"
  have s': "0 \<le> s" "s \<le> 1001" using s z unfolding abs_le_iff by linarith+
  have b: "\<bar>b - (1 - a)\<bar> \<le> eps" using fround_near [of "1 - a" 1] a by (simp add: b_def fsub_def)
  then have b2: "0 \<le> b + eps" "b \<le> 2" using a eps_small by (simp_all add: abs_le_iff)
  have az: "0 \<le> a * z" "a * z \<le> 1000" using a z mult_mono [of a 1 z 1000] by simp_all
  then have p: "\<bar>p - a * z\<bar> \<le> 1000 * eps" using fround_near [of "a * z" 1000] using eps_small by (simp add: p_def fmul_def)
  have "\<bar>b * s\<bar> \<le> 2 * 1001"
    unfolding abs_mult using b2 s' eps_small by (intro mult_mono) (simp_all add: abs_le_iff)
  from fround_near [OF this] have q: "\<bar>q - b * s\<bar> \<le> 2002 * eps" using eps_small by (simp add: q_def fmul_def)
  have bs: "\<bar>b * s - (1 - a) * s\<bar> \<le> 1001 * eps"
  proof -
    have "\<bar>(b - (1 - a)) * s\<bar> \<le> eps * 1001"
      unfolding abs_mult using b s' eps_small by (intro mult_mono) simp_all
    then show ?thesis by (simp add: algebra_simps)
  qed
  have as: "0 \<le> (1 - a) * s" "(1 - a) * s \<le> 1001" using a s' mult_mono [of "1 - a" 1 s 1001] by simp_all
  have sum: "\<bar>p + q - (a * z + (1 - a) * s)\<bar> \<le> 4003 * eps" using p q bs by (simp add: abs_le_iff)
  then have "\<bar>p + q\<bar> \<le> 3000" using az as eps_small by (simp add: abs_le_iff)
  from fround_near [OF this] have r: "\<bar>fround (p + q) - (p + q)\<bar> \<le> 3000 * eps" .
  have "\<bar>(1 - a) * (s - z)\<bar> \<le> (1 - a) * (1 / 20)"
    unfolding abs_mult using a s by (intro mult_mono) simp_all
  moreover have "(1 - a) * (s - z) = a * z + (1 - a) * s - z" by (simp add: algebra_simps)
  ultimately have "\<bar>a * z + (1 - a) * s - z\<bar> \<le> (1 - a) * (1 / 20)" by (simp only:)
  with r sum have "\<bar>fround (p + q) - z\<bar> \<le> (1 - a) * (1 / 20) + 7003 * eps" unfolding abs_le_iff by linarith
  also have "\<dots> \<le> 1 / 20" using a(1) eps_small(2) by (simp add: diff_divide_distrib)
  finally show ?thesis by (cases fu) (simp_all add: weighted_def p_def q_def b_def fadd_def)
qed

lemma near_hit:
  assumes a: "1 / 1000 \<le> alpha e" "alpha e \<le> 1" "epsilon e = fround (1 / 10)"
    and z: "1 \<le> z" "z \<le> 1000" "sint (Zone i) = z" and n: "near z e"
  shows "near z (fst (ema_Hit fu i e)) \<and> alpha (fst (ema_Hit fu i e)) = alpha e \<and> epsilon (fst (ema_Hit fu i e)) = epsilon e \<and>
    ezone (fst (ema_Hit fu i e)) = z \<and> snd (ema_Hit fu i e) = (if ezone e = z then [] else NewID (word_of_int z) 1)"
proof -
  have zr: "1 \<le> rat_of_int z" "rat_of_int z \<le> 1000" using z(1,2) by simp_all
  have fz: "float_of_int (sint (Zone i)) = of_int z" using z by (simp add: float_of_int_exact)
  define s where "s = weighted fu (alpha e) (of_int z) (average e)"
  have s: "\<bar>s - of_int z\<bar> \<le> 1 / 20"
    unfolding s_def using average_step [OF a(1,2) zr] n by (simp add: near_def)
  then have r: "math_Round s = z" by (intro math_Round_unique) simp
  have "\<bar>fsub s (of_int z) - (s - of_int z)\<bar> \<le> 1 / 20 * eps" using fround_near [OF s] by (simp add: fsub_def)
  then have d: "\<bar>fsub s (of_int z)\<bar> \<le> 1 / 15" using s eps_small unfolding abs_le_iff by linarith
  have "\<bar>fround (1 / 10) - 1 / 10\<bar> \<le> 1 / 10 * eps" by (rule fround_near) simp
  then have "1 / 15 \<le> fround (1 / 10)" using eps_small unfolding abs_le_iff by linarith
  then have "1 / 15 \<le> epsilon e" by (simp only: a(3))
  with d have "\<not> \<bar>fsub s (of_int z)\<bar> > epsilon e" by linarith
  moreover have "average e \<noteq> 0" using n zr by (auto simp: near_def)
  ultimately have hit: "ema_Hit fu i e =
      (if z \<noteq> ezone e then (e\<lparr>average := s, ezone := z\<rparr>, NewID (word_of_int z) 1) else (e\<lparr>average := s\<rparr>, []))"
    by (simp add: ema_Hit_def fz Let_def r flip: s_def)
  show ?thesis using s by (auto simp: hit near_def)
qed

lemma settled_run:
  assumes "1 / 1000 \<le> alpha e" "alpha e \<le> 1" "epsilon e = fround (1 / 10)" "1 \<le> z" "z \<le> 1000"
    and "near z e" "ezone e = z" "\<forall>i \<in> set is. sint (Zone i) = z"
  shows "snd (ema_run fu is e) = replicate (length is) []"
  using assms
proof (induction "is" arbitrary: e)
  case (Cons i "is")
  from Cons.prems(8) have "sint (Zone i) = z" by simp
  note hit = near_hit [OF Cons.prems(1-5) this Cons.prems(6)]
  from hit Cons.prems have "snd (ema_run fu is (fst (ema_Hit fu i e))) = replicate (length is) []"
    by (intro Cons.IH) simp_all
  with hit Cons.prems(7) show ?case by (simp add: Let_def split_beta)
qed simp

lemma ema_policy_pos:
  assumes "1 / 1000 \<le> a" "a \<le> 1" and "1 \<le> z" "z \<le> 1000" and "\<forall>i \<in> set is. sint (Zone i) = z"
  shows "snd (ema_run fu is (ema_new a)) =
    map (\<lambda>k. if k = 1 then NewID (word_of_int z) 1 else []) [0 ..< length is]"
proof (cases "is")
  case (Cons i js)
  define e where "e = (ema_new a)\<lparr>average := of_int z\<rparr>"
  have e: "1 / 1000 \<le> alpha e" "alpha e \<le> 1" "epsilon e = fround (1 / 10)" "near z e" "ezone e = 0"
    using assms(1,2) by (simp_all add: e_def ema_new_def near_def)
  have first: "ema_Hit fu i (ema_new a) = (e, [])"
    using assms(3-5) Cons by (simp add: ema_Hit_def ema_new_def float_of_int_exact e_def)
  show ?thesis
  proof (cases js)
    case Nil
    then show ?thesis using Cons first by simp
  next
    case (Cons j ks)
    have j: "sint (Zone j) = z" "\<forall>i \<in> set ks. sint (Zone i) = z" using assms(5) \<open>is = i # js\<close> Cons by simp_all
    note hit = near_hit [OF e(1-3) assms(3,4) j(1) e(4)]
    have "snd (ema_run fu ks (fst (ema_Hit fu j e))) = replicate (length ks) []"
      using hit e by (intro settled_run [of _ z]) (use assms j in simp_all)
    moreover have "map (\<lambda>k. if k = 1 then NewID (word_of_int z) 1 else []) [0 ..< length is] =
        [] # NewID (word_of_int z) 1 # replicate (length ks) []"
    proof -
      have "map (\<lambda>k. if k = 1 then NewID (word_of_int z) 1 else []) [2 ..< 2 + length ks] = replicate (length ks) []"
        by (rule nth_equalityI) (simp_all del: upt_Suc add_2_eq_Suc)
      moreover have "[0 ..< length is] = 0 # 1 # [2 ..< 2 + length ks]"
        by (simp add: \<open>is = i # js\<close> Cons upt_conv_Cons numeral_2_eq_2 del: upt_Suc)
      ultimately show ?thesis by simp
    qed
    ultimately show ?thesis
      using hit e(5) assms(3) first by (simp add: \<open>is = i # js\<close> Cons Let_def split_beta)
  qed
qed simp

text \<open>In zone 0 the average stays 0, for which \<open>Hit\<close> takes the first access again and again.\<close>

lemma ema_zone_0:
  assumes "\<forall>i \<in> set is. sint (Zone i) = 0" "average e = 0"
  shows "snd (ema_run fu is e) = replicate (length is) []"
  using assms
proof (induction "is" arbitrary: e)
  case (Cons i "is")
  have "ema_Hit fu i e = (e\<lparr>average := 0\<rparr>, [])"
    using Cons.prems by (simp add: ema_Hit_def float_of_int_exact)
  then show ?case using Cons.IH [of "e\<lparr>average := 0\<rparr>"] Cons.prems by (simp add: split_beta Let_def)
qed simp

text \<open>
  C40: While all accesses come from one zone, the moving average policy names node 1 of this zone at the
  second of them, and never again, but if it is zone 0 it never names any: for a weight between a
  thousandth and one and the zones from 0 to 1000, with every operation rounded to a float and
  whichever product is fused with the addition.
\<close>

theorem ema_policy:
  assumes "1 / 1000 \<le> a" "a \<le> 1" and "0 \<le> z" "z \<le> 1000" and "\<forall>i \<in> set is. sint (Zone i) = z"
  shows "snd (ema_run fu is (ema_new a)) =
    map (\<lambda>k. if k = 1 \<and> z \<noteq> 0 then NewID (word_of_int z) 1 else []) [0 ..< length is]"
proof (cases "z = 0")
  case True
  have "replicate (length is) [] = map (\<lambda>k. []) [0 ..< length is]" by (simp add: map_replicate_const)
  with ema_zone_0 [of "is" "ema_new a" fu] assms(5) True show ?thesis by (simp add: ema_new_def)
next
  case False
  with ema_policy_pos [of a z "is" fu] assms show ?thesis by simp
qed

theorem ema_policy_witness:
  "snd (ema_run FuseFirst [NewID 3 1, NewID 3 2, NewID 3 1] (ema_new (1 / 4))) = [[], NewID 3 1, []]"
proof -
  have "sint (Zone (NewID 3 k)) = 3" for k by (simp add: NewID_abs abs_int_id Zone_print del: append.simps)
  then show ?thesis using ema_policy [of "1 / 4" 3 "[NewID 3 1, NewID 3 2, NewID 3 1]"] by (simp add: upt_rec)
qed

end
