(* ===== verification/Limiters.thy ===== *)
theory Limiters
  imports Prelude
begin

text \<open>
  The rate limiter of \<open>rate.go\<close>. Times are nanoseconds; \<open>None\<close> is the zero time of a limiter that
  has not been used. A call is given the clock reading it makes and returns the new state with
  the time at which it returns: at once, or after the sleep. The 64-bit range of durations
  (292 years) is not modelled.
\<close>

record Limiter =
  llast :: "int option"
  lsleep :: int
  interval :: int
  slack :: int

text \<open>Division by a zero rate panics.\<close>

definition NewLimiter :: "int \<Rightarrow> Limiter outcome" where
  "NewLimiter rate =
     (if rate = 0 then Panic
      else Ret \<lparr> llast = None, lsleep = 0, interval = go_div second rate,
                 slack = go_div (- 10 * second) rate \<rparr>)"

definition Wait :: "int \<Rightarrow> Limiter \<Rightarrow> Limiter \<times> int" where
  "Wait now l =
     (case llast l of
        None \<Rightarrow> (l\<lparr>llast := Some now\<rparr>, now)
      | Some t0 \<Rightarrow>
          let s = lsleep l + (interval l - (now - t0));
              s = (if s < slack l then slack l else s)
          in if s > 0 then (l\<lparr>llast := Some (now + s), lsleep := 0\<rparr>, now + s)
             else (l\<lparr>llast := Some now, lsleep := s\<rparr>, now))"

text \<open>Calls one after the other, with their clock readings; the times at which they return.\<close>

fun grants :: "int list \<Rightarrow> Limiter \<Rightarrow> int list" where
  "grants [] l = []"
| "grants (now # nows) l = (let (l', t) = Wait now l in t # grants nows l')"

section \<open>The rate is kept\<close>

text \<open>A limiter in use: the last grant was at \<open>t\<close>, and what it has saved up is within the slack.\<close>

definition in_use :: "int \<Rightarrow> int \<Rightarrow> int \<Rightarrow> Limiter \<Rightarrow> bool" where
  "in_use iv sl t l \<longleftrightarrow>
     interval l = iv \<and> slack l = sl \<and> llast l = Some t \<and> sl \<le> lsleep l \<and> lsleep l \<le> 0"

lemma Wait_in_use:
  assumes "in_use iv sl t l" and "sl \<le> 0"
  shows "in_use iv sl (snd (Wait now l)) (fst (Wait now l)) \<and>
    t + lsleep l + iv \<le> snd (Wait now l) + lsleep (fst (Wait now l))"
  using assms by (simp add: in_use_def Wait_def Let_def)

lemma Wait_first:
  "llast l = None \<Longrightarrow> lsleep l = 0 \<Longrightarrow> slack l \<le> 0 \<Longrightarrow>
     in_use (interval l) (slack l) (snd (Wait now l)) (fst (Wait now l)) \<and> lsleep (fst (Wait now l)) = 0"
  by (simp add: in_use_def Wait_def)

lemma length_grants [simp]: "length (grants nows l) = length nows"
  by (induction nows arbitrary: l) (simp_all add: Let_def split_beta)

text \<open>The time of a grant with the savings at that time grows by an interval with each grant.\<close>

lemma grants_lower:
  assumes "in_use iv sl t l" "sl \<le> 0" "k < length nows"
  shows "t + lsleep l + (int k + 1) * iv \<le> grants nows l ! k"
  using assms(1,3)
proof (induction nows arbitrary: t l k)
  case (Cons now nows)
  let ?l = "fst (Wait now l)" and ?t = "snd (Wait now l)"
  have step: "in_use iv sl ?t ?l" "t + lsleep l + iv \<le> ?t + lsleep ?l"
    using Wait_in_use [OF Cons.prems(1) assms(2), of now] by simp_all
  show ?case
  proof (cases k)
    case 0
    then show ?thesis using step by (simp add: Let_def split_beta in_use_def)
  next
    case (Suc j)
    with Cons.IH [OF step(1), of j] Cons.prems(2) step(2) show ?thesis
      by (simp add: Let_def split_beta algebra_simps)
  qed
qed simp

lemma grants_spacing:
  assumes "in_use iv sl t l" "sl \<le> 0" "j + k < length nows"
  shows "grants nows l ! j + sl + int k * iv \<le> grants nows l ! (j + k)"
  using assms(1,3)
proof (induction nows arbitrary: t l j)
  case (Cons now nows)
  let ?l = "fst (Wait now l)" and ?t = "snd (Wait now l)"
  have step: "in_use iv sl ?t ?l" using Wait_in_use [OF Cons.prems(1) assms(2), of now] by simp
  show ?case
  proof (cases j)
    case 0
    show ?thesis
    proof (cases k)
      case 0
      then show ?thesis using \<open>j = 0\<close> assms(2) by simp
    next
      case (Suc i)
      have "?t + lsleep ?l + (int i + 1) * iv \<le> grants nows ?l ! i"
        using grants_lower [OF step assms(2), of i nows] Cons.prems(2) Suc by simp
      then show ?thesis using \<open>j = 0\<close> Suc step by (simp add: Let_def split_beta in_use_def algebra_simps)
    qed
  next
    case (Suc i)
    with Cons.IH [OF step, of i] Cons.prems(2) show ?thesis by (simp add: Let_def split_beta)
  qed
qed simp

lemma ten_div:
  assumes "0 < (r :: int)"
  shows "10 * s div r \<le> 10 * (s div r + 1)"
proof -
  have "s mod r < r" using assms by simp
  moreover have "s = s div r * r + s mod r" by simp
  ultimately have "s \<le> s div r * r + r" by linarith
  then have "s \<le> (s div r + 1) * r" by (simp only: distrib_right mult_1)
  then have "10 * s \<le> (10 * (s div r + 1)) * r" by (simp add: algebra_simps)
  from zdiv_mono1 [OF this assms] show ?thesis using assms by simp
qed

text \<open>
  Whatever the clock reads, a limiter of a positive rate spaces its grants: the \<open>k\<close>-th one after
  the first comes at least \<open>k\<close> intervals later, and any \<open>k\<close> grants in a row take at least \<open>k\<close>
  intervals less the slack of ten. A rate of zero makes the constructor panic.
\<close>

theorem limiter_keeps_rate:
  assumes "0 < rate" and "i + k < length nows"
  shows "\<exists>l. NewLimiter rate = Ret l \<and> interval l = second div rate \<and>
    grants nows l ! 0 + int (i + k) * interval l \<le> grants nows l ! (i + k) \<and>
    grants nows l ! i + int k * interval l - 10 * (interval l + 1) \<le> grants nows l ! (i + k)"
proof -
  define l where "l = \<lparr> llast = None, lsleep = 0, interval = second div rate,
      slack = - (10 * second div rate) \<rparr>"
  have new: "NewLimiter rate = Ret l"
    using assms(1) by (simp add: NewLimiter_def l_def second_def go_div_def)
  have sl: "slack l \<le> 0" "- 10 * (interval l + 1) \<le> slack l"
  proof -
    have "10 * second div rate \<le> 10 * (second div rate + 1)" by (rule ten_div) (rule assms(1))
    then show "- 10 * (interval l + 1) \<le> slack l" by (simp add: l_def)
    show "slack l \<le> 0" using assms(1) by (simp add: l_def second_def pos_imp_zdiv_nonneg_iff)
  qed
  obtain now rest where nows: "nows = now # rest" using assms(2) by (cases nows) auto
  let ?l = "fst (Wait now l)" and ?t = "snd (Wait now l)"
  have first: "in_use (interval l) (slack l) ?t ?l" "lsleep ?l = 0"
    using Wait_first [of l now] sl(1) by (simp_all add: l_def)
  have lower: "?t + (int j + 1) * interval l \<le> grants rest ?l ! j" if "j < length rest" for j
    using grants_lower [OF first(1) sl(1) that] first(2) by simp
  have iv: "0 \<le> interval l" using assms(1) by (simp add: l_def second_def pos_imp_zdiv_nonneg_iff)
  have "grants nows l ! 0 + int (i + k) * interval l \<le> grants nows l ! (i + k)"
    using lower [of "i + k - 1"] assms(2) nows
    by (cases "i + k") (simp_all add: Let_def split_beta algebra_simps)
  moreover have "grants nows l ! i + int k * interval l + slack l \<le> grants nows l ! (i + k)"
  proof (cases i)
    case 0
    with calculation sl(1) show ?thesis by simp
  next
    case (Suc j)
    with grants_spacing [OF first(1) sl(1), of j k rest] assms(2) nows show ?thesis
      by (simp add: Let_def split_beta algebra_simps)
  qed
  ultimately show ?thesis using new sl(2) by (intro exI [of _ l]) (simp add: l_def)
qed

theorem limiter_keeps_rate_witness:
  "\<exists>l. NewLimiter 1000 = Ret l \<and> interval l = 1000000 \<and>
    grants [5, 6, 7] l ! 0 + 2 * interval l \<le> grants [5, 6, 7] l ! 2"
  using limiter_keeps_rate [of 1000 0 2 "[5, 6, 7]"]
  by (auto simp: second_def numeral_2_eq_2 simp del: grants.simps)

end
