(* ===== verification/Configs.thy ===== *)
theory Configs
  imports Ids Floats
begin

text \<open>
  The configuration (\<open>config.go\<close> and \<open>Bconfig\<close> of \<open>benchmark.go\<close>). \<open>Load\<close> starts from what the JSON
  decoder makes of the defaults and the file, and counts nodes and zones; the order in which it meets
  the addresses, the file and JSON are arguments.
\<close>

record Bconfig =
  bT :: int
  bN :: int
  bK :: int
  bW :: float64
  Throttle :: int
  Concurrency :: int
  Distribution :: string
  LinearizabilityCheck :: bool
  Conflicts :: int
  bMin :: int
  Mu :: float64
  Sigma :: float64
  Move :: bool
  Speed :: int
  ZipfianS :: float64
  ZipfianV :: float64
  Lambda :: float64
  bSize :: int

definition DefaultBConfig :: Bconfig where
  "DefaultBConfig =
     \<lparr> bT = 60, bN = 0, bK = 1000, bW = 1, Throttle = 0, Concurrency = 1, Distribution = ''uniform'',
       LinearizabilityCheck = True, Conflicts = 100, bMin = 0, Mu = 0, Sigma = 60, Move = False, Speed = 500,
       ZipfianS = 2, ZipfianV = 1, Lambda = fround (1 / 100), bSize = 128 \<rparr>"

record Config =
  Addrs :: "(gid, string) gomap"
  HTTPAddrs :: "(gid, string) gomap"
  cPolicy :: string
  cThreshold :: float64
  Thrifty :: bool
  BufferSize :: int
  ChanBufferSize :: int
  MultiVersion :: bool
  cBenchmark :: Bconfig
  cn :: int
  cz :: int
  npz :: "(gint, int) gomap"

definition MakeDefaultConfig :: Config where
  "MakeDefaultConfig =
     \<lparr> Addrs = fmempty, HTTPAddrs = fmempty, cPolicy = ''consecutive'', cThreshold = 3, Thrifty = False,
       BufferSize = 1024, ChanBufferSize = 1024, MultiVersion = False,
       cBenchmark = DefaultBConfig, cn = 0, cz = 0, npz = fmempty \<rparr>"

definition Config_IDs :: "gid list \<Rightarrow> Config \<Rightarrow> gid list" where
  "Config_IDs ord c = fold (\<lambda>i ids. ids @ [i]) ord []"

definition Config_N :: "Config \<Rightarrow> int" where
  "Config_N c = cn c"

definition Config_Z :: "Config \<Rightarrow> int" where
  "Config_Z c = cz c"

definition count_node :: "gid \<Rightarrow> Config \<Rightarrow> Config" where
  "count_node i c =
     c\<lparr>cn := cn c + 1, npz := fmupd (Zone i) (get_or 0 (npz c) (Zone i) + 1) (npz c)\<rparr>"

text \<open>\<open>ord\<close> is the order in which the loop meets the keys of \<open>Addrs\<close>.\<close>

definition Config_Load :: "gid list \<Rightarrow> Config \<Rightarrow> Config" where
  "Config_Load ord c =
     (let c1 = fold count_node ord (c\<lparr>npz := fmempty\<rparr>)
      in c1\<lparr>cz := int (len_map (npz c1))\<rparr>)"

text \<open>The whole of \<open>Load\<close>, \<open>None\<close> being a fatal error: the file is opened and decoded over \<open>c\<close>.\<close>

definition Config_Load_file ::
    "bytes option \<Rightarrow> (bytes \<Rightarrow> Config \<Rightarrow> Config option) \<Rightarrow> (Config \<Rightarrow> gid list) \<Rightarrow> Config \<Rightarrow> Config option" where
  "Config_Load_file file decode ord c =
     (case file of
        None \<Rightarrow> None
      | Some b \<Rightarrow> (case decode b c of None \<Rightarrow> None | Some c1 \<Rightarrow> Some (Config_Load (ord c1) c1)))"

text \<open>\<open>Save\<close>: the error of creating the file or of encoding, with what has been written, if anything.\<close>

definition Config_Save ::
    "string option \<Rightarrow> (Config \<Rightarrow> string + bytes) \<Rightarrow> Config \<Rightarrow> string option \<times> bytes" where
  "Config_Save create encode c =
     (case create of
        Some err \<Rightarrow> (Some err, [])
      | None \<Rightarrow> (case encode c of Inl err \<Rightarrow> (Some err, []) | Inr b \<Rightarrow> (None, b)))"

text \<open>\<open>String\<close>: the JSON, or the empty string after a logged error.\<close>

definition Config_String :: "(Config \<Rightarrow> string + string) \<Rightarrow> Config \<Rightarrow> string" where
  "Config_String marshal c = (case marshal c of Inl err \<Rightarrow> [] | Inr s \<Rightarrow> s)"

text \<open>\<open>Simulation\<close> sets the scheme of all transports made later.\<close>

definition Simulation :: "string \<Rightarrow> string" where
  "Simulation scheme = ''chan''"

text \<open>\<open>GetConfig\<close> copies the global configuration.\<close>

definition GetConfig :: "Config \<Rightarrow> Config" where
  "GetConfig config = config"

section \<open>What Load counts\<close>

lemma fold_count_node_addrs [simp, frame_simps]:
  "Addrs (fold count_node ord c) = Addrs c"
  "HTTPAddrs (fold count_node ord c) = HTTPAddrs c"
  "cBenchmark (fold count_node ord c) = cBenchmark c"
  by (induction ord arbitrary: c) (simp_all add: count_node_def)

lemma fold_count_node_n: "cn (fold count_node ord c) = cn c + int (length ord)"
  by (induction ord arbitrary: c) (simp_all add: count_node_def)

lemma fold_count_node_npz:
  "get_or 0 (npz (fold count_node ord c)) z =
     get_or 0 (npz c) z + int (length (filter (\<lambda>i. Zone i = z) ord))"
  by (induction ord arbitrary: c) (simp_all add: count_node_def)

lemma fold_count_node_dom:
  "fmdom' (npz (fold count_node ord c)) = fmdom' (npz c) \<union> Zone ` set ord"
  by (induction ord arbitrary: c) (auto simp: count_node_def)

lemma Config_IDs_order: "Config_IDs ord c = ord"
proof -
  have "fold (\<lambda>i ids. ids @ [i]) ord acc = acc @ ord" for acc :: "gid list"
    by (induction ord arbitrary: acc) simp_all
  then show ?thesis by (simp add: Config_IDs_def)
qed

lemma distinct_filter_card: "distinct xs \<Longrightarrow> length (filter P xs) = card {x \<in> set xs. P x}"
  by (simp add: distinct_card [symmetric] flip: set_filter)

lemma Config_Load_exact:
  assumes "range_order ord (Addrs c)" and "cn c = 0"
  shows "cn (Config_Load ord c) = int (len_map (Addrs c)) \<and>
         (\<forall>z. get_or 0 (npz (Config_Load ord c)) z = int (card {i \<in> fmdom' (Addrs c). Zone i = z})) \<and>
         cz (Config_Load ord c) = int (card (Zone ` fmdom' (Addrs c)))"
proof -
  have ord: "distinct ord" "set ord = fmdom' (Addrs c)"
    using assms(1) by (simp_all add: range_order_def)
  show ?thesis
    using assms(2) ord
    by (simp add: Config_Load_def Let_def fold_count_node_n fold_count_node_npz
        fold_count_node_dom len_map_def distinct_filter_card distinct_card flip: ord(2))
qed

text \<open>
  \<open>Load\<close> counts, in whatever order it meets the addresses: \<open>n\<close> is the number of
  addresses, \<open>npz[z]\<close> the number of those in zone \<open>z\<close>, and \<open>z\<close> the number of zones that occur.
\<close>

theorem Config_Load_counts:
  assumes "range_order ord (Addrs c)" and "cn c = 0"
  shows "cn (Config_Load ord c) = int (len_map (Addrs c)) \<and>
         (\<forall>z. get_or 0 (npz (Config_Load ord c)) z = int (card {i \<in> fmdom' (Addrs c). Zone i = z})) \<and>
         cz (Config_Load ord c) = int (card (Zone ` fmdom' (Addrs c)))"
  using assms by (rule Config_Load_exact)

theorem Config_Load_counts_witness:
  "cn (Config_Load [NewID 1 1, NewID 1 2, NewID 2 1]
     (MakeDefaultConfig\<lparr>Addrs := fmupd (NewID 1 1) ''a'' (fmupd (NewID 1 2) ''b''
        (fmupd (NewID 2 1) ''c'' fmempty))\<rparr>)) = 3"
proof -
  let ?c = "MakeDefaultConfig\<lparr>Addrs := fmupd (NewID 1 1) ''a'' (fmupd (NewID 1 2) ''b''
        (fmupd (NewID 2 1) ''c'' fmempty))\<rparr>"
  have "Node (NewID 1 1) \<noteq> Node (NewID 1 2)" "Zone (NewID 1 1) \<noteq> Zone (NewID 2 1)"
    "Zone (NewID 1 2) \<noteq> Zone (NewID 2 1)"
    by (simp_all add: NewID_Zone NewID_Node abs_int_def)
  then have d: "NewID 1 1 \<noteq> NewID 1 2" "NewID 1 1 \<noteq> NewID 2 1" "NewID 1 2 \<noteq> NewID 2 1"
    by metis+
  then have "range_order [NewID 1 1, NewID 1 2, NewID 2 1] (Addrs ?c)"
    by (simp add: range_order_def MakeDefaultConfig_def)
  moreover have "cn ?c = 0" by (simp add: MakeDefaultConfig_def)
  ultimately have "cn (Config_Load [NewID 1 1, NewID 1 2, NewID 2 1] ?c) = int (len_map (Addrs ?c))"
    using Config_Load_counts by blast
  then show ?thesis using d by (simp add: len_map_def)
qed

text \<open>A configuration with two nodes in two zones.\<close>

definition two_zones :: Config where
  "two_zones = MakeDefaultConfig\<lparr>Addrs := fmupd ''1.1'' ''a'' (fmupd ''2.1'' ''b'' fmempty)\<rparr>"

end
