(* ===== verification/Databases.thy ===== *)
theory Databases
  imports Configs
begin

text \<open>
  The replicated key-value store (\<open>db.go\<close>). A \<open>Value\<close> is a byte slice that may be nil, so it is
  an option: \<open>None\<close> is nil, and a command with a nil value is a read. The read-write lock is
  not modelled: every operation holds it for its whole body. The locale \<open>commuting_machine\<close> is
  the contract between a deterministic state machine and its conflict relation.
\<close>

section \<open>Commands\<close>

type_synonym Value = "bytes option"

record Command =
  Key :: int
  Value :: Value
  ClientID :: gid
  CommandID :: int
  Counter :: int

definition Command_Empty :: "Command \<Rightarrow> bool" where
  "Command_Empty c \<longleftrightarrow> Key c = 0 \<and> Value c = None \<and> ClientID c = [] \<and> CommandID c = 0"

definition IsRead :: "Command \<Rightarrow> bool" where
  "IsRead c \<longleftrightarrow> Value c = None"

definition IsWrite :: "Command \<Rightarrow> bool" where
  "IsWrite c \<longleftrightarrow> Value c \<noteq> None"

text \<open>\<open>bytes.Equal\<close> does not tell nil from the empty slice.\<close>

fun content :: "Value \<Rightarrow> bytes" where
  "content None = []"
| "content (Some b) = b"

definition Command_Equal :: "Command \<Rightarrow> Command \<Rightarrow> bool" where
  "Command_Equal c a \<longleftrightarrow>
     Key c = Key a \<and> content (Value c) = content (Value a) \<and> ClientID c = ClientID a \<and>
     CommandID c = CommandID a"

definition print_int :: "int \<Rightarrow> string" where
  "print_int i = Itoa (word_of_int i)"

definition hex_digit :: "nat \<Rightarrow> char" where
  "hex_digit d = char_of (if d < 10 then 48 + d else 87 + d)"

fun print_hex :: "bytes \<Rightarrow> string" where
  "print_hex [] = []"
| "print_hex (b # bs) = hex_digit (unat b div 16) # hex_digit (unat b mod 16) # print_hex bs"

definition Command_String :: "Command \<Rightarrow> string" where
  "Command_String c =
     (case Value c of
        None \<Rightarrow> ''Get{key='' @ print_int (Key c) @ '' id='' @ ClientID c @ '' cid='' @
                  print_int (CommandID c) @ ''}''
      | Some v \<Rightarrow> ''Put{key='' @ print_int (Key c) @ '' value='' @ print_hex v @ '' id='' @
                  ClientID c @ '' cid='' @ print_int (CommandID c))"

section \<open>The database\<close>

record database =
  data :: "(int, Value) gomap"
  version :: int
  multiversion :: bool
  history :: "(int, Value list) gomap"

definition NewDatabase :: "Config \<Rightarrow> database" where
  "NewDatabase cfg =
     \<lparr> data = fmempty, version = 0, multiversion = MultiVersion cfg, history = fmempty \<rparr>"

definition put :: "int \<Rightarrow> Value \<Rightarrow> database \<Rightarrow> database" where
  "put k v d =
     (if v \<noteq> None
      then let d1 = d\<lparr>data := fmupd k v (data d), version := version d + 1\<rparr>
           in if multiversion d1
              then d1\<lparr>history := fmupd k (get_or [] (history d1) k @ [v]) (history d1)\<rparr>
              else d1
      else d)"

definition Execute :: "database \<Rightarrow> Command \<Rightarrow> Value \<times> database" where
  "Execute d c =
     (let v = get_or None (data d) (Key c)
      in (v, put (Key c) (Value c) d))"

definition db_Get :: "database \<Rightarrow> int \<Rightarrow> Value" where
  "db_Get d k = get_or None (data d) k"

definition db_Put :: "int \<Rightarrow> Value \<Rightarrow> database \<Rightarrow> database" where
  "db_Put k v d = put k v d"

definition db_Version :: "database \<Rightarrow> int \<Rightarrow> int" where
  "db_Version d k = version d"

definition db_History :: "database \<Rightarrow> int \<Rightarrow> Value list" where
  "db_History d k = get_or [] (history d) k"

text \<open>\<open>String\<close> is the JSON of the data, whatever comes of an error.\<close>

definition db_String :: "((int, Value) gomap \<Rightarrow> bytes) \<Rightarrow> database \<Rightarrow> string" where
  "db_String marshal d = List.map (\<lambda>b. char_of (unat b)) (marshal (data d))"

section \<open>Conflicts\<close>

definition Conflict :: "Command \<Rightarrow> Command \<Rightarrow> bool" where
  "Conflict gamma delta =
     (if Key gamma = Key delta
      then if \<not> IsRead gamma \<or> \<not> IsRead delta then True else False
      else False)"

fun conflict_row :: "Command \<Rightarrow> Command list \<Rightarrow> bool" where
  "conflict_row a [] = False"
| "conflict_row a (b # bs) = (if Conflict a b then True else conflict_row a bs)"

fun ConflictBatch :: "Command list \<Rightarrow> Command list \<Rightarrow> bool" where
  "ConflictBatch [] bs = False"
| "ConflictBatch (a # as) bs = (if conflict_row a bs then True else ConflictBatch as bs)"

section \<open>Running a list of commands\<close>

fun run_all :: "('s \<Rightarrow> 'c \<Rightarrow> 'r \<times> 's) \<Rightarrow> 's \<Rightarrow> 'c list \<Rightarrow> 'r list \<times> 's" where
  "run_all step s [] = ([], s)"
| "run_all step s (c # cs) =
     (let (r, s1) = step s c; (rs, s2) = run_all step s1 cs in (r # rs, s2))"

lemma run_all_append:
  "run_all step s (as @ bs) =
     (let (ra, s1) = run_all step s as; (rb, s2) = run_all step s1 bs in (ra @ rb, s2))"
  by (induction as arbitrary: s) (auto simp: Let_def split: prod.splits)

locale commuting_machine =
  fixes step :: "'s \<Rightarrow> 'c \<Rightarrow> 'r \<times> 's"
    and clash :: "'c \<Rightarrow> 'c \<Rightarrow> bool"
  assumes swap_state: "\<not> clash a b \<Longrightarrow> snd (step (snd (step s a)) b) = snd (step (snd (step s b)) a)"
    and swap_reply: "\<not> clash a b \<Longrightarrow> fst (step (snd (step s b)) a) = fst (step s a)"
    and clash_sym: "clash a b \<Longrightarrow> clash b a"
begin

lemma move_one:
  "(\<forall>b \<in> set bs. \<not> clash a b) \<Longrightarrow>
     snd (step (snd (run_all step s bs)) a) = snd (run_all step (snd (step s a)) bs) \<and>
     fst (step (snd (run_all step s bs)) a) = fst (step s a) \<and>
     fst (run_all step (snd (step s a)) bs) = fst (run_all step s bs)"
proof (induction bs arbitrary: s)
  case Nil
  show ?case by simp
next
  case (Cons b bs)
  have nb: "\<not> clash a b" "\<not> clash b a" using Cons.prems clash_sym by auto
  note IH = Cons.IH [of "snd (step s b)"]
  show ?case
    using IH Cons.prems swap_state [OF nb(1), of s] swap_reply [OF nb(1), of s]
      swap_reply [OF nb(2), of s]
    by (simp add: Let_def split_beta)
qed

lemma move_batch:
  "(\<forall>a \<in> set as. \<forall>b \<in> set bs. \<not> clash a b) \<Longrightarrow>
     snd (run_all step s (as @ bs)) = snd (run_all step s (bs @ as)) \<and>
     fst (run_all step (snd (run_all step s bs)) as) = fst (run_all step s as) \<and>
     fst (run_all step (snd (run_all step s as)) bs) = fst (run_all step s bs)"
proof (induction as arbitrary: s)
  case Nil
  show ?case by simp
next
  case (Cons a as)
  note IH = Cons.IH [of "snd (step s a)"] and one = move_one [of bs a s]
  show ?case
    using IH one Cons.prems by (simp add: Let_def split_beta run_all_append)
qed

end

section \<open>The database is a commuting machine\<close>

lemma put_None [simp]: "put k None d = d"
  by (simp add: put_def)

lemma multiversion_put [simp, frame_simps]: "multiversion (put k v d) = multiversion d"
  by (simp add: put_def Let_def)

lemma data_put: "get_or None (data (put k v d)) k' =
    (if v \<noteq> None \<and> k' = k then v else get_or None (data d) k')"
  by (simp add: put_def Let_def)

lemma version_put: "version (put k v d) = (if v \<noteq> None then version d + 1 else version d)"
  by (simp add: put_def Let_def)

lemma history_put: "get_or [] (history (put k v d)) k' =
    (if v \<noteq> None \<and> multiversion d \<and> k' = k then get_or [] (history d) k' @ [v]
     else get_or [] (history d) k')"
  by (simp add: put_def Let_def)

lemma put_commute: "k \<noteq> k' \<Longrightarrow> put k v (put k' v' d) = put k' v' (put k v d)"
  by (simp add: put_def Let_def fmupd_reorder_neq)

lemma Execute_simps [simp]:
  "fst (Execute d c) = get_or None (data d) (Key c)"
  "snd (Execute d c) = put (Key c) (Value c) d"
  by (simp_all add: Execute_def Let_def)

lemma Conflict_iff: "Conflict a b \<longleftrightarrow> Key a = Key b \<and> (Value a \<noteq> None \<or> Value b \<noteq> None)"
  by (simp add: Conflict_def IsRead_def)

interpretation db: commuting_machine Execute Conflict
proof unfold_locales
  fix a b :: Command and s :: database
  assume ab: "\<not> Conflict a b"
  then show "snd (Execute (snd (Execute s a)) b) = snd (Execute (snd (Execute s b)) a)"
    by (cases "Key a = Key b") (auto simp: Conflict_iff put_commute)
  show "fst (Execute (snd (Execute s b)) a) = fst (Execute s a)"
    using ab by (auto simp: Conflict_iff data_put)
next
  fix a b :: Command
  assume "Conflict a b"
  then show "Conflict b a" by (auto simp: Conflict_iff)
qed

lemma conflict_row_iff: "conflict_row a bs \<longleftrightarrow> (\<exists>b \<in> set bs. Conflict a b)"
  by (induction bs) auto

lemma ConflictBatch_iff: "ConflictBatch as bs \<longleftrightarrow> (\<exists>a \<in> set as. \<exists>b \<in> set bs. Conflict a b)"
  by (induction as) (auto simp: conflict_row_iff)

section \<open>Properties of the database\<close>

text \<open>The values a list of commands writes under one key, in order.\<close>

definition writes_to :: "int \<Rightarrow> Command list \<Rightarrow> Value list" where
  "writes_to k cs = map Value (filter (\<lambda>c. Key c = k \<and> Value c \<noteq> None) cs)"

lemma writes_to_simps [simp]:
  "writes_to k [] = []"
  "writes_to k (c # cs) = (if Key c = k \<and> Value c \<noteq> None then [Value c] else []) @ writes_to k cs"
  by (simp_all add: writes_to_def)

lemma run_Execute_effect:
  "get_or None (data (snd (run_all Execute d cs))) k =
     (if writes_to k cs = [] then get_or None (data d) k else last (writes_to k cs))"
proof (induction cs arbitrary: d)
  case (Cons c cs)
  show ?case
    using Cons.IH [of "snd (Execute d c)"] by (simp add: Let_def split_beta data_put)
qed simp

lemma run_Execute_history:
  "get_or [] (history (snd (run_all Execute d cs))) k =
     get_or [] (history d) k @ (if multiversion d then writes_to k cs else [])"
  by (induction cs arbitrary: d) (auto simp: Let_def split_beta history_put)

lemma run_Execute_version:
  "version (snd (run_all Execute d cs)) =
     version d + int (length (filter (\<lambda>c. Value c \<noteq> None) cs))"
  by (induction cs arbitrary: d) (simp_all add: Let_def split_beta version_put)

text \<open>
  C24: a fresh database that executes any commands holds, for every key, the last value
  written to it; its history (when configured) lists all the values written to the key, in
  order; and the version counts all the writes, to any key.
\<close>

theorem database_replays_writes:
  "db_Get (snd (run_all Execute (NewDatabase cfg) cs)) k =
     (if writes_to k cs = [] then None else last (writes_to k cs)) \<and>
   db_History (snd (run_all Execute (NewDatabase cfg) cs)) k =
     (if MultiVersion cfg then writes_to k cs else []) \<and>
   db_Version (snd (run_all Execute (NewDatabase cfg) cs)) k =
     int (length (filter IsWrite cs))"
proof -
  have w: "IsWrite = (\<lambda>c. Value c \<noteq> None)" by (rule ext) (simp add: IsWrite_def)
  show ?thesis
    using run_Execute_effect [of "NewDatabase cfg" cs k]
      run_Execute_history [of "NewDatabase cfg" cs k] run_Execute_version [of "NewDatabase cfg" cs]
    by (simp add: db_Get_def db_History_def db_Version_def NewDatabase_def w)
qed

text \<open>
  The conflict test is exact. Two commands do not conflict if and only if, on every
  database, either order ends in the same state and gives each of them the same reply.
\<close>

theorem Conflict_exact:
  "(\<not> Conflict a b) =
     (\<forall>d. snd (run_all Execute d [a, b]) = snd (run_all Execute d [b, a]) \<and>
          fst (Execute (snd (Execute d b)) a) = fst (Execute d a) \<and>
          fst (Execute (snd (Execute d a)) b) = fst (Execute d b))"
  (is "_ = (\<forall>d. ?same d)")
proof
  assume "\<not> Conflict a b"
  then show "\<forall>d. ?same d"
    using db.move_batch [of "[a]" "[b]"] by (simp add: Let_def split_beta)
next
  assume all: "\<forall>d. ?same d"
  show "\<not> Conflict a b"
  proof
    assume "Conflict a b"
    then have k: "Key a = Key b" "Value a \<noteq> None \<or> Value b \<noteq> None"
      by (simp_all add: Conflict_iff)
    define d where "d = NewDatabase MakeDefaultConfig"
    have "get_or None (data d) x = None" for x by (simp add: d_def NewDatabase_def)
    moreover have "?same d" using all by blast
    ultimately show False using k by (auto simp: data_put)
  qed
qed

text \<open>
  Two batches that \<open>ConflictBatch\<close> lets pass can be executed in either order: the final
  state is the same and every command gets the same reply.
\<close>

theorem ConflictBatch_reorder:
  assumes "\<not> ConflictBatch as bs"
  shows "snd (run_all Execute d (as @ bs)) = snd (run_all Execute d (bs @ as)) \<and>
         fst (run_all Execute (snd (run_all Execute d bs)) as) = fst (run_all Execute d as) \<and>
         fst (run_all Execute (snd (run_all Execute d as)) bs) = fst (run_all Execute d bs)"
  by (rule db.move_batch) (use assms in \<open>simp add: ConflictBatch_iff\<close>)

definition example_command :: "int \<Rightarrow> Value \<Rightarrow> Command" where
  "example_command k v = \<lparr> Key = k, Value = v, ClientID = ''1.1'', CommandID = 1, Counter = 0 \<rparr>"

theorem ConflictBatch_reorder_witness:
  "snd (run_all Execute (NewDatabase MakeDefaultConfig)
      ([example_command 1 (Some [7]), example_command 2 None] @ [example_command 3 (Some [9])])) =
   snd (run_all Execute (NewDatabase MakeDefaultConfig)
      ([example_command 3 (Some [9])] @ [example_command 1 (Some [7]), example_command 2 None]))"
proof -
  have "\<not> ConflictBatch [example_command 1 (Some [7]), example_command 2 None]
      [example_command 3 (Some [9])]"
    by (simp add: Conflict_def example_command_def)
  then show ?thesis using ConflictBatch_reorder by blast
qed

end
