(* ===== verification/Stats.thy ===== *)
theory Stats
  imports Floats Databases
begin

text \<open>
  The statistics of a benchmark (\<open>stat.go\<close>): the latencies in milliseconds, sorted, with their mean, the
  extremes, the median and three percentiles, and how they are printed. The latencies are given
  in nanoseconds. An index out of range panics. Floating-point numbers are those of \<open>Floats\<close>; the one
  way to print them that \<open>Println\<close> chooses by itself is an argument.
\<close>

section \<open>Definitions\<close>

record Stat =
  sData :: "float64 list"
  sSize :: nat
  sMean :: float64
  sMin :: float64
  sMax :: float64
  sMedian :: float64
  sP95 :: float64
  sP99 :: float64
  sP999 :: float64

definition index_or_panic :: "'a list \<Rightarrow> int \<Rightarrow> 'a outcome" where
  "index_or_panic xs i = (if 0 \<le> i \<and> i < int (length xs) then Ret (xs ! nat i) else Panic)"

fun obind :: "'a outcome \<Rightarrow> ('a \<Rightarrow> 'b outcome) \<Rightarrow> 'b outcome" where
  "obind (Ret x) f = f x"
| "obind Panic f = Panic"

definition to_ms :: "int \<Rightarrow> float64" where
  "to_ms ns = fdiv (float_of_int ns) 1000000"

text \<open>The index of a percentile: the constant, as a float, times the size.\<close>

definition percentile_index :: "rat \<Rightarrow> nat \<Rightarrow> int" where
  "percentile_index p n = int_of_float (fmul (fround p) (float_of_int (int n)))"

text \<open>The fields in the order in which the literal gives them; the mean of no number is NaN, which no one sees.\<close>

definition Statistic :: "int list \<Rightarrow> Stat outcome" where
  "Statistic latency =
     (let ms = sort (map to_ms latency); total = fold (\<lambda>m t. fadd t m) ms 0; n = length ms
      in obind (index_or_panic ms 0) (\<lambda>lo.
         obind (index_or_panic ms (int n - 1)) (\<lambda>hi.
         obind (index_or_panic ms (percentile_index (1 / 2) n)) (\<lambda>mid.
         obind (index_or_panic ms (percentile_index (95 / 100) n)) (\<lambda>p95.
         obind (index_or_panic ms (percentile_index (99 / 100) n)) (\<lambda>p99.
         obind (index_or_panic ms (percentile_index (999 / 1000) n)) (\<lambda>p999.
         Ret \<lparr> sData = ms, sSize = n, sMean = fdiv total (float_of_int (int n)), sMin = lo, sMax = hi,
               sMedian = mid, sP95 = p95, sP99 = p99, sP999 = p999 \<rparr>)))))))"

text \<open>\<open>%f\<close>: six decimals, of the exact value to nearest.\<close>

definition pad_left :: "nat \<Rightarrow> string \<Rightarrow> string" where
  "pad_left n s = replicate (n - length s) CHR ''0'' @ s"

definition format_f :: "float64 \<Rightarrow> string" where
  "format_f x =
     (let k = round_even (\<bar>x\<bar> * 1000000)
      in (if x < 0 then ''-'' else []) @ print_int (k div 1000000) @ ''.'' @
         pad_left 6 (print_int (k mod 1000000)))"

definition newline :: string where
  "newline = [char_of (10 :: nat)]"

definition Stat_String :: "Stat \<Rightarrow> string" where
  "Stat_String s =
     ''size = '' @ print_int (int (sSize s)) @ newline @ ''mean = '' @ format_f (sMean s) @ newline @
     ''min = '' @ format_f (sMin s) @ newline @ ''max = '' @ format_f (sMax s) @ newline @
     ''median = '' @ format_f (sMedian s) @ newline @ ''p95 = '' @ format_f (sP95 s) @ newline @
     ''p99 = '' @ format_f (sP99 s) @ newline @ ''p999 = '' @ format_f (sP999 s) @ newline"

text \<open>
  \<open>WriteFile\<close>: the error of creating the file, or of flushing what was written to it, with the
  file's content.
\<close>

definition Stat_WriteFile ::
    "(string \<Rightarrow> string option) \<Rightarrow> (string \<Rightarrow> string option) \<Rightarrow> (float64 \<Rightarrow> string) \<Rightarrow> string \<Rightarrow> Stat \<Rightarrow>
     string option \<times> string" where
  "Stat_WriteFile create flush print path s =
     (case create path of
        Some err \<Rightarrow> (Some err, [])
      | None \<Rightarrow> let w = concat (map (\<lambda>x. print x @ newline) (sData s)) in (flush w, w))"

section \<open>The indices\<close>

text \<open>The product is off by at most a few units in the last place.\<close>

lemma percentile_product:
  assumes "0 \<le> p" "p \<le> 1" "n < 2 ^ 40"
  shows "\<bar>fmul (fround p) (float_of_int (int n)) - p * of_nat n\<bar> \<le> of_nat n / 1000000000000000"
proof -
  have n: "float_of_int (int n) = of_nat n" using assms(3) by (subst float_of_int_exact) simp_all
  define q where "q = fround p"
  have q: "\<bar>q - p\<bar> \<le> eps" using fround_near [of p 1] assms(1,2) by (simp add: q_def)
  then have "\<bar>q\<bar> \<le> 2" using assms(1,2) eps_small by linarith
  then have "\<bar>q * of_nat n\<bar> \<le> 2 * of_nat n" by (simp add: abs_mult mult_right_mono)
  from fround_near [OF this] have r: "\<bar>fround (q * of_nat n) - q * of_nat n\<bar> \<le> 2 * of_nat n * eps" .
  have "\<bar>(q - p) * of_nat n\<bar> \<le> eps * of_nat n" using q by (simp add: abs_mult mult_right_mono)
  then have "\<bar>q * of_nat n - p * of_nat n\<bar> \<le> of_nat n * eps" by (simp add: algebra_simps)
  with r have "\<bar>fround (q * of_nat n) - p * of_nat n\<bar> \<le> of_nat n * (3 * eps)" by (simp add: abs_le_iff)
  also have "\<dots> \<le> of_nat n * (1 / 1000000000000000)" using eps_small(2) by (intro mult_left_mono) simp_all
  finally show ?thesis by (simp add: fmul_def n q_def)
qed

definition tiny :: rat where "tiny = 1 / 1000000000000000"

lemma percentile_bounds:
  assumes "0 < p" "p < 1" "0 < n" "n < 2 ^ 40" "tiny \<le> p"
  shows "0 \<le> percentile_index p n"
    and "of_int (percentile_index p n) \<le> (p + tiny) * of_nat n"
    and "(p - tiny) * of_nat n - 1 < of_int (percentile_index p n)"
    and "percentile_index p n = \<lfloor>fmul (fround p) (float_of_int (int n))\<rfloor>"
proof -
  let ?x = "fmul (fround p) (float_of_int (int n))"
  have "\<bar>?x - p * of_nat n\<bar> \<le> of_nat n * tiny"
    using percentile_product [of p n] assms by (simp add: tiny_def)
  then have x: "(p - tiny) * of_nat n \<le> ?x" "?x \<le> (p + tiny) * of_nat n" by (simp_all add: abs_le_iff algebra_simps)
  have "0 \<le> (p - tiny) * of_nat n" using assms by simp
  with x(1) have pos: "0 \<le> ?x" by linarith
  then show i: "percentile_index p n = \<lfloor>?x\<rfloor>" by (simp add: percentile_index_def int_of_float_def)
  show "0 \<le> percentile_index p n" using pos by (simp add: i)
  show "of_int (percentile_index p n) \<le> (p + tiny) * of_nat n" unfolding i using x(2) by linarith
  show "(p - tiny) * of_nat n - 1 < of_int (percentile_index p n)" unfolding i using x(1) by linarith
qed

lemma percentile_mono:
  assumes "0 < p" "p + 2 * tiny \<le> q" "q < 1" "0 < n" "n < 2 ^ 40" "tiny \<le> p"
  shows "percentile_index p n \<le> percentile_index q n"
proof -
  have t: "0 < tiny" by (simp add: tiny_def)
  let ?x = "\<lambda>p. fmul (fround p) (float_of_int (int n))"
  have err: "\<bar>?x r - r * of_nat n\<bar> \<le> of_nat n * tiny" if "0 \<le> r" "r \<le> 1" for r
    using percentile_product [of r n] that assms(5) by (simp add: tiny_def)
  have "?x p \<le> (p + tiny) * of_nat n" using err [of p] assms t by (simp add: abs_le_iff algebra_simps)
  also have "\<dots> \<le> (q - tiny) * of_nat n" using assms(2) by (intro mult_right_mono) simp_all
  also have "\<dots> \<le> ?x q" using err [of q] assms t by (simp add: abs_le_iff algebra_simps)
  finally have "\<lfloor>?x p\<rfloor> \<le> \<lfloor>?x q\<rfloor>" by (rule floor_mono)
  then show ?thesis using percentile_bounds(4) [of p n] percentile_bounds(4) [of q n] assms t by simp
qed

lemma percentile_below:
  assumes "0 < p" "p + tiny < 1" "0 < n" "n < 2 ^ 40" "tiny \<le> p"
  shows "percentile_index p n < int n"
proof -
  have "0 < tiny" by (simp add: tiny_def)
  then have "p < 1" using assms(2) by linarith
  from percentile_bounds(2) [OF assms(1) this assms(3-5)]
  have "of_int (percentile_index p n) \<le> (p + tiny) * of_nat n" .
  also have "\<dots> < 1 * of_nat n" using assms(2,3) by (intro mult_strict_right_mono) simp_all
  finally have "of_int (percentile_index p n) < rat_of_int (int n)" by simp
  then show ?thesis by (simp only: of_int_less_iff)
qed

section \<open>The statistics\<close>

lemma sort_first: "xs \<noteq> [] \<Longrightarrow> sort xs ! 0 = Min (set xs)"
proof -
  assume "xs \<noteq> []"
  then obtain y ys where s: "sort xs = y # ys" by (cases "sort xs") (auto dest: arg_cong [of _ _ length])
  have "\<forall>x \<in> set xs. y \<le> x" using sorted_sort [of xs] s by (metis set_sort set_ConsD sorted_simps(2) order_refl)
  moreover have "y \<in> set xs" using s by (metis set_sort list.set_intros(1))
  ultimately have "Min (set xs) = y" by (intro Min_eqI) auto
  then show ?thesis by (simp add: s)
qed

lemma sort_last: "xs \<noteq> [] \<Longrightarrow> sort xs ! (length xs - 1) = Max (set xs)"
proof -
  assume ne: "xs \<noteq> []"
  have le: "x \<le> sort xs ! (length xs - 1)" if x: "x \<in> set xs" for x
  proof -
    obtain i where "i < length xs" "sort xs ! i = x" using x by (metis in_set_conv_nth set_sort length_sort)
    then show ?thesis using sorted_nth_mono [OF sorted_sort, of i "length xs - 1" xs] by simp
  qed
  moreover have "sort xs ! (length xs - 1) \<in> set xs" using ne by (metis diff_less length_greater_0_conv length_sort nth_mem set_sort zero_less_one)
  ultimately show ?thesis using Max_eqI [of "set xs" "sort xs ! (length xs - 1)"] by simp
qed

definition at_rank :: "rat \<Rightarrow> float64 \<Rightarrow> float64 list \<Rightarrow> bool" where
  "at_rank p v ms \<longleftrightarrow>
     (\<exists>j < length ms. v = ms ! j \<and> (p - tiny) * of_nat (length ms) - 1 < of_nat j \<and>
        of_nat j \<le> (p + tiny) * of_nat (length ms))"

text \<open>The ranks that \<open>Statistic\<close> asks for are within the data, near the quantiles they name, and in order.\<close>

lemma percentile_rank:
  assumes n: "0 < n" "n < 2 ^ 40" "length ms = n" and p: "0 < p" "p + tiny < 1" "tiny \<le> p"
  shows "0 \<le> percentile_index p n \<and> percentile_index p n < int n \<and> at_rank p (ms ! nat (percentile_index p n)) ms"
proof -
  let ?i = "percentile_index p n"
  have "p < 1" using p by (simp add: tiny_def)
  note b = percentile_bounds [OF p(1) this n(1,2) p(3)] and l = percentile_below [OF p(1,2) n(1,2) p(3)]
  have r: "rat_of_nat (nat ?i) = of_int ?i" using b(1) by simp
  have "at_rank p (ms ! nat ?i) ms"
    unfolding at_rank_def n(3) using b l by (intro exI [of _ "nat ?i"]) (simp add: r nat_less_iff)
  with b(1) l show ?thesis by simp
qed

lemma percentiles_sorted:
  fixes ms :: "float64 list"
  assumes n: "0 < n" "n < 2 ^ 40" "length ms = n" and "sorted ms"
  defines "v \<equiv> \<lambda>p. ms ! nat (percentile_index p n)"
  shows "sorted [ms ! 0, v (1 / 2), v (95 / 100), v (99 / 100), v (999 / 1000), ms ! (n - 1)]"
proof -
  let ?i = "\<lambda>p. percentile_index p n"
  have t: "0 < tiny" "tiny \<le> 1 / 10000" by (simp_all add: tiny_def)
  have r: "0 \<le> ?i p \<and> ?i p < int n" if "p \<in> {1 / 2, 95 / 100, 99 / 100, 999 / 1000}" for p
    using percentile_rank [OF n, of p] that t by auto
  have m: "?i p \<le> ?i q" if "p + 2 * tiny \<le> q" "0 < p" "q < 1" "tiny \<le> p" for p q
    by (rule percentile_mono) (use that n in simp_all)
  have mono: "?i (1 / 2) \<le> ?i (95 / 100)" "?i (95 / 100) \<le> ?i (99 / 100)" "?i (99 / 100) \<le> ?i (999 / 1000)"
    using t by (intro m; simp)+
  have le: "ms ! nat i \<le> ms ! nat j" if "0 \<le> i" "i \<le> j" "j < int n" for i j
    using that n assms(4) by (intro sorted_nth_mono) (simp_all add: nat_mono)
  have last: "nat (int n - 1) = n - 1" by simp
  have "ms ! 0 \<le> v (1 / 2)" using le [of 0 "?i (1 / 2)"] r by (simp add: v_def)
  moreover have "v (999 / 1000) \<le> ms ! (n - 1)"
    using le [of "?i (999 / 1000)" "int n - 1"] r n last by (simp add: v_def)
  moreover have "v (1 / 2) \<le> v (95 / 100)" unfolding v_def using r by (intro le mono) simp_all
  moreover have "v (95 / 100) \<le> v (99 / 100)" unfolding v_def using r by (intro le mono) simp_all
  moreover have "v (99 / 100) \<le> v (999 / 1000)" unfolding v_def using r by (intro le mono) simp_all
  ultimately show ?thesis by simp
qed

text \<open>What \<open>Statistic\<close> computes.\<close>

lemma Statistic_exact:
  assumes "length latency < 2 ^ 40"
  shows "if latency = [] then Statistic latency = Panic
    else \<exists>st. Statistic latency = Ret st \<and> sData st = sort (map to_ms latency) \<and> sSize st = length latency \<and>
      sMin st = Min (to_ms ` set latency) \<and> sMax st = Max (to_ms ` set latency) \<and>
      at_rank (1 / 2) (sMedian st) (sData st) \<and> at_rank (95 / 100) (sP95 st) (sData st) \<and>
      at_rank (99 / 100) (sP99 st) (sData st) \<and> at_rank (999 / 1000) (sP999 st) (sData st) \<and>
      sorted [sMin st, sMedian st, sP95 st, sP99 st, sP999 st, sMax st]"
proof (cases "latency = []")
  case True
  then show ?thesis by (simp add: Statistic_def index_or_panic_def)
next
  case False
  define ms where "ms = sort (map to_ms latency)"
  define n where "n = length latency"
  have n: "0 < n" "n < 2 ^ 40" "length ms = n" using False assms by (simp_all add: n_def ms_def)
  have t: "0 < tiny" "tiny \<le> 1 / 10000" by (simp_all add: tiny_def)
  let ?v = "\<lambda>p. ms ! nat (percentile_index p n)"
  have r: "0 \<le> percentile_index p n \<and> percentile_index p n < int n \<and> at_rank p (?v p) ms"
    if "p \<in> {1 / 2, 95 / 100, 99 / 100, 999 / 1000}" for p
    using that t by (intro percentile_rank n) auto
  have ends: "ms ! 0 = Min (to_ms ` set latency)" "ms ! (n - 1) = Max (to_ms ` set latency)"
    using sort_first [of "map to_ms latency"] sort_last [of "map to_ms latency"] False
    by (simp_all add: ms_def n_def)
  have last: "nat (int n - 1) = n - 1" by simp
  define st where "st = \<lparr> sData = ms, sSize = n, sMean = fdiv (fold (\<lambda>m t. fadd t m) ms 0) (float_of_int (int n)),
    sMin = ms ! 0, sMax = ms ! (n - 1), sMedian = ?v (1 / 2), sP95 = ?v (95 / 100), sP99 = ?v (99 / 100),
    sP999 = ?v (999 / 1000) \<rparr>"
  have "ms \<noteq> []" using n(1,3) by auto
  then have "Statistic latency = Ret st"
    using n r by (simp add: Statistic_def Let_def index_or_panic_def last st_def flip: ms_def)
  moreover have "sorted [sMin st, sMedian st, sP95 st, sP99 st, sP999 st, sMax st]"
    using percentiles_sorted [OF n] by (simp add: st_def ms_def)
  moreover have "sMin st = Min (to_ms ` set latency)" "sMax st = Max (to_ms ` set latency)"
    by (simp_all only: st_def Stat.select_convs ends)
  moreover have "sData st = sort (map to_ms latency)" "sSize st = length latency"
    by (simp_all add: st_def ms_def n_def)
  moreover have "at_rank (1 / 2) (sMedian st) (sData st) \<and> at_rank (95 / 100) (sP95 st) (sData st) \<and>
      at_rank (99 / 100) (sP99 st) (sData st) \<and> at_rank (999 / 1000) (sP999 st) (sData st)"
    using r by (simp add: st_def)
  ultimately show ?thesis using False by simp
qed

text \<open>
  C36: Without a single finished operation there are no statistics, the benchmark ends with a panic.
  Otherwise, for fewer than \<open>2 ^ 40\<close> operations, no rounding makes an index run out of range: the data
  are the latencies, sorted; the extremes are theirs; median and percentiles are data at the
  ranks that they name, to within one place and the error of the constants, and in this order.
\<close>

theorem Statistic_right:
  assumes "length latency < 2 ^ 40"
  shows "if latency = [] then Statistic latency = Panic
    else \<exists>st. Statistic latency = Ret st \<and> sData st = sort (map to_ms latency) \<and> sSize st = length latency \<and>
      sMin st = Min (to_ms ` set latency) \<and> sMax st = Max (to_ms ` set latency) \<and>
      at_rank (1 / 2) (sMedian st) (sData st) \<and> at_rank (95 / 100) (sP95 st) (sData st) \<and>
      at_rank (99 / 100) (sP99 st) (sData st) \<and> at_rank (999 / 1000) (sP999 st) (sData st) \<and>
      sorted [sMin st, sMedian st, sP95 st, sP99 st, sP999 st, sMax st]"
  using assms by (rule Statistic_exact)

theorem Statistic_right_witness:
  "\<exists>st. Statistic [3000000, 1000000, 2000000] = Ret st \<and> sSize st = 3 \<and> sMedian st \<le> sP99 st"
  using Statistic_right [of "[3000000, 1000000, 2000000]"] by auto

end
