(* ===== verification/Ballots.thy ===== *)
theory Ballots
  imports Ids
begin

unbundle bit_operations_syntax

text \<open>
  Ballot numbers (\<open>ballot.go\<close>): 32 bits of counter, 16 bits of zone and 16 bits of node packed
  into a 64-bit word, with the older \<open>int\<close> versions \<open>NextBallot\<close> and \<open>LeaderID\<close>; and the parts
  of \<open>view.go\<close> that use no floating point. Conversions between Go's \<open>int\<close> and \<open>uint64\<close> keep the
  bits, so both are the same 64-bit word here; \<open>>>\<close> is arithmetic on \<open>int\<close> and logical on
  \<open>uint64\<close>.
\<close>

type_synonym Ballot = "64 word"

definition NewBallot :: "gint \<Rightarrow> gid \<Rightarrow> Ballot" where
  "NewBallot n i = (push_bit 32 n OR push_bit 16 (Zone i)) OR Node i"

definition NewBallotFromString :: "string \<Rightarrow> Ballot" where
  "NewBallotFromString b =
     (let (s, i) = (if Contains b CHR ''.'' then Split2 CHR ''.'' b else (b, []));
          (n, err) = ParseUint s
      in NewBallot n i)"

definition Ballot_N :: "Ballot \<Rightarrow> gint" where
  "Ballot_N b = drop_bit 32 b"

definition Ballot_ID :: "Ballot \<Rightarrow> gid" where
  "Ballot_ID b =
     (let zone = drop_bit 16 (take_bit 32 b);
          node = take_bit 16 b
      in NewID zone node)"

definition Ballot_Next :: "Ballot \<Rightarrow> gid \<Rightarrow> Ballot" where
  "Ballot_Next b i = NewBallot (Ballot_N b + 1) i"

definition Ballot_String :: "Ballot \<Rightarrow> string" where
  "Ballot_String b = Itoa (Ballot_N b) @ ''.'' @ Ballot_ID b"

definition NextBallot :: "gint \<Rightarrow> gid \<Rightarrow> gint" where
  "NextBallot ballot i =
     (let n = push_bit 16 (Zone i) OR Node i
      in push_bit 32 (signed_drop_bit 32 ballot + 1) OR n)"

definition LeaderID :: "gint \<Rightarrow> gid" where
  "LeaderID ballot =
     (let zone = drop_bit 16 (take_bit 32 ballot);
          node = take_bit 16 ballot
      in NewID zone node)"

type_synonym View = "64 word"

definition View_N :: "View \<Rightarrow> gint" where
  "View_N v = drop_bit 32 v"

definition View_ID :: "View \<Rightarrow> gid" where
  "View_ID v =
     (let zone = drop_bit 16 (take_bit 32 v);
          node = take_bit 16 v
      in NewID zone node)"

definition View_Reset :: "View \<Rightarrow> gid \<Rightarrow> gid" where
  "View_Reset v i = NewIDRest 0 0"

definition View_String :: "View \<Rightarrow> string" where
  "View_String v = Itoa (View_N v)"

section \<open>Fields of a packed ballot\<close>

text \<open>An identifier fits when zone and node each take 16 bits.\<close>

definition fits_id :: "gid \<Rightarrow> bool" where
  "fits_id i \<longleftrightarrow> unat (Zone i) < 2 ^ 16 \<and> unat (Node i) < 2 ^ 16"

definition ballot_of :: "gint \<Rightarrow> gint \<Rightarrow> gint \<Rightarrow> Ballot" where
  "ballot_of n z k = (push_bit 32 n OR push_bit 16 z) OR k"

lemma NewBallot_of: "NewBallot n i = ballot_of n (Zone i) (Node i)"
  by (simp add: NewBallot_def ballot_of_def)

lemma small_take_bit: "unat (x :: 64 word) < 2 ^ m \<Longrightarrow> take_bit m x = x"
  by (simp add: unsigned_take_bit_eq take_bit_nat_eq_self_iff word_unat_eq_iff)

lemma small_bit: "unat (x :: 64 word) < 2 ^ m \<Longrightarrow> bit x k \<Longrightarrow> k < m"
  by (metis bit_take_bit_iff small_take_bit)

lemma ballot_of_N:
  assumes "unat n < 2 ^ 32" "unat z < 2 ^ 16" "unat k < 2 ^ 16"
  shows "drop_bit 32 (ballot_of n z k) = n"
proof (rule bit_eqI)
  fix j assume "possible_bit TYPE(64 word) j"
  show "bit (drop_bit 32 (ballot_of n z k)) j = bit n j"
    using assms(2,3) [THEN small_bit, of "16 + j"] assms(2,3) [THEN small_bit, of "32 + j"]
      assms(1) [THEN small_bit, of j]
    by (auto simp: ballot_of_def bit_simps)
qed

lemma ballot_of_zone:
  assumes "unat z < 2 ^ 16" "unat k < 2 ^ 16"
  shows "drop_bit 16 (take_bit 32 (ballot_of n z k)) = z"
proof (rule bit_eqI)
  fix j assume "possible_bit TYPE(64 word) j"
  show "bit (drop_bit 16 (take_bit 32 (ballot_of n z k))) j = bit z j"
    using assms(1) [THEN small_bit, of j] assms(2) [THEN small_bit, of "16 + j"]
    by (auto simp: ballot_of_def bit_simps)
qed

lemma ballot_of_node:
  assumes "unat k < 2 ^ 16"
  shows "take_bit 16 (ballot_of n z k) = k"
proof (rule bit_eqI)
  fix j assume "possible_bit TYPE(64 word) j"
  show "bit (take_bit 16 (ballot_of n z k)) j = bit k j"
    using assms(1) [THEN small_bit, of j]
    by (auto simp: ballot_of_def bit_simps)
qed

lemma ballot_fields: "ballot_of (drop_bit 32 b) (drop_bit 16 (take_bit 32 b)) (take_bit 16 b) = b"
proof (rule bit_eqI)
  fix j assume "possible_bit TYPE(64 word) j"
  then consider "j < 16" | "16 \<le> j" "j < 32" | "32 \<le> j" "j < 64" by force
  then show "bit (ballot_of (drop_bit 32 b) (drop_bit 16 (take_bit 32 b)) (take_bit 16 b)) j = bit b j"
    by cases (auto simp: ballot_of_def bit_simps)
qed

lemma field_bounds:
  "unat (drop_bit 32 (b :: 64 word)) < 2 ^ 32"
  "unat (drop_bit 16 (take_bit 32 (b :: 64 word))) < 2 ^ 16"
  "unat (take_bit 16 (b :: 64 word)) < 2 ^ 16"
  using unsigned_less [of b, where ?'a = nat]
  by (simp_all add: drop_bit_eq_div take_bit_eq_mod unat_div_distrib unat_mod_distrib
      less_mult_imp_div_less)

lemma small_sint:
  assumes "unat (x :: 64 word) < 2 ^ 63"
  shows "sint x = int (unat x)"
proof -
  have u: "uint x = int (unat x)" by simp
  have "int (unat x) < int (2 ^ 63)" using assms by (simp only: of_nat_less_iff)
  then have b: "int (unat x) < 2 ^ 63" by simp
  have "sint x = signed_take_bit 63 (uint x)" by (simp only: sint_uint) simp
  also have "... = uint x" by (rule signed_take_bit_int_eq_self) (use b u in linarith)+
  finally show ?thesis by simp
qed

lemma small_nonneg: "unat (x :: 64 word) < 2 ^ 63 \<Longrightarrow> 0 \<le> sint x"
  by (simp add: small_sint)

lemma field_nonneg [simp]:
  "0 \<le> sint (drop_bit 32 (b :: 64 word))"
  "0 \<le> sint (drop_bit 16 (take_bit 32 (b :: 64 word)))"
  "0 \<le> sint (take_bit 16 (b :: 64 word))"
  using field_bounds [of b] by (intro small_nonneg; simp)+

lemma Ballot_ID_print:
  "Ballot_ID b = Itoa (drop_bit 16 (take_bit 32 b)) @ ''.'' @ Itoa (take_bit 16 b)"
  by (simp add: Ballot_ID_def NewID_abs abs_int_id Let_def)

lemma Zone_Ballot_ID [simp]: "Zone (Ballot_ID b) = drop_bit 16 (take_bit 32 b)"
  unfolding Ballot_ID_print by (rule Zone_print) simp

lemma Node_Ballot_ID [simp]: "Node (Ballot_ID b) = take_bit 16 b"
  unfolding Ballot_ID_print by (rule Node_print) simp

lemma fits_id_Ballot_ID: "fits_id (Ballot_ID b)"
  using field_bounds [of b] by (simp add: fits_id_def)

lemma NewBallot_fields:
  assumes "unat n < 2 ^ 32" and "fits_id i"
  shows "Ballot_N (NewBallot n i) = n"
    and "Zone (Ballot_ID (NewBallot n i)) = Zone i"
    and "Node (Ballot_ID (NewBallot n i)) = Node i"
    and "Ballot_ID (NewBallot n i) = NewID (Zone i) (Node i)"
proof -
  have zn: "unat (Zone i) < 2 ^ 16" "unat (Node i) < 2 ^ 16"
    using assms(2) by (simp_all add: fits_id_def)
  show "Ballot_N (NewBallot n i) = n"
    using assms(1) zn by (simp add: Ballot_N_def NewBallot_of ballot_of_N)
  show "Zone (Ballot_ID (NewBallot n i)) = Zone i"
    using zn by (simp add: NewBallot_of ballot_of_zone)
  show "Node (Ballot_ID (NewBallot n i)) = Node i"
    using zn by (simp add: NewBallot_of ballot_of_node)
  show "Ballot_ID (NewBallot n i) = NewID (Zone i) (Node i)"
    using zn by (simp add: Ballot_ID_def NewBallot_of ballot_of_zone ballot_of_node)
qed

lemma low_field_bound:
  "unat (drop_bit 16 (take_bit 32 (b :: 64 word))) * 65536 + unat (take_bit 16 b) < 2 ^ 32"
  using field_bounds [of b] by simp

section \<open>Properties of ballots\<close>

text \<open>
  A ballot built from a 32-bit counter and an identifier whose zone and node take
  16 bits gives the three parts back; for an identifier in the printed form of \<open>NewID\<close> the
  identifier itself comes back.
\<close>

theorem NewBallot_roundtrip:
  assumes "unat n < 2 ^ 32" and "fits_id i"
  shows "Ballot_N (NewBallot n i) = n \<and>
         Zone (Ballot_ID (NewBallot n i)) = Zone i \<and> Node (Ballot_ID (NewBallot n i)) = Node i \<and>
         (canonical i \<longrightarrow> Ballot_ID (NewBallot n i) = i)"
  using NewBallot_fields [OF assms] by (simp add: canonical_def)

theorem NewBallot_roundtrip_witness:
  "Ballot_ID (NewBallot 7 ''2.1'') = ''2.1'' \<and> Ballot_N (NewBallot 7 ''2.1'') = 7"
proof -
  have zn: "Zone ''2.1'' = 2" "Node ''2.1'' = 1"
    by (simp_all add: Zone_def Node_def Contains_def parse_simps)
  moreover have "canonical ''2.1''"
    by (simp add: canonical_def zn NewID_def print_simps)
  moreover from zn have "fits_id ''2.1''" by (simp add: fits_id_def)
  moreover have "unat (7 :: gint) < 2 ^ 32" by simp
  ultimately show ?thesis using NewBallot_roundtrip [of 7 "''2.1''"] by simp
qed

text \<open>
  \<open>NewBallotFromString\<close> inverts \<open>String\<close> on every ballot.
\<close>

theorem Ballot_String_roundtrip: "NewBallotFromString (Ballot_String b) = b"
proof -
  have "Contains (Ballot_String b) CHR ''.''"
    by (simp add: Ballot_String_def Contains_def)
  moreover have "Split2 CHR ''.'' (Ballot_String b) = (Itoa (Ballot_N b), Ballot_ID b)"
    by (simp add: Ballot_String_def Split2_append)
  moreover have "ParseUint (Itoa (Ballot_N b)) = (Ballot_N b, None)"
    by (rule ParseUint_Itoa) (simp add: Ballot_N_def)
  ultimately have "NewBallotFromString (Ballot_String b) = NewBallot (Ballot_N b) (Ballot_ID b)"
    by (simp add: NewBallotFromString_def)
  also have "... = b" by (simp add: NewBallot_of Ballot_N_def ballot_fields)
  finally show ?thesis .
qed

lemma unat_ballot:
  "unat (b :: 64 word) = unat (drop_bit 32 b) * 2 ^ 32 +
     (unat (drop_bit 16 (take_bit 32 b)) * 2 ^ 16 + unat (take_bit 16 b))"
proof -
  define x where "x = unat b"
  have "x mod 2 ^ 32 = x mod 2 ^ 32 div 2 ^ 16 * 2 ^ 16 + x mod 2 ^ 32 mod 2 ^ 16"
    by (simp only: div_mult_mod_eq)
  moreover have "x mod 2 ^ 32 mod 2 ^ 16 = x mod 2 ^ 16"
    by (simp add: mod_mod_cancel)
  ultimately have "x = x div 2 ^ 32 * 2 ^ 32 + (x mod 2 ^ 32 div 2 ^ 16 * 2 ^ 16 + x mod 2 ^ 16)"
    by (metis div_mult_mod_eq)
  then show ?thesis
    by (simp add: x_def drop_bit_eq_div take_bit_eq_mod unat_div_distrib unat_mod_distrib)
qed

lemma lex_bound:
  fixes a b x y m :: nat
  assumes "x < m" "y < m"
  shows "a * m + x < b * m + y \<longleftrightarrow> a < b \<or> a = b \<and> x < y"
proof -
  have "a * m + x < b * m + y" if "a < b"
  proof -
    from that have "Suc a * m \<le> b * m" by (intro mult_le_mono1) simp
    with assms(1) show ?thesis by simp
  qed
  moreover have "\<not> a * m + x < b * m + y" if "b < a"
  proof -
    from that have "Suc b * m \<le> a * m" by (intro mult_le_mono1) simp
    with assms(2) show ?thesis by simp
  qed
  ultimately show ?thesis by (cases a b rule: linorder_cases) auto
qed

text \<open>
  \<open>Next\<close> moves every ballot whose counter is below its 32-bit limit to a strictly greater
  one, whoever takes it, and the new owner is the identifier it was given.
\<close>

theorem Ballot_Next_increases:
  assumes "unat (Ballot_N b) + 1 < 2 ^ 32" and "fits_id i"
  shows "b < Ballot_Next b i \<and> Ballot_N (Ballot_Next b i) = Ballot_N b + 1 \<and>
         Zone (Ballot_ID (Ballot_Next b i)) = Zone i \<and> Node (Ballot_ID (Ballot_Next b i)) = Node i"
proof -
  have n: "unat (Ballot_N b + 1) = unat (Ballot_N b) + 1"
    using assms(1) by (simp add: unat_word_ariths)
  then have rt: "Ballot_N (Ballot_Next b i) = Ballot_N b + 1"
      "Zone (Ballot_ID (Ballot_Next b i)) = Zone i" "Node (Ballot_ID (Ballot_Next b i)) = Node i"
    using NewBallot_fields [of "Ballot_N b + 1" i] assms by (simp_all add: Ballot_Next_def)
  have "unat b < unat (Ballot_Next b i)"
    unfolding unat_ballot [of b] unat_ballot [of "Ballot_Next b i"]
    by (subst lex_bound) (use rt(1) n low_field_bound in \<open>simp_all add: Ballot_N_def\<close>)
  with rt show ?thesis by (simp add: word_less_nat_alt)
qed

theorem Ballot_Next_increases_witness:
  "NewBallot 4 (NewID 1 3) < Ballot_Next (NewBallot 4 (NewID 1 3)) (NewID 1 2)"
proof -
  have f: "fits_id (NewID 1 k)" if "k = 2 \<or> k = 3" for k
    using that by (auto simp: fits_id_def NewID_Zone NewID_Node abs_int_def)
  then have "Ballot_N (NewBallot 4 (NewID 1 3)) = 4"
    using NewBallot_fields [of 4 "NewID 1 3"] by simp
  then show ?thesis
    using Ballot_Next_increases [of "NewBallot 4 (NewID 1 3)" "NewID 1 2"] f by simp
qed

text \<open>
  The older \<open>int\<close> functions compute the same bits as the \<open>Ballot\<close> methods:
  \<open>NextBallot\<close> is \<open>Next\<close> and \<open>LeaderID\<close> is \<open>ID\<close>, although one shifts signed and the other
  unsigned numbers.
\<close>

theorem NextBallot_eq_Next: "NextBallot b i = Ballot_Next b i \<and> LeaderID b = Ballot_ID b"
proof -
  have "push_bit 32 (signed_drop_bit 32 b) = push_bit 32 (drop_bit 32 b)"
  proof (rule bit_eqI)
    fix j assume j: "possible_bit TYPE(64 word) j"
    then show "bit (push_bit 32 (signed_drop_bit 32 b)) j = bit (push_bit 32 (drop_bit 32 b)) j"
      by (cases "32 \<le> j")
        (auto simp: bit_push_bit_iff bit_signed_drop_bit_iff bit_drop_bit_eq)
  qed
  then have "push_bit 32 (signed_drop_bit 32 b + 1) = push_bit 32 (drop_bit 32 b + 1)"
    by (simp only: push_bit_add)
  then show ?thesis
    by (simp add: NextBallot_def Ballot_Next_def NewBallot_def Ballot_N_def LeaderID_def
        Ballot_ID_def or.assoc)
qed

end
