(* ===== verification/Views.thy ===== *)
theory Views
  imports Ballots Floats
begin

unbundle bit_operations_syntax

text \<open>
  The part of \<open>view.go\<close> that computes with floating point: the number of a view is a remainder of two
  floats. The type \<open>View\<close> and its accessors are in \<open>Ballots\<close>. The remainder by zero is NaN; what
  the conversion of NaN to an \<open>int\<close> gives depends on the platform and is an argument.
\<close>

definition math_Mod :: "float64 \<Rightarrow> float64 \<Rightarrow> float64 option" where
  "math_Mod x y = (if y = 0 then None else Some (x - \<bar>y\<bar> * of_int (int_of_float (x / \<bar>y\<bar>))))"

definition NewView :: "gint \<Rightarrow> float64 \<Rightarrow> float64 \<Rightarrow> gid \<Rightarrow> View" where
  "NewView nan n m i =
     (let num = (case math_Mod n m of None \<Rightarrow> nan | Some r \<Rightarrow> word_of_int (int_of_float r))
      in (push_bit 32 num OR push_bit 16 (Zone i)) OR Node i)"

text \<open>\<open>N\<close> is the number of nodes of the configuration. A failed parse is logged and its value used.\<close>

definition View_Next :: "gint \<Rightarrow> int \<Rightarrow> gid \<Rightarrow> View \<Rightarrow> View" where
  "View_Next nan N i v =
     (let n = float_of_int N;
          b = (if Contains i CHR ''.'' then snd (Split2 CHR ''.'' i) else i);
          (node, err) = ParseUint b;
          m = float_of_int (sint node)
      in NewView nan m n i)"

lemma math_Mod_int:
  assumes "0 \<le> a" "0 < b"
  shows "math_Mod (of_int a) (of_int b) = Some (of_int (a mod b))"
proof -
  have "int_of_float (of_int a / of_int b) = a div b"
  proof -
    have "0 \<le> rat_of_int a / of_int b" using assms by simp
    then show ?thesis by (simp add: int_of_float_def floor_divide_of_int_eq not_less [symmetric])
  qed
  moreover have "rat_of_int a - of_int b * of_int (a div b) = of_int (a mod b)"
    by (simp only: minus_mult_div_eq_mod flip: of_int_mult of_int_diff)
  ultimately show ?thesis using assms by (simp add: math_Mod_def)
qed

lemma NewView_int:
  assumes "0 \<le> a" "0 < b"
  shows "NewView nan (of_int a) (of_int b) i = NewBallot (word_of_int (a mod b)) i"
  using assms by (simp add: NewView_def math_Mod_int NewBallot_def)

text \<open>
  For an identifier of zone and node numbers of 16 bits, \<open>Next\<close> makes the view whose number is the
  node's modulo the number of nodes and whose leader is the node; the current view does not matter, so
  that a second \<open>Next\<close> of the same node stays where it is: the number of a view says who leads
  and never grows with time.
\<close>

theorem View_Next_right:
  assumes "z < 2 ^ 16" "k < 2 ^ 16" "0 < N" "N < 2 ^ 53"
  defines "i \<equiv> NewID (of_nat z) (of_nat k)"
  shows "sint (View_N (View_Next nan N i v)) = int k mod N \<and> View_ID (View_Next nan N i v) = i \<and>
    View_Next nan N i (View_Next nan N i v) = View_Next nan N i v"
proof -
  let ?z = "of_nat z :: gint" and ?k = "of_nat k :: gint"
  have u: "unat ?z = z" "unat ?k = k" using assms(1,2) by (simp_all add: unat_of_nat)
  have s: "sint ?z = int z" "sint ?k = int k" using small_sint [of ?z] small_sint [of ?k] u assms(1,2) by simp_all
  have i: "i = Itoa ?z @ ''.'' @ Itoa ?k" by (simp add: i_def NewID_abs abs_int_id s)
  have fits: "fits_id i" "Zone i = ?z" "Node i = ?k"
    using assms(1,2) s by (simp_all add: i fits_id_def Zone_print Node_print u del: append.simps)
  have split: "Contains i CHR ''.''" "snd (Split2 CHR ''.'' i) = Itoa ?k"
    by (simp_all add: i Contains_def Split2_append)
  have "float_of_int (sint ?k) = of_int (int k)" "float_of_int N = of_int N"
    using assms(2-4) s by (simp_all add: float_of_int_exact)
  then have nx: "View_Next nan N i v = NewBallot (word_of_int (int k mod N)) i" for v
    using assms(3) s by (simp add: View_Next_def split ParseUint_Itoa Let_def NewView_int [of "int k" N, simplified])
  define num :: gint where "num = word_of_int (int k mod N)"
  define r where "r = nat (int k mod N)"
  have "0 \<le> int k mod N" "int k mod N \<le> int k" using assms(3) by (simp_all add: zmod_le_nonneg_dividend)
  then have r: "int r = int k mod N" "r < 2 ^ 16" using assms(2) by (simp_all add: r_def)
  then have "num = of_nat r" by (simp add: num_def flip: r(1))
  then have num: "unat num < 2 ^ 32" "sint num = int k mod N"
    using r small_sint [of num] by (simp_all add: unat_of_nat)
  note f = NewBallot_fields [OF num(1) fits(1)]
  have "View_N (View_Next nan N i v) = num" using f(1) by (simp add: nx View_N_def Ballot_N_def num_def)
  moreover have "View_ID (View_Next nan N i v) = NewID (Zone i) (Node i)"
    using f(4) by (simp add: nx View_ID_def Ballot_ID_def num_def)
  ultimately show ?thesis using num(2) by (simp add: fits nx) (simp add: i_def)
qed

theorem View_Next_right_witness:
  "sint (View_N (View_Next 0 4 (NewID 1 6) 0)) = 2 \<and> View_ID (View_Next 0 4 (NewID 1 6) 0) = NewID 1 6"
  using View_Next_right [of 1 6 4 0 0] by simp

end
