(* ===== verification/Quorums.thy ===== *)
theory Quorums
  imports Configs
begin

text \<open>
  Acknowledgement counting (\<open>quorum.go\<close>). The locale \<open>ack_set\<close> is the contract the consensus
  component relies on: a tracker stands for the set of identifiers that acknowledged, a second
  acknowledgement of the same identifier changes nothing, and the size is the size of that set.
  The model of \<open>Quorum\<close> is interpreted in it, with the per-zone counters in its invariant.
\<close>

section \<open>The contract of an acknowledgement tracker\<close>

locale ack_set =
  fixes new :: 'q
    and ack :: "'q \<Rightarrow> 'i \<Rightarrow> 'q"
    and size :: "'q \<Rightarrow> int"
    and members :: "'q \<Rightarrow> 'i set"
    and ok :: "'q \<Rightarrow> bool"
  assumes new_ok: "ok new"
    and new_members: "members new = {}"
    and ack_ok: "ok q \<Longrightarrow> ok (ack q i)"
    and ack_members: "ok q \<Longrightarrow> members (ack q i) = insert i (members q)"
    and ok_finite: "ok q \<Longrightarrow> finite (members q)"
    and ok_size: "ok q \<Longrightarrow> size q = int (card (members q))"
begin

lemma fold_ok: "ok q \<Longrightarrow> ok (fold (\<lambda>i q. ack q i) is q)"
  by (induction "is" arbitrary: q) (simp_all add: ack_ok)

lemma fold_members: "ok q \<Longrightarrow> members (fold (\<lambda>i q. ack q i) is q) = set is \<union> members q"
  by (induction "is" arbitrary: q) (auto simp: ack_ok ack_members)

lemma fold_size: "ok q \<Longrightarrow> size (fold (\<lambda>i q. ack q i) is q) = int (card (set is \<union> members q))"
  by (simp add: fold_ok fold_members ok_size)

lemma size_ack: "ok q \<Longrightarrow> size (ack q i) = (if i \<in> members q then size q else size q + 1)"
  by (simp add: ack_ok ack_members ok_size ok_finite card_insert_if)

lemma size_new: "size new = 0"
  by (simp add: ok_size new_ok new_members)

lemma size_nonneg: "ok q \<Longrightarrow> 0 \<le> size q"
  by (simp add: ok_size)

end

section \<open>The model of Quorum\<close>

record Quorum =
  qsize :: int
  acks :: "(gid, bool) gomap"
  zones :: "(gint, int) gomap"
  nacks :: "(gid, bool) gomap option"

definition NewQuorum :: Quorum where
  "NewQuorum = \<lparr> qsize = 0, acks = fmempty, zones = fmempty, nacks = None \<rparr>"

definition ACK :: "Quorum \<Rightarrow> gid \<Rightarrow> Quorum" where
  "ACK q i =
     (if \<not> get_or False (acks q) i
      then q\<lparr>acks := fmupd i True (acks q), qsize := qsize q + 1,
             zones := fmupd (Zone i) (get_or 0 (zones q) (Zone i) + 1) (zones q)\<rparr>
      else q)"

definition ADD :: "Quorum \<Rightarrow> Quorum" where
  "ADD q = q\<lparr>qsize := qsize q + 1\<rparr>"

definition Size :: "Quorum \<Rightarrow> int" where
  "Size q = qsize q"

definition Quorum_Reset :: "Quorum \<Rightarrow> Quorum" where
  "Quorum_Reset q = q\<lparr>qsize := 0, acks := fmempty, zones := fmempty, nacks := Some fmempty\<rparr>"

definition All :: "Config \<Rightarrow> Quorum \<Rightarrow> bool" where
  "All cfg q \<longleftrightarrow> qsize q = cn cfg"

definition Total :: "Config \<Rightarrow> int" where
  "Total cfg = Concurrency (cBenchmark cfg)"

definition Majority :: "Config \<Rightarrow> Quorum \<Rightarrow> bool" where
  "Majority cfg q \<longleftrightarrow> qsize q \<ge> go_div (cn cfg) 2"

definition AllZones :: "Config \<Rightarrow> Quorum \<Rightarrow> bool" where
  "AllZones cfg q \<longleftrightarrow> int (len_map (zones q)) = cz cfg"

text \<open>The loop over \<open>zones\<close> meets them in the order \<open>ord\<close>.\<close>

definition ZoneMajority :: "gint list \<Rightarrow> Config \<Rightarrow> Quorum \<Rightarrow> bool" where
  "ZoneMajority ord cfg q =
     list_ex (\<lambda>z. get_or 0 (zones q) z > go_div (get_or 0 (npz cfg) z) 2) ord"

section \<open>The model meets the contract\<close>

definition acked :: "Quorum \<Rightarrow> gid set" where
  "acked q = {i. get_or False (acks q) i}"

text \<open>The identifiers of one zone among a set.\<close>

definition in_zone :: "gint \<Rightarrow> gid set \<Rightarrow> gid set" where
  "in_zone z A = {i \<in> A. Zone i = z}"

definition quorum_ok :: "Quorum \<Rightarrow> bool" where
  "quorum_ok q \<longleftrightarrow>
     qsize q = int (card (acked q)) \<and>
     (\<forall>z. get_or 0 (zones q) z = int (card (in_zone z (acked q)))) \<and>
     fmdom' (zones q) = Zone ` acked q"

lemma acked_subset: "acked q \<subseteq> fmdom' (acks q)"
  by (auto simp: acked_def get_or_def fmlookup_dom'_iff split: option.splits)

lemma finite_acked [simp]: "finite (acked q)"
  using acked_subset by (rule finite_subset) simp

lemma acked_NewQuorum [simp]: "acked NewQuorum = {}"
  by (simp add: acked_def NewQuorum_def)

lemma acked_Reset [simp]: "acked (Quorum_Reset q) = {}"
  by (simp add: acked_def Quorum_Reset_def)

lemma acked_ACK [simp]: "acked (ACK q i) = insert i (acked q)"
  by (auto simp: acked_def ACK_def split: if_splits)

lemma in_zone_insert:
  "in_zone z (insert i A) = (if Zone i = z then insert i (in_zone z A) else in_zone z A)"
  by (auto simp: in_zone_def)

lemma in_zone_simps [simp]: "in_zone z {} = {}" "finite A \<Longrightarrow> finite (in_zone z A)"
    "i \<in> in_zone z A \<longleftrightarrow> i \<in> A \<and> Zone i = z"
  by (simp_all add: in_zone_def)

lemma quorum_ok_new [simp]: "quorum_ok NewQuorum"
  by (simp add: quorum_ok_def) (simp add: NewQuorum_def)

lemma quorum_ok_Reset [simp]: "quorum_ok (Quorum_Reset q)"
  by (simp add: quorum_ok_def) (simp add: Quorum_Reset_def)

lemma ACK_new:
  "i \<notin> acked q \<Longrightarrow>
     ACK q i = q\<lparr>acks := fmupd i True (acks q), qsize := qsize q + 1,
                zones := fmupd (Zone i) (get_or 0 (zones q) (Zone i) + 1) (zones q)\<rparr>"
  by (simp add: ACK_def acked_def)

lemma quorum_ok_ACK: "quorum_ok q \<Longrightarrow> quorum_ok (ACK q i)"
proof (cases "i \<in> acked q")
  case True
  then show "quorum_ok q \<Longrightarrow> ?thesis" by (simp add: ACK_def acked_def)
next
  case False
  assume "quorum_ok q"
  then show ?thesis using False
    unfolding quorum_ok_def acked_ACK in_zone_insert by (auto simp: ACK_new)
qed

interpretation qs: ack_set NewQuorum ACK Size acked quorum_ok
  by unfold_locales (simp_all add: quorum_ok_ACK, simp add: quorum_ok_def Size_def)

section \<open>Properties of quorums\<close>

abbreviation ACKs :: "gid list \<Rightarrow> Quorum" where
  "ACKs is \<equiv> fold (\<lambda>i q. ACK q i) is NewQuorum"

lemma ACKs_ok [simp]: "quorum_ok (ACKs is)"
  by (rule qs.fold_ok) simp

lemma acked_ACKs [simp]: "acked (ACKs is) = set is"
  using qs.fold_members [of NewQuorum] by simp

lemma Size_ACKs [simp]: "Size (ACKs is) = int (card (set is))"
  using qs.fold_size [of NewQuorum] by simp

text \<open>
  After any sequence of acknowledgements the size is the number of distinct identifiers,
  and each zone's counter is the number of distinct identifiers of that zone: repeated
  acknowledgements count once.
\<close>

theorem ACK_counts_distinct:
  "Size (ACKs is) = int (card (set is)) \<and>
   (\<forall>z. get_or 0 (zones (ACKs is)) z = int (card {i \<in> set is. Zone i = z})) \<and>
   (AllZones cfg (ACKs is) \<longleftrightarrow> int (card (Zone ` set is)) = cz cfg)"
proof -
  have "quorum_ok (ACKs is)" by simp
  then have "get_or 0 (zones (ACKs is)) z = int (card (in_zone z (set is)))" for z
    unfolding quorum_ok_def by simp
  moreover have "fmdom' (zones (ACKs is)) = Zone ` set is"
    using ACKs_ok [of "is"] unfolding quorum_ok_def by simp
  ultimately show ?thesis by (simp add: in_zone_def AllZones_def len_map_def)
qed

text \<open>
  C34: \<open>Majority\<close> is not a majority. Of any set of nodes as large as the configured \<open>n\<close> two
  disjoint sets of acknowledgements both satisfy it, so two such quorums need not meet.
\<close>

theorem Majority_not_intersecting:
  assumes "finite U" and "cn cfg = int (card U)"
  shows "\<exists>is js. set is \<subseteq> U \<and> set js \<subseteq> U \<and> set is \<inter> set js = {} \<and>
           Majority cfg (ACKs is) \<and> Majority cfg (ACKs js)"
proof -
  obtain us where us: "distinct us" "set us = U"
    using assms(1) finite_distinct_list by blast
  define k where "k = length us div 2"
  have n: "card U = length us" using us by (metis distinct_card)
  have len: "length (take k us) = k" "k \<le> length (drop k us)" by (simp_all add: k_def)
  have "card (set (take k us)) = k" "card (set (drop k us)) = length (drop k us)"
    using us(1) len(1) by (metis distinct_card distinct_take, metis distinct_card distinct_drop)
  then have "Majority cfg (ACKs (take k us))" "Majority cfg (ACKs (drop k us))"
    using assms(2) n len(2) Size_ACKs
    by (simp_all add: Majority_def go_div_pos Size_def k_def zdiv_int)
  moreover have "set (take k us) \<inter> set (drop k us) = {}"
    using us(1) by (rule set_take_disj_set_drop_if_distinct) simp
  ultimately show ?thesis using us(2) set_take_subset set_drop_subset by metis
qed

theorem Majority_not_intersecting_witness:
  "\<exists>is js. set is \<subseteq> {''1.1'', ''1.2'', ''1.3'', ''1.4''} \<and> set js \<subseteq> {''1.1'', ''1.2'', ''1.3'', ''1.4''} \<and>
     set is \<inter> set js = {} \<and> Majority (MakeDefaultConfig\<lparr>cn := 4\<rparr>) (ACKs is) \<and>
     Majority (MakeDefaultConfig\<lparr>cn := 4\<rparr>) (ACKs js)"
proof -
  have "finite {''1.1'', ''1.2'', ''1.3'', ''1.4''}" by simp
  moreover have "cn (MakeDefaultConfig\<lparr>cn := 4\<rparr>) = int (card {''1.1'', ''1.2'', ''1.3'', ''1.4''})"
    by simp
  ultimately show ?thesis by (rule Majority_not_intersecting)
qed

text \<open>
  A zone majority does what its name says: two sets of acknowledgements that hold a
  majority of the same zone share a node of it.
\<close>

theorem ZoneMajority_intersects:
  assumes U: "finite U" "set is \<subseteq> U" "set js \<subseteq> U"
    and n: "get_or 0 (npz cfg) z = int (card {i \<in> U. Zone i = z})"
    and A: "ZoneMajority [z] cfg (ACKs is)" and B: "ZoneMajority [z] cfg (ACKs js)"
  shows "\<exists>i. i \<in> set is \<and> i \<in> set js \<and> Zone i = z"
proof -
  have zone: "get_or 0 (zones (ACKs ks)) z = int (card {i \<in> set ks. Zone i = z})" for ks
    using ACKs_ok [of ks] unfolding quorum_ok_def by (simp add: in_zone_def)
  have "{i \<in> set is. Zone i = z} \<inter> {i \<in> set js. Zone i = z} \<noteq> {}"
  proof (rule overlap_by_card)
    show "card {i \<in> U. Zone i = z} < card {i \<in> set is. Zone i = z} + card {i \<in> set js. Zone i = z}"
      using A B n by (simp add: ZoneMajority_def zone go_div_pos)
  qed (use U in auto)
  then show ?thesis by blast
qed

theorem ZoneMajority_intersects_witness:
  "\<exists>i. i \<in> set [''1.1'', ''1.2''] \<and> i \<in> set [''1.2'', ''1.3''] \<and> Zone i = 1"
proof -
  let ?U = "{''1.1'', ''1.2'', ''1.3''}"
  let ?cfg = "MakeDefaultConfig\<lparr>npz := fmupd 1 3 fmempty\<rparr>"
  have z: "Zone ''1.1'' = 1" "Zone ''1.2'' = 1" "Zone ''1.3'' = 1"
    by (simp_all add: Zone_def Contains_def parse_simps)
  have "{i \<in> ?U. Zone i = 1} = ?U" using z by auto
  then have n: "get_or 0 (npz ?cfg) 1 = int (card {i \<in> ?U. Zone i = 1})" by simp
  have A: "ZoneMajority [1] ?cfg (ACKs [''1.1'', ''1.2''])"
    and B: "ZoneMajority [1] ?cfg (ACKs [''1.2'', ''1.3''])"
    by (simp_all add: ZoneMajority_def ACK_def NewQuorum_def z go_div_pos)
  show ?thesis
    by (rule ZoneMajority_intersects [of ?U _ _ ?cfg, OF _ _ _ n A B]) simp_all
qed

end
