(* ===== verification/Peers.thy ===== *)
theory Peers
  imports Configs
begin

text \<open>
  The neighbour list (\<open>peerset.go\<close>). \<open>Addmember\<close> parses the configured address of the node with
  the URL package; that parser is an argument (\<open>url_of\<close>), \<open>None\<close> being a failed parse, on which
  the code dereferences a nil pointer. \<open>Delete\<close> removes from the current slice with an index of
  the slice it started from, so its loop carries both. \<open>Size\<close> locks a global mutex for its whole
  body, which is not modelled.
\<close>

record Memberlist =
  mAddrs :: string
  Neibors :: "gid list"
  available :: "(gid, bool) gomap"
  msize :: int

definition NewMember :: Memberlist where
  "NewMember = \<lparr> mAddrs = [], Neibors = [], available = fmempty, msize = 0 \<rparr>"

definition Addmember :: "(string \<Rightarrow> string option) \<Rightarrow> Config \<Rightarrow> gid \<Rightarrow> Memberlist \<Rightarrow> Memberlist outcome" where
  "Addmember url_of cfg i m =
     (case url_of (get_or [] (Addrs cfg) i) of
        None \<Rightarrow> Panic
      | Some url \<Rightarrow>
          Ret (if \<not> get_or False (available m) i
               then m\<lparr>mAddrs := url, available := fmupd i True (available m),
                      msize := msize m + 1, Neibors := Neibors m @ [i]\<rparr>
               else m))"

text \<open>
  The loop of \<open>Delete\<close> over the elements \<open>vs\<close> of the original slice, the next one at index \<open>i\<close>.
  \<open>m.Neibors[i+1:]\<close> panics when the current slice has become shorter than \<open>i + 1\<close>.
\<close>

fun delete_loop :: "gid \<Rightarrow> nat \<Rightarrow> gid list \<Rightarrow> Memberlist \<Rightarrow> Memberlist outcome" where
  "delete_loop x i [] m = Ret m"
| "delete_loop x i (v # vs) m =
     (if v = x
      then if length (Neibors m) < i + 1 then Panic
           else delete_loop x (i + 1) vs
                  (m\<lparr>Neibors := take i (Neibors m) @ drop (i + 1) (Neibors m),
                     msize := msize m - 1, available := fmupd v False (available m), mAddrs := []\<rparr>)
      else delete_loop x (i + 1) vs m)"

definition Member_Delete :: "gid \<Rightarrow> Memberlist \<Rightarrow> Memberlist outcome" where
  "Member_Delete x m = delete_loop x 0 (Neibors m) m"

definition Member_Reset :: "Memberlist \<Rightarrow> Memberlist" where
  "Member_Reset m = m\<lparr>Neibors := [], available := fmempty, msize := 0, mAddrs := []\<rparr>"

definition Member_Size :: "Memberlist \<Rightarrow> int" where
  "Member_Size m = int (length (Neibors m))"

definition ClientSize :: "Config \<Rightarrow> int" where
  "ClientSize cfg = Concurrency (cBenchmark cfg)"

section \<open>The list, the flags and the size agree\<close>

definition members_ok :: "Memberlist \<Rightarrow> bool" where
  "members_ok m \<longleftrightarrow>
     distinct (Neibors m) \<and> msize m = int (length (Neibors m)) \<and>
     (\<forall>i. get_or False (available m) i \<longleftrightarrow> i \<in> set (Neibors m))"

lemma members_ok_new: "members_ok NewMember"
  by (simp add: members_ok_def NewMember_def)

lemma members_ok_Reset: "members_ok (Member_Reset m)"
  by (simp add: members_ok_def Member_Reset_def)

lemma members_ok_Addmember:
  assumes ok: "members_ok m" and r: "Addmember url_of cfg i m = Ret m'"
  shows "members_ok m' \<and> set (Neibors m') = insert i (set (Neibors m))"
proof (cases "i \<in> set (Neibors m)")
  case True
  with ok have "get_or False (available m) i" by (simp add: members_ok_def)
  with r have "m' = m" by (simp add: Addmember_def split: option.splits)
  with ok True show ?thesis by auto
next
  case False
  with ok have "\<not> get_or False (available m) i" by (simp add: members_ok_def)
  with r obtain url where "m' = m\<lparr>mAddrs := url, available := fmupd i True (available m),
      msize := msize m + 1, Neibors := Neibors m @ [i]\<rparr>"
    by (auto simp: Addmember_def split: option.splits)
  with ok False show ?thesis by (simp add: members_ok_def)
qed

lemma delete_loop_absent: "x \<notin> set vs \<Longrightarrow> delete_loop x i vs m = Ret m"
  by (induction vs arbitrary: i) auto

lemma delete_loop_skip:
  "x \<notin> set us \<Longrightarrow> delete_loop x i (us @ vs) m = delete_loop x (i + length us) vs m"
  by (induction us arbitrary: i) auto

lemma Member_Delete_absent: "x \<notin> set (Neibors m) \<Longrightarrow> Member_Delete x m = Ret m"
  by (simp add: Member_Delete_def delete_loop_absent)

lemma Member_Delete_present:
  assumes "distinct (Neibors m)" "Neibors m = us @ x # vs"
  shows "Member_Delete x m =
    Ret (m\<lparr>Neibors := us @ vs, msize := msize m - 1, available := fmupd x False (available m), mAddrs := []\<rparr>)"
proof -
  have "x \<notin> set us" "x \<notin> set vs" using assms by auto
  moreover have "Member_Delete x m = delete_loop x 0 (us @ x # vs) m"
    by (simp add: Member_Delete_def assms(2))
  ultimately show ?thesis
    using delete_loop_skip [of x us 0 "x # vs" m] by (simp add: assms(2) delete_loop_absent)
qed

text \<open>
  Deleting a node from a well-formed list never panics, keeps the list well formed, and
  removes exactly that node, the others staying in their order.
\<close>

theorem Member_Delete_correct:
  assumes "members_ok m"
  shows "\<exists>m'. Member_Delete x m = Ret m' \<and> members_ok m' \<and>
           Neibors m' = filter (\<lambda>y. y \<noteq> x) (Neibors m)"
proof (cases "x \<in> set (Neibors m)")
  case False
  with assms show ?thesis by (simp add: Member_Delete_absent filter_absent)
next
  case True
  then obtain us vs where split: "Neibors m = us @ x # vs" by (meson split_list)
  have d: "distinct (Neibors m)" using assms by (simp add: members_ok_def)
  then have "x \<notin> set us" "x \<notin> set vs" using split by auto
  then have "filter (\<lambda>y. y \<noteq> x) (us @ x # vs) = us @ vs" by (simp add: filter_absent)
  moreover define m' where "m' = m\<lparr>Neibors := us @ vs, msize := msize m - 1,
      available := fmupd x False (available m), mAddrs := []\<rparr>"
  moreover have "members_ok m'"
    using assms \<open>x \<notin> set us\<close> \<open>x \<notin> set vs\<close> by (simp add: members_ok_def split m'_def)
  moreover have "Neibors m' = us @ vs" by (simp add: m'_def)
  ultimately show ?thesis
    using Member_Delete_present [OF d split] split by auto
qed

theorem Member_Delete_correct_witness:
  "\<exists>m'. Member_Delete ''1.2''
      (NewMember\<lparr>Neibors := [''1.1'', ''1.2'', ''1.3''], msize := 3,
         available := fmupd ''1.1'' True (fmupd ''1.2'' True (fmupd ''1.3'' True fmempty))\<rparr>) = Ret m' \<and>
    Neibors m' = [''1.1'', ''1.3'']"
proof -
  let ?m = "NewMember\<lparr>Neibors := [''1.1'', ''1.2'', ''1.3''], msize := 3,
         available := fmupd ''1.1'' True (fmupd ''1.2'' True (fmupd ''1.3'' True fmempty))\<rparr>"
  have "members_ok ?m" by (auto simp: members_ok_def)
  then obtain m' where "Member_Delete ''1.2'' ?m = Ret m'"
    "Neibors m' = filter (\<lambda>y. y \<noteq> ''1.2'') (Neibors ?m)"
    using Member_Delete_correct by blast
  then show ?thesis by simp
qed

end
