(* ===== verification/Consensus.thy ===== *)
theory Consensus
  imports Ballots Quorums Databases Peers
begin

text \<open>
  The replica's protocol (\<open>consensus/consensus.go\<close>, \<open>consensus/msg.go\<close>, \<open>consensus/replica.go\<close>)
  with the messages of \<open>message.go\<close> it uses. A handler takes the replica's state and a message
  and returns the new state with the events it caused, in order: messages broadcast to the
  peers, commands applied to the database, replies sent to a client's channel.

  A request's reply channel is a number, \<open>None\<close> being the nil channel of a request that came
  without one. What the model leaves out: debug output, the \<open>timestamp\<close> of an entry (written, never read),
  the unused functions \<open>Q1\<close> and \<open>Q2\<close>, the mutex (one goroutine calls all handlers), and
  \<open>GetMD5Hash\<close> (never called). A broadcast carries the map \<open>p.l\<close> as it is at the call: the
  transport encodes it. For the votes that \<open>exec\<close> broadcasts the code hands the map itself to the
  socket and goes on deleting from it, a data race with the transport that this leaves out. Loops
  over maps take the order in which they meet the keys; a key
  deleted during the loop before it is met is skipped, as in Go.
\<close>

section \<open>Messages\<close>

record Request =
  rCommand :: Command
  rProperties :: "(string, string) gomap"
  rTimestamp :: int
  rNodeID :: gid
  rc :: "nat option"
  rError :: "string option"

record Reply =
  yCommand :: Command
  yValue :: Value
  yProperties :: "(string, string) gomap"
  yTimestamp :: int
  yErr :: "string option"

record CommandBallot =
  cbCommand :: Command
  cbSlot :: int
  cbId :: gid

record Propose_msg =
  pBallot :: Ballot
  pRequest :: Request
  pCommand :: Command
  pSlot :: int
  pID :: gid
  pLeader :: bool

record Vote_msg =
  vSlot :: int
  vId :: gid
  vL :: "(int, CommandBallot) gomap"

datatype Message = MPropose Propose_msg | MVote Vote_msg

datatype Event =
    Broadcast Message
  | Applied int Command
  | SendReply Request Reply

text \<open>Zero values, where a composite literal leaves a field out.\<close>

definition zero_command :: Command where
  "zero_command = \<lparr> Key = 0, Value = None, ClientID = [], CommandID = 0, Counter = 0 \<rparr>"

definition zero_request :: Request where
  "zero_request =
     \<lparr> rCommand = zero_command, rProperties = fmempty, rTimestamp = 0, rNodeID = [], rc = None,
       rError = None \<rparr>"

section \<open>State\<close>

record entry =
  eballot :: Ballot
  commit :: bool
  request :: "Request option"
  ecommand :: Command
  equorum :: Quorum
  received :: bool
  Voted :: bool
  leader :: bool
  eSlot :: int

record Consensus =
  cid :: gid
  db :: database
  log :: "(int, entry) gomap"
  execute :: int
  active :: bool
  ballot :: Ballot
  slot :: int
  quorum :: Quorum
  requests :: "Request list"
  l :: "(int, CommandBallot) gomap"
  Flag :: bool
  count :: int
  cCounter :: int
  flag2 :: int
  Member :: Memberlist

definition NewConsensus :: "Config \<Rightarrow> gid \<Rightarrow> Consensus" where
  "NewConsensus cfg n =
     \<lparr> cid = n, db = NewDatabase cfg, log = fmempty, execute = 0, active = False, ballot = 0,
       slot = - 1, quorum = NewQuorum, requests = [], l = fmempty, Flag = False, count = - 1,
       cCounter = - 1, flag2 = 0, Member = NewMember \<rparr>"

section \<open>Executing committed entries\<close>

definition reply_events :: "entry \<Rightarrow> Value \<Rightarrow> Event list" where
  "reply_events e v =
     (case request e of
        None \<Rightarrow> []
      | Some r \<Rightarrow>
          if leader e
          then [SendReply r \<lparr> yCommand = ecommand e, yValue = v, yProperties = fmempty,
                                yTimestamp = 0, yErr = None \<rparr>]
          else [])"

function exec :: "Config \<Rightarrow> Consensus \<Rightarrow> Consensus \<times> Event list" where
  "exec cfg p =
     (case fmlookup (log p) (execute p) of
        None \<Rightarrow> (p, [])
      | Some e \<Rightarrow>
          if \<not> commit e then (p, [])
          else if \<not> Voted e \<and> Size (equorum e) \<ge> Total cfg
          then (p\<lparr>log := fmupd (execute p) (e\<lparr>equorum := Quorum_Reset (equorum e)\<rparr>) (log p)\<rparr>,
                [Broadcast (MVote \<lparr> vSlot = execute p, vId = cid p, vL = l p \<rparr>)])
          else let (v, d) = Execute (db p) (ecommand e);
                   (p', evs) = exec cfg (p\<lparr>db := d, log := fmdrop (execute p) (log p),
                                          l := fmdrop (execute p) (l p), execute := execute p + 1\<rparr>)
               in (p', Applied (execute p) (ecommand e) # reply_events e v @ evs))"
  by pat_completeness auto
termination
  by (relation "measure (\<lambda>(cfg, p). len_map (log p))") (auto simp: len_map_drop_less)

declare exec.simps [simp del]

text \<open>
  One iteration that applies the entry \<open>e\<close> of slot \<open>p.execute\<close>, and the three ways the loop
  ends; \<open>exec_rule\<close> is the induction the proofs about \<open>exec\<close> use.
\<close>

definition exec_next :: "entry \<Rightarrow> Consensus \<Rightarrow> Consensus" where
  "exec_next e p =
     p\<lparr>db := snd (Execute (db p) (ecommand e)), log := fmdrop (execute p) (log p),
       l := fmdrop (execute p) (l p), execute := execute p + 1\<rparr>"

definition exec_reset :: "entry \<Rightarrow> Consensus \<Rightarrow> Consensus" where
  "exec_reset e p =
     p\<lparr>log := fmupd (execute p) (e\<lparr>equorum := Quorum_Reset (equorum e)\<rparr>) (log p)\<rparr>"

definition vote_owed :: "Config \<Rightarrow> entry \<Rightarrow> bool" where
  "vote_owed cfg e \<longleftrightarrow> \<not> Voted e \<and> Size (equorum e) \<ge> Total cfg"

lemma exec_next_simps [simp, frame_simps]:
  "cid (exec_next e p) = cid p" "execute (exec_next e p) = execute p + 1"
  "log (exec_next e p) = fmdrop (execute p) (log p)" "l (exec_next e p) = fmdrop (execute p) (l p)"
  "db (exec_next e p) = snd (Execute (db p) (ecommand e))" "flag2 (exec_next e p) = flag2 p"
  "count (exec_next e p) = count p" "ballot (exec_next e p) = ballot p"
  by (simp_all add: exec_next_def)

lemma exec_reset_simps [simp, frame_simps]:
  "cid (exec_reset e p) = cid p" "execute (exec_reset e p) = execute p" "l (exec_reset e p) = l p"
  "log (exec_reset e p) = fmupd (execute p) (e\<lparr>equorum := Quorum_Reset (equorum e)\<rparr>) (log p)"
  "db (exec_reset e p) = db p" "flag2 (exec_reset e p) = flag2 p"
  "count (exec_reset e p) = count p" "ballot (exec_reset e p) = ballot p"
  by (simp_all add: exec_reset_def)

lemma exec_missing: "fmlookup (log p) (execute p) = None \<Longrightarrow> exec cfg p = (p, [])"
  by (simp add: exec.simps [of cfg p])

lemma exec_uncommitted:
  "fmlookup (log p) (execute p) = Some e \<Longrightarrow> \<not> commit e \<Longrightarrow> exec cfg p = (p, [])"
  by (simp add: exec.simps [of cfg p])

lemma exec_blocked:
  "fmlookup (log p) (execute p) = Some e \<Longrightarrow> commit e \<Longrightarrow> vote_owed cfg e \<Longrightarrow>
     exec cfg p = (exec_reset e p,
       [Broadcast (MVote \<lparr> vSlot = execute p, vId = cid p, vL = l p \<rparr>)])"
  by (simp add: exec.simps [of cfg p] vote_owed_def exec_reset_def)

lemma exec_apply:
  "fmlookup (log p) (execute p) = Some e \<Longrightarrow> commit e \<Longrightarrow> \<not> vote_owed cfg e \<Longrightarrow>
     exec cfg p = (fst (exec cfg (exec_next e p)),
       Applied (execute p) (ecommand e) # reply_events e (fst (Execute (db p) (ecommand e))) @
       snd (exec cfg (exec_next e p)))"
  by (subst exec.simps) (auto simp: vote_owed_def exec_next_def Let_def split_beta)

lemmas exec_unfold = exec_missing exec_uncommitted exec_blocked exec_apply

lemma exec_rule [case_names missing uncommitted blocked applies]:
  assumes "\<And>p. fmlookup (log p) (execute p) = None \<Longrightarrow> Q p (p, [])"
    and "\<And>p e. fmlookup (log p) (execute p) = Some e \<Longrightarrow> \<not> commit e \<Longrightarrow> Q p (p, [])"
    and "\<And>p e. fmlookup (log p) (execute p) = Some e \<Longrightarrow> commit e \<Longrightarrow> vote_owed cfg e \<Longrightarrow>
           Q p (exec_reset e p, [Broadcast (MVote \<lparr> vSlot = execute p, vId = cid p, vL = l p \<rparr>)])"
    and "\<And>p e p' evs. fmlookup (log p) (execute p) = Some e \<Longrightarrow> commit e \<Longrightarrow> \<not> vote_owed cfg e \<Longrightarrow>
           Q (exec_next e p) (p', evs) \<Longrightarrow>
           Q p (p', Applied (execute p) (ecommand e) #
                    reply_events e (fst (Execute (db p) (ecommand e))) @ evs)"
  shows "Q p (exec cfg p)"
proof (induction "len_map (log p)" arbitrary: p rule: less_induct)
  case less
  show ?case
  proof (cases "fmlookup (log p) (execute p)")
    case None
    then show ?thesis by (simp add: exec_missing assms(1))
  next
    case (Some e)
    then have "Q (exec_next e p) (exec cfg (exec_next e p))"
      by (intro less) (simp add: len_map_drop_less)
    then have "Q (exec_next e p) (fst (exec cfg (exec_next e p)), snd (exec cfg (exec_next e p)))"
      by simp
    with Some show ?thesis
      by (cases "commit e"; cases "vote_owed cfg e")
        (simp_all only: exec_unfold assms(2-4) not_False_eq_True)
  qed
qed

section \<open>Proposing a request\<close>

definition Propose :: "Request \<Rightarrow> Consensus \<Rightarrow> Consensus \<times> Event list" where
  "Propose r p =
     (let e = \<lparr> eballot = ballot p, commit = False, request = Some r, ecommand = rCommand r,
                equorum = NewQuorum, received = False, Voted = True, leader = True, eSlot = 0 \<rparr>;
          p1 = p\<lparr>log := fmupd (slot p) e (log p)\<rparr>;
          p2 = p1\<lparr>l := fmupd (slot p1) \<lparr> cbCommand = rCommand r, cbSlot = slot p1, cbId = cid p1 \<rparr> (l p1),
                  count := count p1 + 1\<rparr>
      in (p2, [Broadcast (MPropose \<lparr> pBallot = ballot p2, pRequest = zero_request,
                   pCommand = rCommand r, pSlot = slot p2, pID = cid p2, pLeader = leader e \<rparr>)]))"

definition HandleRequest :: "Request \<Rightarrow> Consensus \<Rightarrow> Consensus \<times> Event list" where
  "HandleRequest r p =
     (let p1 = p\<lparr>active := True, slot := Counter (rCommand r)\<rparr>;
          p2 = p1\<lparr>ballot := Ballot_Next (ballot p1) (cid p1)\<rparr>;
          p3 = p2\<lparr>requests := requests p2 @ [r]\<rparr>
      in Propose r p3)"

section \<open>Receiving a proposal\<close>

definition new_entry :: "Ballot \<Rightarrow> Command \<Rightarrow> int \<Rightarrow> entry" where
  "new_entry b c s =
     \<lparr> eballot = b, commit = False, request = None, ecommand = c, equorum = NewQuorum,
       received = False, Voted = False, leader = False, eSlot = s \<rparr>"

definition mark_voted :: "int \<Rightarrow> Consensus \<Rightarrow> Consensus" where
  "mark_voted ss p =
     (case fmlookup (log p) ss of
        None \<Rightarrow> p
      | Some e \<Rightarrow> p\<lparr>log := fmupd ss (e\<lparr>Voted := True\<rparr>) (log p),
                     flag2 := (if ss > flag2 p then ss else flag2 p)\<rparr>)"

text \<open>The body of the second loop: mark the entry, then execute if it is committed.\<close>

definition mark_exec :: "Config \<Rightarrow> int \<Rightarrow> Consensus \<Rightarrow> Consensus \<times> Event list" where
  "mark_exec cfg ss p =
     (case fmlookup (log p) ss of
        None \<Rightarrow> (p, [])
      | Some e \<Rightarrow> if commit e then exec cfg (mark_voted ss p) else (mark_voted ss p, []))"

fun mark_exec_loop :: "Config \<Rightarrow> int list \<Rightarrow> Consensus \<Rightarrow> Consensus \<times> Event list" where
  "mark_exec_loop cfg [] p = (p, [])"
| "mark_exec_loop cfg (ss # rest) p =
     (let (p1, ev1) = mark_exec cfg ss p; (p2, ev2) = mark_exec_loop cfg rest p1
      in (p2, ev1 @ ev2))"

definition record_proposal :: "Propose_msg \<Rightarrow> Consensus \<Rightarrow> Consensus" where
  "record_proposal m p =
     (let p1 = (if ballot p < pBallot m then p\<lparr>ballot := pBallot m\<rparr> else p);
          p2 = (case fmlookup (log p1) (pSlot m) of
                  None \<Rightarrow> p1\<lparr>log := fmupd (pSlot m) (new_entry (pBallot m) (pCommand m) (pSlot m)) (log p1),
                            count := count p1 + 1\<rparr>
                | Some _ \<Rightarrow> p1);
          p3 = (case fmlookup (log p2) (pSlot m) of
                  None \<Rightarrow> p2
                | Some e \<Rightarrow> p2\<lparr>log := fmupd (pSlot m) (e\<lparr>leader := False\<rparr>) (log p2)\<rparr>)
      in p3\<lparr>l := fmupd (pSlot m) \<lparr> cbCommand = pCommand m, cbSlot = pSlot m, cbId = cid p3 \<rparr> (l p3)\<rparr>)"

text \<open>The entry of the proposed slot, through the pointer the handler holds.\<close>

definition not_leader :: "int \<Rightarrow> Consensus \<Rightarrow> bool" where
  "not_leader s p = (case fmlookup (log p) s of None \<Rightarrow> False | Some e \<Rightarrow> leader e \<noteq> True)"

text \<open>
  The three parts of the handler after the proposal is recorded, with \<open>t\<close> the value the code
  computes before them: mark every entry as voted, broadcast the batch of pending votes, and
  catch up on committed entries.
\<close>

definition batch_ready :: "Config \<Rightarrow> int \<Rightarrow> Consensus \<Rightarrow> bool" where
  "batch_ready cfg t p \<longleftrightarrow> count p \<ge> t \<or> int (len_map (l p)) \<ge> Total cfg"

definition mark_phase :: "Config \<Rightarrow> int \<Rightarrow> int list \<Rightarrow> Consensus \<Rightarrow> Consensus" where
  "mark_phase cfg t ord p = (if batch_ready cfg t p then fold mark_voted ord p else p)"

definition vote_phase :: "Config \<Rightarrow> int \<Rightarrow> int \<Rightarrow> Consensus \<Rightarrow> Consensus \<times> Event list" where
  "vote_phase cfg t s p =
     (if batch_ready cfg t p
      then if not_leader s p \<and> int (len_map (l p)) \<ge> Total cfg
           then (p\<lparr>l := fmempty\<rparr>,
                 [Broadcast (MVote \<lparr> vSlot = s, vId = cid p, vL = l p \<rparr>)])
           else (p, [])
      else (p, []))"

definition exec_phase :: "Config \<Rightarrow> bool \<Rightarrow> int list \<Rightarrow> Consensus \<Rightarrow> Consensus \<times> Event list" where
  "exec_phase cfg flag ord p =
     (if int (len_map (l p)) \<ge> Total cfg \<or> flag
      then mark_exec_loop cfg ord (p\<lparr>Member := Member_Reset (Member p)\<rparr>)
      else (p, []))"

definition HandlePropose ::
    "Config \<Rightarrow> int list \<Rightarrow> int list \<Rightarrow> Propose_msg \<Rightarrow> Consensus \<Rightarrow> Consensus \<times> Event list" where
  "HandlePropose cfg ord1 ord2 m p =
     (let p1 = record_proposal m p;
          t = execute p1 + Total cfg;
          p2 = mark_phase cfg t ord1 p1;
          flag = (pSlot m < flag2 p2);
          (p3, ev3) = vote_phase cfg t (pSlot m) p2;
          (p4, ev4) = exec_phase cfg flag ord2 p3
      in (p4, ev3 @ ev4))"

section \<open>Receiving votes\<close>

definition vote_entry :: "Config \<Rightarrow> int \<Rightarrow> CommandBallot \<Rightarrow> Consensus \<Rightarrow> Consensus \<times> Event list" where
  "vote_entry cfg s sc p =
     (if fmlookup (log p) s = None \<and> execute p > s then (p, [])
      else let e0 = (case fmlookup (log p) s of None \<Rightarrow> new_entry 0 (cbCommand sc) 0 | Some e \<Rightarrow> e);
               e1 = e0\<lparr>equorum := ACK (equorum e0) (cbId sc)\<rparr>
           in if Majority cfg (equorum e1)
              then exec cfg (p\<lparr>log := fmupd s (e1\<lparr>commit := True, received := True\<rparr>) (log p)\<rparr>)
              else (p\<lparr>log := fmupd s e1 (log p)\<rparr>, []))"

fun vote_loop ::
    "Config \<Rightarrow> (int, CommandBallot) gomap \<Rightarrow> int list \<Rightarrow> Consensus \<Rightarrow> Consensus \<times> Event list" where
  "vote_loop cfg L [] p = (p, [])"
| "vote_loop cfg L (s # rest) p =
     (let (p1, ev1) = (case fmlookup L s of None \<Rightarrow> (p, []) | Some sc \<Rightarrow> vote_entry cfg s sc p);
          (p2, ev2) = vote_loop cfg L rest p1
      in (p2, ev1 @ ev2))"

definition HandleVote :: "Config \<Rightarrow> int list \<Rightarrow> Vote_msg \<Rightarrow> Consensus \<Rightarrow> Consensus \<times> Event list" where
  "HandleVote cfg ord m p = vote_loop cfg (vL m) ord p"

section \<open>The replica\<close>

text \<open>
  The handlers a replica registers, one per message type; the orders of the loops come with
  the input. An input whose orders do not enumerate the maps is no run of the code, so
  \<open>valid_input\<close> says when they do.
\<close>

datatype Input =
    InRequest Request
  | InPropose Propose_msg "int list" "int list"
  | InVote Vote_msg "int list"

fun handle :: "Config \<Rightarrow> Input \<Rightarrow> Consensus \<Rightarrow> Consensus \<times> Event list" where
  "handle cfg (InRequest r) p = HandleRequest r p"
| "handle cfg (InPropose m ord1 ord2) p = HandlePropose cfg ord1 ord2 m p"
| "handle cfg (InVote m ord) p = HandleVote cfg ord m p"

fun valid_input :: "Consensus \<Rightarrow> Input \<Rightarrow> bool" where
  "valid_input p (InRequest r) = True"
| "valid_input p (InPropose m ord1 ord2) =
     (range_order ord1 (log (record_proposal m p)) \<and> range_order ord2 (log (record_proposal m p)))"
| "valid_input p (InVote m ord) = range_order ord (vL m)"

fun handle_all :: "Config \<Rightarrow> Input list \<Rightarrow> Consensus \<Rightarrow> Consensus \<times> Event list" where
  "handle_all cfg [] p = (p, [])"
| "handle_all cfg (i # is) p =
     (let (p1, ev1) = handle cfg i p; (p2, ev2) = handle_all cfg is p1 in (p2, ev1 @ ev2))"

end
