(* ===== verification/Consensus_Order.thy ===== *)
theory Consensus_Order
  imports Consensus
begin

text \<open>
  What a replica does to its database, whatever messages it is fed. \<open>in_order\<close> relates the
  state before a piece of handler code, the events it caused and the state after: the slots
  applied are the consecutive ones between the two values of \<open>execute\<close>, and the database is the
  old one after exactly the applied commands. It is closed under sequencing, so each handler
  inherits it from its parts.
\<close>

lemma handle_all_append:
  "handle_all cfg (xs @ ys) p =
     (fst (handle_all cfg ys (fst (handle_all cfg xs p))),
      snd (handle_all cfg xs p) @ snd (handle_all cfg ys (fst (handle_all cfg xs p))))"
  by (induction xs arbitrary: p) (simp_all add: Let_def split_beta)

fun applied :: "Event list \<Rightarrow> (int \<times> Command) list" where
  "applied [] = []"
| "applied (Applied s c # evs) = (s, c) # applied evs"
| "applied (Broadcast m # evs) = applied evs"
| "applied (SendReply r y # evs) = applied evs"

lemma applied_append [simp]: "applied (xs @ ys) = applied xs @ applied ys"
  by (induction xs rule: applied.induct) auto

lemma applied_reply_events [simp]: "applied (reply_events e v) = []"
  by (simp add: reply_events_def split: option.splits)

definition in_order :: "Consensus \<Rightarrow> Event list \<Rightarrow> Consensus \<Rightarrow> bool" where
  "in_order p evs p' \<longleftrightarrow>
     cid p' = cid p \<and> execute p \<le> execute p' \<and>
     map fst (applied evs) = [execute p .. execute p' - 1] \<and>
     db p' = snd (run_all Execute (db p) (map snd (applied evs)))"

lemma in_orderI:
  "cid p' = cid p \<Longrightarrow> execute p' = execute p \<Longrightarrow> db p' = db p \<Longrightarrow> applied evs = [] \<Longrightarrow>
     in_order p evs p'"
  by (simp add: in_order_def)

lemma upto_split: "(a :: int) \<le> b \<Longrightarrow> b \<le> c \<Longrightarrow> [a .. b - 1] @ [b .. c - 1] = [a .. c - 1]"
  by (cases "a = b"; cases "b = c") (auto simp: upto_split1 [of a b "c - 1"])

lemma in_order_trans:
  assumes "in_order p evs1 p1" and "in_order p1 evs2 p2"
  shows "in_order p (evs1 @ evs2) p2"
  using assms by (simp add: in_order_def upto_split run_all_append Let_def split_beta)

lemma in_order_then:
  "(p1, evs1) = r1 \<Longrightarrow> in_order p evs1 p1 \<Longrightarrow> in_order p1 evs2 p2 \<Longrightarrow> in_order p (snd r1 @ evs2) p2"
  by (auto intro: in_order_trans)

lemma in_order_step:
  assumes "execute p1 = execute p + 1" "cid p1 = cid p" "db p1 = snd (Execute (db p) c)"
  shows "in_order p [Applied (execute p) c] p1"
  using assms by (simp add: in_order_def Let_def split_beta)

section \<open>Every handler applies slots in order\<close>

lemma in_order_exec: "in_order p (snd (exec cfg p)) (fst (exec cfg p))"
proof (rule exec_rule [where Q = "\<lambda>p r. in_order p (snd r) (fst r)"])
  fix p p' e evs
  assume IH: "in_order (exec_next e p) (snd (p', evs)) (fst (p', evs))"
  have "in_order p ([Applied (execute p) (ecommand e)] @ reply_events e v) (exec_next e p)" for v
    by (rule in_order_trans [where ?p1.0 = "exec_next e p"])
      (simp_all add: in_order_step in_orderI)
  from in_order_trans [OF this IH]
  show "in_order p (snd (p', Applied (execute p) (ecommand e) #
      reply_events e (fst (Execute (db p) (ecommand e))) @ evs))
    (fst (p', Applied (execute p) (ecommand e) #
      reply_events e (fst (Execute (db p) (ecommand e))) @ evs))"
    by simp
qed (simp_all add: in_orderI)

lemma in_order_exec_from:
  assumes "cid p1 = cid p" "execute p1 = execute p" "db p1 = db p"
  shows "in_order p (snd (exec cfg p1)) (fst (exec cfg p1))"
  using in_order_exec [of p1 cfg] assms by (simp add: in_order_def)

lemma mark_voted_simps [simp, frame_simps]:
  "cid (mark_voted ss p) = cid p" "execute (mark_voted ss p) = execute p"
  "db (mark_voted ss p) = db p" "l (mark_voted ss p) = l p" "count (mark_voted ss p) = count p"
  "fmdom' (log (mark_voted ss p)) = fmdom' (log p)" "ballot (mark_voted ss p) = ballot p"
  by (auto simp: mark_voted_def fmlookup_dom'_iff split: option.splits)

lemma fold_mark_voted_simps [simp, frame_simps]:
  "cid (fold mark_voted ord p) = cid p" "execute (fold mark_voted ord p) = execute p"
  "db (fold mark_voted ord p) = db p" "l (fold mark_voted ord p) = l p"
  "count (fold mark_voted ord p) = count p" "ballot (fold mark_voted ord p) = ballot p"
  "fmdom' (log (fold mark_voted ord p)) = fmdom' (log p)"
  by (induction ord arbitrary: p) simp_all

lemma record_proposal_simps [simp, frame_simps]:
  "cid (record_proposal m p) = cid p" "execute (record_proposal m p) = execute p"
  "db (record_proposal m p) = db p"
  by (simp_all add: record_proposal_def Let_def split: option.splits)

lemma in_order_mark_exec: "in_order p (snd (mark_exec cfg ss p)) (fst (mark_exec cfg ss p))"
  by (auto simp: mark_exec_def split: option.splits intro!: in_orderI in_order_exec_from)

lemma in_order_mark_exec_loop:
  "in_order p (snd (mark_exec_loop cfg ord p)) (fst (mark_exec_loop cfg ord p))"
proof (induction ord arbitrary: p)
  case (Cons ss ord)
  from in_order_trans [OF in_order_mark_exec Cons.IH] show ?case
    by (simp add: Let_def split_beta)
qed (simp add: in_orderI)

lemma in_order_HandleRequest: "in_order p (snd (HandleRequest r p)) (fst (HandleRequest r p))"
  by (simp add: HandleRequest_def Propose_def Let_def in_orderI)

lemma mark_phase_simps [simp, frame_simps]:
  "cid (mark_phase cfg t ord p) = cid p" "execute (mark_phase cfg t ord p) = execute p"
  "db (mark_phase cfg t ord p) = db p" "l (mark_phase cfg t ord p) = l p"
  "count (mark_phase cfg t ord p) = count p" "ballot (mark_phase cfg t ord p) = ballot p"
  "fmdom' (log (mark_phase cfg t ord p)) = fmdom' (log p)"
  by (simp_all add: mark_phase_def)

lemma in_order_vote_phase: "in_order p (snd (vote_phase cfg t s p)) (fst (vote_phase cfg t s p))"
  by (simp add: vote_phase_def in_orderI)

lemma in_order_exec_phase:
  "in_order p (snd (exec_phase cfg flag ord p)) (fst (exec_phase cfg flag ord p))"
  using in_order_mark_exec_loop [of "p\<lparr>Member := Member_Reset (Member p)\<rparr>" cfg ord]
  by (simp add: exec_phase_def in_orderI) (simp add: in_order_def)

lemma in_order_HandlePropose:
  "in_order p (snd (HandlePropose cfg ord1 ord2 m p)) (fst (HandlePropose cfg ord1 ord2 m p))"
proof -
  define p2 where "p2 = mark_phase cfg (execute (record_proposal m p) + Total cfg) ord1 (record_proposal m p)"
  have "in_order p [] p2" by (simp add: p2_def in_orderI)
  from in_order_trans [OF in_order_trans [OF this in_order_vote_phase] in_order_exec_phase]
  show ?thesis by (simp add: HandlePropose_def Let_def split_beta p2_def)
qed

lemma in_order_vote_entry: "in_order p (snd (vote_entry cfg s sc p)) (fst (vote_entry cfg s sc p))"
  by (simp add: vote_entry_def Let_def in_order_exec_from in_orderI)

lemma in_order_vote_loop: "in_order p (snd (vote_loop cfg L ord p)) (fst (vote_loop cfg L ord p))"
proof (induction ord arbitrary: p)
  case (Cons s ord)
  show ?case
  proof (cases "fmlookup L s")
    case None
    with Cons.IH [of p] show ?thesis by (simp add: Let_def split_beta)
  next
    case (Some sc)
    from in_order_trans [OF in_order_vote_entry Cons.IH] Some show ?thesis
      by (simp add: Let_def split_beta)
  qed
qed (simp add: in_orderI)

lemma in_order_handle: "in_order p (snd (handle cfg i p)) (fst (handle cfg i p))"
  by (cases i) (simp_all add: in_order_HandleRequest in_order_HandlePropose HandleVote_def
      in_order_vote_loop)

lemma in_order_handle_all: "in_order p (snd (handle_all cfg is p)) (fst (handle_all cfg is p))"
proof (induction "is" arbitrary: p)
  case (Cons i "is")
  from in_order_trans [OF in_order_handle Cons.IH] show ?case by (simp add: Let_def split_beta)
qed (simp add: in_orderI)

text \<open>
  C7: a replica fed any requests, proposals and votes whatsoever, also forged ones, applies
  the slots 0, 1, 2, ... each once and in order, and its database is the fresh one after
  exactly those commands.
\<close>

theorem replica_applies_in_order:
  "case handle_all cfg is (NewConsensus cfg n) of (p, evs) \<Rightarrow>
     map fst (applied evs) = [0 .. execute p - 1] \<and>
     db p = snd (run_all Execute (NewDatabase cfg) (map snd (applied evs)))"
  using in_order_handle_all [of "NewConsensus cfg n" cfg "is"]
  by (simp add: in_order_def split_beta NewConsensus_def)

end
