(* ===== verification/Consensus_Inv.thy ===== *)
theory Consensus_Inv
  imports Consensus_Order
begin

text \<open>
  What a replica knows and says. The invariant \<open>replica_ok\<close> has two parameters: which command is
  acceptable for which slot (\<open>ok\<close>: for instance, the one a client issued for it), and from which
  nodes votes for a slot came (\<open>V\<close>). It says that the log and the pending votes hold acceptable
  commands only, that an entry's quorum counts voters, and that a committed entry had a quorum
  of voters. The locale \<open>reactive\<close> is the contract between an event handler, an invariant of its
  state, the inputs it may be fed and the outputs it makes; the handlers of a replica are
  interpreted in it.
\<close>

section \<open>The contract of an event handler\<close>

fun react_all :: "('i \<Rightarrow> 's \<Rightarrow> 's \<times> 'e list) \<Rightarrow> 'i list \<Rightarrow> 's \<Rightarrow> 's \<times> 'e list" where
  "react_all react [] s = (s, [])"
| "react_all react (i # is) s =
     (let (s1, ev1) = react i s; (s2, ev2) = react_all react is s1 in (s2, ev1 @ ev2))"

locale reactive =
  fixes react :: "'i \<Rightarrow> 's \<Rightarrow> 's \<times> 'e list"
    and inv :: "'s \<Rightarrow> bool"
    and accepts :: "'i \<Rightarrow> bool"
    and emits :: "'e \<Rightarrow> bool"
  assumes keeps: "inv s \<Longrightarrow> accepts i \<Longrightarrow> inv (fst (react i s))"
    and says: "inv s \<Longrightarrow> accepts i \<Longrightarrow> list_all emits (snd (react i s))"
begin

lemma all_keeps_says:
  "inv s \<Longrightarrow> list_all accepts is \<Longrightarrow>
     inv (fst (react_all react is s)) \<and> list_all emits (snd (react_all react is s))"
proof (induction "is" arbitrary: s)
  case (Cons i "is")
  then have "inv (fst (react i s))" "list_all emits (snd (react i s))"
    by (simp_all add: keeps says)
  with Cons show ?case by (simp add: Let_def split_beta)
qed simp

end

section \<open>The invariant\<close>

definition quorate :: "Config \<Rightarrow> (int \<Rightarrow> gid set) \<Rightarrow> int \<Rightarrow> bool" where
  "quorate cfg V s \<longleftrightarrow> (\<exists>A. A \<subseteq> V s \<and> finite A \<and> go_div (cn cfg) 2 \<le> int (card A))"

definition entry_ok ::
    "Config \<Rightarrow> (int \<Rightarrow> Command \<Rightarrow> bool) \<Rightarrow> (int \<Rightarrow> gid set) \<Rightarrow> int \<Rightarrow> entry \<Rightarrow> bool" where
  "entry_ok cfg ok V s e \<longleftrightarrow>
     ok s (ecommand e) \<and> quorum_ok (equorum e) \<and> acked (equorum e) \<subseteq> V s \<and>
     (commit e \<longrightarrow> quorate cfg V s) \<and> (\<forall>r. request e = Some r \<longrightarrow> rCommand r = ecommand e)"

definition ballots_ok :: "(int \<Rightarrow> Command \<Rightarrow> bool) \<Rightarrow> gid \<Rightarrow> (int, CommandBallot) gomap \<Rightarrow> bool" where
  "ballots_ok ok n L \<longleftrightarrow>
     (\<forall>s cb. fmlookup L s = Some cb \<longrightarrow> ok s (cbCommand cb) \<and> cbId cb = n)"

definition replica_ok ::
    "Config \<Rightarrow> (int \<Rightarrow> Command \<Rightarrow> bool) \<Rightarrow> (int \<Rightarrow> gid set) \<Rightarrow> gid \<Rightarrow> Consensus \<Rightarrow> bool" where
  "replica_ok cfg ok V n p \<longleftrightarrow>
     cid p = n \<and> (\<forall>s e. fmlookup (log p) s = Some e \<longrightarrow> entry_ok cfg ok V s e) \<and>
     ballots_ok ok n (l p)"

fun event_ok ::
    "Config \<Rightarrow> (int \<Rightarrow> Command \<Rightarrow> bool) \<Rightarrow> (int \<Rightarrow> gid set) \<Rightarrow> gid \<Rightarrow> Event \<Rightarrow> bool" where
  "event_ok cfg ok V n (Broadcast (MPropose m)) = (ok (pSlot m) (pCommand m) \<and> pID m = n)"
| "event_ok cfg ok V n (Broadcast (MVote v)) = (vId v = n \<and> ballots_ok ok n (vL v))"
| "event_ok cfg ok V n (Applied s c) = (ok s c \<and> quorate cfg V s)"
| "event_ok cfg ok V n (SendReply r y) = (yCommand y = rCommand r)"

fun input_ok :: "(int \<Rightarrow> Command \<Rightarrow> bool) \<Rightarrow> (int \<Rightarrow> gid set) \<Rightarrow> Input \<Rightarrow> bool" where
  "input_ok ok V (InRequest r) = ok (Counter (rCommand r)) (rCommand r)"
| "input_ok ok V (InPropose m ord1 ord2) = ok (pSlot m) (pCommand m)"
| "input_ok ok V (InVote v ord) =
     (\<forall>s cb. fmlookup (vL v) s = Some cb \<longrightarrow> ok s (cbCommand cb) \<and> cbId cb \<in> V s)"

text \<open>What a handler must guarantee, as one predicate on its result.\<close>

definition good ::
    "Config \<Rightarrow> (int \<Rightarrow> Command \<Rightarrow> bool) \<Rightarrow> (int \<Rightarrow> gid set) \<Rightarrow> gid \<Rightarrow> Consensus \<times> Event list \<Rightarrow> bool" where
  "good cfg ok V n r \<longleftrightarrow> replica_ok cfg ok V n (fst r) \<and> list_all (event_ok cfg ok V n) (snd r)"

lemma good_silent [simp]: "good cfg ok V n (p, []) \<longleftrightarrow> replica_ok cfg ok V n p"
  by (simp add: good_def)

lemma good_seq:
  "list_all (event_ok cfg ok V n) ev1 \<Longrightarrow> good cfg ok V n r \<Longrightarrow> good cfg ok V n (fst r, ev1 @ snd r)"
  by (simp add: good_def)

lemma ballots_ok_simps [simp]:
  "ballots_ok ok n fmempty"
  "ballots_ok ok n L \<Longrightarrow> ballots_ok ok n (fmdrop s L)"
  "ballots_ok ok n L \<Longrightarrow> ok s (cbCommand cb) \<Longrightarrow> cbId cb = n \<Longrightarrow> ballots_ok ok n (fmupd s cb L)"
  by (auto simp: ballots_ok_def)

lemma replica_ok_frame:
  "replica_ok cfg ok V n p \<Longrightarrow> cid q = cid p \<Longrightarrow> log q = log p \<Longrightarrow> ballots_ok ok n (l q) \<Longrightarrow>
     replica_ok cfg ok V n q"
  by (simp add: replica_ok_def)

lemma replica_ok_upd:
  "replica_ok cfg ok V n p \<Longrightarrow> entry_ok cfg ok V s e \<Longrightarrow>
     cid q = cid p \<Longrightarrow> log q = fmupd s e (log p) \<Longrightarrow> ballots_ok ok n (l q) \<Longrightarrow>
     replica_ok cfg ok V n q"
  by (auto simp: replica_ok_def)

lemma replica_ok_drop:
  "replica_ok cfg ok V n p \<Longrightarrow> cid q = cid p \<Longrightarrow> log q = fmdrop s (log p) \<Longrightarrow> ballots_ok ok n (l q) \<Longrightarrow>
     replica_ok cfg ok V n q"
  by (auto simp: replica_ok_def)

lemma replica_okD:
  assumes "replica_ok cfg ok V n p"
  shows "cid p = n" "ballots_ok ok n (l p)"
    "fmlookup (log p) s = Some e \<Longrightarrow> entry_ok cfg ok V s e"
  using assms by (simp_all add: replica_ok_def)

lemma replica_ok_new: "replica_ok cfg ok V n (NewConsensus cfg n)"
  by (simp add: replica_ok_def NewConsensus_def)

section \<open>Every handler keeps it\<close>

lemma reply_events_ok:
  "entry_ok cfg ok V s e \<Longrightarrow> list_all (event_ok cfg ok V n) (reply_events e v)"
  by (simp add: reply_events_def entry_ok_def split: option.splits)

lemma good_exec: "replica_ok cfg ok V n p \<Longrightarrow> good cfg ok V n (exec cfg p)"
proof (rule exec_rule [where Q = "\<lambda>p r. replica_ok cfg ok V n p \<longrightarrow> good cfg ok V n r", THEN mp])
  fix p :: Consensus and e
  assume e: "fmlookup (log p) (execute p) = Some e"
  show "replica_ok cfg ok V n p \<longrightarrow> good cfg ok V n
      (exec_reset e p, [Broadcast (MVote \<lparr> vSlot = execute p, vId = cid p, vL = l p \<rparr>)])"
  proof
    assume p: "replica_ok cfg ok V n p"
    have "entry_ok cfg ok V (execute p) (e\<lparr>equorum := Quorum_Reset (equorum e)\<rparr>)"
      using replica_okD(3) [OF p e] by (simp add: entry_ok_def)
    then have "replica_ok cfg ok V n (exec_reset e p)"
      using p by (auto intro: replica_ok_upd simp: replica_okD(2))
    with p show "good cfg ok V n
        (exec_reset e p, [Broadcast (MVote \<lparr> vSlot = execute p, vId = cid p, vL = l p \<rparr>)])"
      by (simp add: good_def replica_okD)
  qed
next
  fix p p' :: Consensus and e evs
  assume e: "fmlookup (log p) (execute p) = Some e" "commit e"
    and IH: "replica_ok cfg ok V n (exec_next e p) \<longrightarrow> good cfg ok V n (p', evs)"
  show "replica_ok cfg ok V n p \<longrightarrow> good cfg ok V n
      (p', Applied (execute p) (ecommand e) # reply_events e (fst (Execute (db p) (ecommand e))) @ evs)"
  proof
    assume p: "replica_ok cfg ok V n p"
    have "replica_ok cfg ok V n (exec_next e p)"
      by (rule replica_ok_drop [OF p]) (simp_all add: replica_okD(2) [OF p])
    with IH have "good cfg ok V n (p', evs)" by simp
    moreover have "event_ok cfg ok V n (Applied (execute p) (ecommand e))"
      using replica_okD(3) [OF p e(1)] e(2) by (simp add: entry_ok_def)
    ultimately show "good cfg ok V n
      (p', Applied (execute p) (ecommand e) # reply_events e (fst (Execute (db p) (ecommand e))) @ evs)"
      using reply_events_ok [OF replica_okD(3) [OF p e(1)]] by (simp add: good_def)
  qed
qed simp_all

lemma replica_ok_mark_voted: "replica_ok cfg ok V n p \<Longrightarrow> replica_ok cfg ok V n (mark_voted s p)"
proof (cases "fmlookup (log p) s")
  case None
  then show "replica_ok cfg ok V n p \<Longrightarrow> ?thesis" by (simp add: mark_voted_def)
next
  case (Some e)
  assume p: "replica_ok cfg ok V n p"
  have "entry_ok cfg ok V s (e\<lparr>Voted := True\<rparr>)"
    using replica_okD(3) [OF p Some] by (simp add: entry_ok_def)
  then show ?thesis
    by (rule replica_ok_upd [OF p]) (simp_all add: mark_voted_def Some replica_okD(2) [OF p])
qed

lemma replica_ok_fold_mark_voted:
  "replica_ok cfg ok V n p \<Longrightarrow> replica_ok cfg ok V n (fold mark_voted ord p)"
  by (induction ord arbitrary: p) (simp_all add: replica_ok_mark_voted)

lemma good_mark_exec: "replica_ok cfg ok V n p \<Longrightarrow> good cfg ok V n (mark_exec cfg s p)"
  by (simp add: mark_exec_def good_exec replica_ok_mark_voted split: option.splits)

lemma good_mark_exec_loop: "replica_ok cfg ok V n p \<Longrightarrow> good cfg ok V n (mark_exec_loop cfg ord p)"
proof (induction ord arbitrary: p)
  case (Cons s ord)
  have "good cfg ok V n (mark_exec cfg s p)" by (rule good_mark_exec) (rule Cons.prems)
  then show ?case
    using good_seq Cons.IH [of "fst (mark_exec cfg s p)"] by (auto simp: good_def Let_def split_beta)
qed simp

lemma good_HandleRequest:
  assumes p: "replica_ok cfg ok V n p" and "ok (Counter (rCommand r)) (rCommand r)"
  shows "good cfg ok V n (HandleRequest r p)"
proof -
  have "replica_ok cfg ok V n (fst (HandleRequest r p))"
    by (rule replica_ok_upd [OF p])
      (use assms replica_okD [OF p] in
        \<open>simp_all add: HandleRequest_def Propose_def Let_def entry_ok_def\<close>)
  then show ?thesis
    using assms replica_okD(1) [OF p]
    by (simp add: good_def) (simp add: HandleRequest_def Propose_def Let_def)
qed

lemma replica_ok_record_proposal:
  assumes p: "replica_ok cfg ok V n p" and "ok (pSlot m) (pCommand m)"
  shows "replica_ok cfg ok V n (record_proposal m p)"
proof -
  define e where "e = (case fmlookup (log p) (pSlot m) of
      None \<Rightarrow> new_entry (pBallot m) (pCommand m) (pSlot m) | Some e \<Rightarrow> e)\<lparr>leader := False\<rparr>"
  have "entry_ok cfg ok V (pSlot m) e"
    using assms replica_okD(3) [OF p, of "pSlot m"]
    by (auto simp: e_def entry_ok_def new_entry_def split: option.splits)
  moreover have "log (record_proposal m p) = fmupd (pSlot m) e (log p)"
    by (simp add: record_proposal_def e_def Let_def split: option.splits)
  moreover have "ballots_ok ok n (l (record_proposal m p))"
    using assms replica_okD [OF p]
    by (simp add: record_proposal_def Let_def split: option.splits)
  ultimately show ?thesis by (intro replica_ok_upd [OF p]) simp_all
qed

lemma good_vote_phase: "replica_ok cfg ok V n p \<Longrightarrow> good cfg ok V n (vote_phase cfg t s p)"
  using replica_okD(1,2) [of cfg ok V n p] replica_ok_frame [of cfg ok V n p "p\<lparr>l := fmempty\<rparr>"]
  by (simp add: vote_phase_def good_def)

lemma good_exec_phase: "replica_ok cfg ok V n p \<Longrightarrow> good cfg ok V n (exec_phase cfg flag ord p)"
proof -
  assume p: "replica_ok cfg ok V n p"
  have "replica_ok cfg ok V n (p\<lparr>Member := Member_Reset (Member p)\<rparr>)"
    by (rule replica_ok_frame [OF p]) (simp_all add: replica_okD(2) [OF p])
  then show ?thesis by (simp add: exec_phase_def good_mark_exec_loop p)
qed

lemma good_HandlePropose:
  assumes "replica_ok cfg ok V n p" and "ok (pSlot m) (pCommand m)"
  shows "good cfg ok V n (HandlePropose cfg ord1 ord2 m p)"
proof -
  define t where "t = execute (record_proposal m p) + Total cfg"
  define p2 where "p2 = mark_phase cfg t ord1 (record_proposal m p)"
  have "replica_ok cfg ok V n p2"
    using assms by (simp add: p2_def mark_phase_def replica_ok_fold_mark_voted replica_ok_record_proposal)
  then have v: "good cfg ok V n (vote_phase cfg t (pSlot m) p2)" by (rule good_vote_phase)
  then have "good cfg ok V n (exec_phase cfg flag ord2 (fst (vote_phase cfg t (pSlot m) p2)))" for flag
    by (intro good_exec_phase) (simp add: good_def)
  with v show ?thesis
    by (simp add: HandlePropose_def Let_def split_beta good_def p2_def t_def)
qed

lemma good_vote_entry:
  assumes p: "replica_ok cfg ok V n p" and "ok s (cbCommand sc)" "cbId sc \<in> V s"
  shows "good cfg ok V n (vote_entry cfg s sc p)"
proof (cases "fmlookup (log p) s = None \<and> execute p > s")
  case True
  with p show ?thesis by (simp add: vote_entry_def)
next
  case False
  define e0 where "e0 = (case fmlookup (log p) s of None \<Rightarrow> new_entry 0 (cbCommand sc) 0 | Some e \<Rightarrow> e)"
  define e1 where "e1 = e0\<lparr>equorum := ACK (equorum e0) (cbId sc)\<rparr>"
  have "entry_ok cfg ok V s e0"
    using assms replica_okD(3) [OF p, of s]
    by (auto simp: e0_def entry_ok_def new_entry_def split: option.splits)
  then have e1: "entry_ok cfg ok V s e1"
    using assms by (simp add: e1_def entry_ok_def quorum_ok_ACK)
  have upd: "replica_ok cfg ok V n (p\<lparr>log := fmupd s e (log p)\<rparr>)" if "entry_ok cfg ok V s e" for e
    by (rule replica_ok_upd [OF p that]) (simp_all add: replica_okD(2) [OF p])
  have "entry_ok cfg ok V s (e1\<lparr>commit := True, received := True\<rparr>)" if "Majority cfg (equorum e1)"
  proof -
    have "quorate cfg V s"
      using e1 that qs.ok_size [of "equorum e1"] finite_acked [of "equorum e1"]
      by (auto simp: entry_ok_def quorate_def Majority_def Size_def)
    with e1 show ?thesis by (simp add: entry_ok_def)
  qed
  then have "good cfg ok V n (exec cfg (p\<lparr>log := fmupd s (e1\<lparr>commit := True, received := True\<rparr>) (log p)\<rparr>))"
    if "Majority cfg (equorum e1)" using that good_exec upd by blast
  moreover have "vote_entry cfg s sc p =
    (if Majority cfg (equorum e1)
     then exec cfg (p\<lparr>log := fmupd s (e1\<lparr>commit := True, received := True\<rparr>) (log p)\<rparr>)
     else (p\<lparr>log := fmupd s e1 (log p)\<rparr>, []))"
    using False by (auto simp: vote_entry_def Let_def e0_def e1_def)
  ultimately show ?thesis using upd [OF e1] by simp
qed

lemma good_vote_loop:
  "replica_ok cfg ok V n p \<Longrightarrow>
   (\<forall>s cb. fmlookup L s = Some cb \<longrightarrow> ok s (cbCommand cb) \<and> cbId cb \<in> V s) \<Longrightarrow>
   good cfg ok V n (vote_loop cfg L ord p)"
proof (induction ord arbitrary: p)
  case (Cons s ord)
  define r where "r = (case fmlookup L s of None \<Rightarrow> (p, []) | Some sc \<Rightarrow> vote_entry cfg s sc p)"
  have "good cfg ok V n r"
    using Cons.prems by (auto simp: r_def good_vote_entry split: option.splits)
  then show ?case
    using good_seq Cons.IH [of "fst r"] Cons.prems(2)
    by (auto simp: good_def Let_def split_beta simp flip: r_def)
qed simp

lemma good_handle:
  "replica_ok cfg ok V n p \<Longrightarrow> input_ok ok V i \<Longrightarrow> good cfg ok V n (handle cfg i p)"
  by (cases i) (simp_all add: good_HandleRequest good_HandlePropose HandleVote_def good_vote_loop)

interpretation rep: reactive "handle cfg" "replica_ok cfg ok V n" "input_ok ok V" "event_ok cfg ok V n"
  for cfg ok V n
  by unfold_locales (use good_handle in \<open>simp_all add: good_def\<close>)

lemma handle_all_react: "handle_all cfg is p = react_all (handle cfg) is p"
  by (induction "is" arbitrary: p) (simp_all add: Let_def split_beta)

end
