(* ===== verification/Consensus_Props.thy ===== *)
theory Consensus_Props
  imports Consensus_Inv
begin

text \<open>
  Properties of one replica: what it applies was voted for and proposed; when \<open>exec\<close> stops; how
  the votes of several proposals are batched; and what the vote counting does not check.
\<close>

section \<open>Votes and proposals behind an applied command\<close>

text \<open>The nodes named in the votes for a slot among the inputs.\<close>

definition voters :: "Input list \<Rightarrow> int \<Rightarrow> gid set" where
  "voters is s = {cbId cb | v ord cb. InVote v ord \<in> set is \<and> fmlookup (vL v) s = Some cb}"

fun mentions :: "Input \<Rightarrow> int \<Rightarrow> Command \<Rightarrow> bool" where
  "mentions (InRequest r) s c \<longleftrightarrow> Counter (rCommand r) = s \<and> rCommand r = c"
| "mentions (InPropose m ord1 ord2) s c \<longleftrightarrow> pSlot m = s \<and> pCommand m = c"
| "mentions (InVote v ord) s c \<longleftrightarrow> (\<exists>cb. fmlookup (vL v) s = Some cb \<and> cbCommand cb = c)"

definition mentioned :: "Input list \<Rightarrow> int \<Rightarrow> Command \<Rightarrow> bool" where
  "mentioned is s c \<longleftrightarrow> (\<exists>i \<in> set is. mentions i s c)"

lemma inputs_accepted: "list_all (input_ok (mentioned is) (voters is)) is"
proof -
  have "input_ok (mentioned is) (voters is) i" if "i \<in> set is" for i
  proof (cases i)
    case (InRequest r)
    with that show ?thesis by (auto simp: mentioned_def intro!: bexI [of _ i])
  next
    case (InPropose m ord1 ord2)
    with that show ?thesis by (auto simp: mentioned_def intro!: bexI [of _ i])
  next
    case (InVote v ord)
    with that show ?thesis
      by (auto simp: mentioned_def voters_def intro!: bexI [of _ i])
  qed
  then show ?thesis by (simp add: list_all_iff)
qed

lemma event_ok_applied:
  "list_all (event_ok cfg ok V n) evs \<Longrightarrow> (s, c) \<in> set (applied evs) \<Longrightarrow> ok s c \<and> quorate cfg V s"
  by (induction evs rule: applied.induct) auto

text \<open>
  C14: whatever a replica is fed, a command it applies for a slot is one that a request, a
  proposal or a vote it received named for this slot, and votes for the slot under at least
  \<open>n / 2\<close> different node names reached it.
\<close>

theorem applied_was_voted:
  assumes "(s, c) \<in> set (applied (snd (handle_all cfg is (NewConsensus cfg n))))"
  shows "mentioned is s c \<and>
         (\<exists>A. A \<subseteq> voters is s \<and> finite A \<and> go_div (cn cfg) 2 \<le> int (card A))"
  using rep.all_keeps_says [OF replica_ok_new inputs_accepted, of cfg "is" n]
    event_ok_applied assms
  by (fastforce simp: quorate_def simp flip: handle_all_react)

section \<open>When execution stops\<close>

text \<open>
  \<open>exec\<close> always returns, and when it does the next slot has no entry, or an uncommitted
  one, or one this replica still owes its vote for: then the entry's quorum has been emptied and
  the last thing the replica did was to broadcast its pending votes for that slot.
\<close>

theorem exec_stops_because:
  "case exec cfg p of (p', evs) \<Rightarrow>
     (case fmlookup (log p') (execute p') of
        None \<Rightarrow> True
      | Some e \<Rightarrow> commit e \<longrightarrow>
          (\<not> Voted e \<and> acked (equorum e) = {} \<and> evs \<noteq> [] \<and>
           last evs = Broadcast (MVote \<lparr> vSlot = execute p', vId = cid p', vL = l p' \<rparr>)))"
  by (rule exec_rule [where Q = "\<lambda>p r. case r of (p', evs) \<Rightarrow>
     (case fmlookup (log p') (execute p') of
        None \<Rightarrow> True
      | Some e \<Rightarrow> commit e \<longrightarrow>
          (\<not> Voted e \<and> acked (equorum e) = {} \<and> evs \<noteq> [] \<and>
           last evs = Broadcast (MVote \<lparr> vSlot = execute p', vId = cid p', vL = l p' \<rparr>)))"])
    (auto simp: vote_owed_def split: option.splits)

definition blocked_replica :: Consensus where
  "blocked_replica =
     (NewConsensus MakeDefaultConfig ''1.1'')\<lparr>log := fmupd 0
        ((new_entry 0 (example_command 1 (Some [1])) 0)\<lparr>commit := True, equorum := ACK NewQuorum ''1.2''\<rparr>)
        fmempty\<rparr>"

theorem exec_stops_because_witness:
  "\<exists>p' evs e. exec MakeDefaultConfig blocked_replica = (p', evs) \<and>
     fmlookup (log p') 0 = Some e \<and> commit e \<and> acked (equorum e) = {} \<and>
     last evs = Broadcast (MVote \<lparr> vSlot = 0, vId = ''1.1'', vL = fmempty \<rparr>)"
proof -
  let ?e = "(new_entry 0 (example_command 1 (Some [1])) 0)\<lparr>commit := True, equorum := ACK NewQuorum ''1.2''\<rparr>"
  have e: "fmlookup (log blocked_replica) (execute blocked_replica) = Some ?e"
    by (simp add: blocked_replica_def NewConsensus_def)
  have "vote_owed MakeDefaultConfig ?e"
    using Size_ACKs [of "[''1.2'']"]
    by (simp add: vote_owed_def new_entry_def Total_def MakeDefaultConfig_def DefaultBConfig_def)
  then have x: "exec MakeDefaultConfig blocked_replica = (exec_reset ?e blocked_replica,
      [Broadcast (MVote \<lparr> vSlot = 0, vId = ''1.1'', vL = fmempty \<rparr>)])"
    by (subst exec_blocked [OF e]) (simp_all add: blocked_replica_def NewConsensus_def)
  have "fmlookup (log (exec_reset ?e blocked_replica)) 0 =
      Some (?e\<lparr>equorum := Quorum_Reset (equorum ?e)\<rparr>)" "execute (exec_reset ?e blocked_replica) = 0"
    by (simp_all add: blocked_replica_def NewConsensus_def)
  with exec_stops_because [of MakeDefaultConfig blocked_replica] show ?thesis
    unfolding x by (simp add: new_entry_def)
qed

text \<open>The loop invariant behind the next property.\<close>

lemma exec_catches_up_aux:
  "(\<forall>s. execute p \<le> s \<and> s < k \<longrightarrow>
      (\<exists>e. fmlookup (log p) s = Some e \<and> commit e \<and> Voted e)) \<longrightarrow>
   k \<le> execute (fst (exec cfg p))"
proof (rule exec_rule [where Q = "\<lambda>p r. (\<forall>s. execute p \<le> s \<and> s < k \<longrightarrow>
      (\<exists>e. fmlookup (log p) s = Some e \<and> commit e \<and> Voted e)) \<longrightarrow> k \<le> execute (fst r)"])
  fix p :: Consensus and e
  assume "fmlookup (log p) (execute p) = Some e" "vote_owed cfg e"
  then show "(\<forall>s. execute p \<le> s \<and> s < k \<longrightarrow>
      (\<exists>e. fmlookup (log p) s = Some e \<and> commit e \<and> Voted e)) \<longrightarrow>
      k \<le> execute (fst (exec_reset e p,
        [Broadcast (MVote \<lparr> vSlot = execute p, vId = cid p, vL = l p \<rparr>)]))"
    by (cases "execute p < k") (auto simp: vote_owed_def)
next
  fix p p' :: Consensus and e and evs :: "Event list"
  assume IH: "(\<forall>s. execute (exec_next e p) \<le> s \<and> s < k \<longrightarrow>
      (\<exists>e'. fmlookup (log (exec_next e p)) s = Some e' \<and> commit e' \<and> Voted e')) \<longrightarrow>
      k \<le> execute (fst (p', evs))"
  then show "(\<forall>s. execute p \<le> s \<and> s < k \<longrightarrow>
      (\<exists>e. fmlookup (log p) s = Some e \<and> commit e \<and> Voted e)) \<longrightarrow>
      k \<le> execute (fst (p', Applied (execute p) (ecommand e) #
        reply_events e (fst (Execute (db p) (ecommand e))) @ evs))"
    by auto
qed (force simp: not_le)+

text \<open>
  Entries that are committed and voted for are all executed: if every slot from
  \<open>execute\<close> up to \<open>k\<close> holds one, \<open>exec\<close> applies them all.
\<close>

theorem exec_catches_up:
  assumes "\<And>s. execute p \<le> s \<Longrightarrow> s < k \<Longrightarrow>
             \<exists>e. fmlookup (log p) s = Some e \<and> commit e \<and> Voted e"
  shows "k \<le> execute (fst (exec cfg p))"
  using exec_catches_up_aux assms by blast

definition sample_entry :: "int \<Rightarrow> entry" where
  "sample_entry s =
     (new_entry 0 (example_command s (Some [1])) s)\<lparr>commit := True, Voted := True\<rparr>"

theorem exec_catches_up_witness:
  "2 \<le> execute (fst (exec MakeDefaultConfig
     ((NewConsensus MakeDefaultConfig ''1.1'')
        \<lparr>log := fmupd 0 (sample_entry 0) (fmupd 1 (sample_entry 1) fmempty)\<rparr>)))"
proof (rule exec_catches_up)
  fix s :: int
  assume "execute ((NewConsensus MakeDefaultConfig ''1.1'')
        \<lparr>log := fmupd 0 (sample_entry 0) (fmupd 1 (sample_entry 1) fmempty)\<rparr>) \<le> s" "s < 2"
  then have "s = 0 \<or> s = 1" by (auto simp: NewConsensus_def)
  then show "\<exists>e. fmlookup (log ((NewConsensus MakeDefaultConfig ''1.1'')
        \<lparr>log := fmupd 0 (sample_entry 0) (fmupd 1 (sample_entry 1) fmempty)\<rparr>)) s = Some e \<and>
      commit e \<and> Voted e"
    by (auto simp: sample_entry_def)
qed

section \<open>Batching of votes\<close>

text \<open>The pending votes after some slots were executed.\<close>

definition unexecuted :: "Consensus \<Rightarrow> Consensus \<Rightarrow> (int, CommandBallot) gomap" where
  "unexecuted p p' = fmfilter (\<lambda>s. \<not> (execute p \<le> s \<and> s < execute p')) (l p)"

definition drops_executed :: "Consensus \<Rightarrow> Consensus \<Rightarrow> bool" where
  "drops_executed p p' \<longleftrightarrow> execute p \<le> execute p' \<and> l p' = unexecuted p p'"

lemma drops_executed_refl: "execute p' = execute p \<Longrightarrow> l p' = l p \<Longrightarrow> drops_executed p p'"
  by (auto simp: drops_executed_def unexecuted_def intro!: fmap_ext)

lemma drops_executed_trans: "drops_executed p q \<Longrightarrow> drops_executed q r \<Longrightarrow> drops_executed p r"
  by (auto simp: drops_executed_def unexecuted_def intro!: fmap_ext)

lemma exec_drops: "drops_executed p (fst (exec cfg p))"
proof (rule exec_rule [where Q = "\<lambda>p r. drops_executed p (fst r)"])
  fix p :: Consensus and e and p' :: Consensus and evs :: "Event list"
  assume "drops_executed (exec_next e p) (fst (p', evs))"
  moreover have "drops_executed p (exec_next e p)"
    by (auto simp: drops_executed_def unexecuted_def exec_next_def fmlookup_drop intro!: fmap_ext)
  ultimately show "drops_executed p (fst (p', Applied (execute p) (ecommand e) #
      reply_events e (fst (Execute (db p) (ecommand e))) @ evs))"
    using drops_executed_trans by fastforce
qed (simp_all add: drops_executed_refl)

lemma mark_voted_drops: "drops_executed p (mark_voted s p)"
  by (rule drops_executed_refl) (simp_all add: mark_voted_def split: option.splits)

lemma mark_exec_drops: "drops_executed p (fst (mark_exec cfg s p))"
  using drops_executed_trans [OF mark_voted_drops [of p s] exec_drops [of _ cfg]] mark_voted_drops [of p s]
  by (auto simp: mark_exec_def drops_executed_refl split: option.splits)

lemma mark_exec_loop_drops: "drops_executed p (fst (mark_exec_loop cfg ord p))"
proof (induction ord arbitrary: p)
  case (Cons s ord)
  from drops_executed_trans [OF mark_exec_drops Cons.IH] show ?case
    by (simp add: Let_def split_beta)
qed (simp add: drops_executed_refl)

lemma exec_phase_drops: "drops_executed p (fst (exec_phase cfg flag ord p))"
proof -
  have "drops_executed p (p\<lparr>Member := Member_Reset (Member p)\<rparr>)" by (rule drops_executed_refl) simp_all
  from drops_executed_trans [OF this mark_exec_loop_drops [of _ cfg ord]] show ?thesis
    by (simp add: exec_phase_def drops_executed_refl)
qed

lemma len_map_mono: "fmdom' L \<subseteq> fmdom' L' \<Longrightarrow> len_map L \<le> len_map L'"
  by (simp add: len_map_def card_mono)

lemma not_leader_record:
  "not_leader (pSlot m) (record_proposal m p)"
  by (simp add: not_leader_def record_proposal_def Let_def split: option.splits)

lemma not_leader_mark_voted: "not_leader s (mark_voted ss p) = not_leader s p"
  by (simp add: not_leader_def mark_voted_def split: option.splits)

lemma not_leader_mark_phase: "not_leader s (mark_phase cfg t ord p) = not_leader s p"
proof -
  have "not_leader s (fold mark_voted ord q) = not_leader s q" for q
    by (induction ord arbitrary: q) (simp_all add: not_leader_mark_voted)
  then show ?thesis by (simp add: mark_phase_def)
qed

lemma l_record_proposal:
  "l (record_proposal m p) =
     fmupd (pSlot m) \<lparr> cbCommand = pCommand m, cbSlot = pSlot m, cbId = cid p \<rparr> (l p)"
  by (simp add: record_proposal_def Let_def split: option.splits)

text \<open>
  C15: one vote message carries the votes for a whole batch. Handling a proposal adds it to the
  pending votes; as soon as \<open>Total\<close> of them are pending, the first thing the replica does is to
  broadcast them all in one message and forget them; before that it keeps exactly those for the slots that
  handling the proposal has not executed. Afterwards fewer than \<open>Total\<close> are pending, for a positive \<open>Total\<close>.
\<close>

theorem HandlePropose_batches:
  assumes "0 < Total cfg"
  shows "case HandlePropose cfg ord1 ord2 m p of (p', evs) \<Rightarrow>
     int (len_map (l p')) < Total cfg \<and>
     (let L = fmupd (pSlot m) \<lparr> cbCommand = pCommand m, cbSlot = pSlot m, cbId = cid p \<rparr> (l p)
      in if Total cfg \<le> int (len_map L)
         then l p' = fmempty \<and> evs \<noteq> [] \<and>
              hd evs = Broadcast (MVote \<lparr> vSlot = pSlot m, vId = cid p, vL = L \<rparr>)
         else l p' = fmfilter (\<lambda>s. \<not> (execute p \<le> s \<and> s < execute p')) L)"
proof -
  define p1 where "p1 = record_proposal m p"
  define p2 where "p2 = mark_phase cfg (execute p1 + Total cfg) ord1 p1"
  define L where "L = fmupd (pSlot m) \<lparr> cbCommand = pCommand m, cbSlot = pSlot m, cbId = cid p \<rparr> (l p)"
  have p2: "l p2 = L" "cid p2 = cid p" "not_leader (pSlot m) p2" "execute p2 = execute p"
    by (simp_all add: p2_def p1_def L_def l_record_proposal not_leader_mark_phase not_leader_record)
  define r where "r = vote_phase cfg (execute p1 + Total cfg) (pSlot m) p2"
  define q where "q = exec_phase cfg (pSlot m < flag2 p2) ord2 (fst r)"
  have res: "HandlePropose cfg ord1 ord2 m p = (fst q, snd r @ snd q)"
    by (simp add: HandlePropose_def Let_def split_beta q_def r_def p2_def p1_def)
  have drops: "l (fst q) = unexecuted (fst r) (fst q)"
    using exec_phase_drops [of "fst r" cfg "pSlot m < flag2 p2" ord2] by (simp add: drops_executed_def q_def)
  show ?thesis
  proof (cases "Total cfg \<le> int (len_map L)")
    case True
    then have "r = (p2\<lparr>l := fmempty\<rparr>, [Broadcast (MVote \<lparr> vSlot = pSlot m, vId = cid p, vL = L \<rparr>)])"
      by (simp add: r_def vote_phase_def batch_ready_def p2)
    moreover from this have "l (fst r) = fmempty" by simp
    then have "unexecuted (fst r) (fst q) = fmempty" by (auto simp: unexecuted_def intro!: fmap_ext)
    with drops have "l (fst q) = fmempty" by simp
    ultimately show ?thesis using True assms by (simp add: res Let_def flip: L_def)
  next
    case False
    then have "fst r = p2" by (simp add: r_def vote_phase_def p2)
    then have "l (fst q) = fmfilter (\<lambda>s. \<not> (execute p \<le> s \<and> s < execute (fst q))) L"
      using drops unfolding unexecuted_def by (metis p2(1,4))
    moreover from this have "len_map (l (fst q)) \<le> len_map L"
      by (intro len_map_mono) (auto simp: fmdom'_filter)
    ultimately show ?thesis using False by (simp add: res Let_def flip: L_def)
  qed
qed

definition sample_proposal :: "int \<Rightarrow> Propose_msg" where
  "sample_proposal s =
     \<lparr> pBallot = 1, pRequest = zero_request, pCommand = example_command s (Some [1]), pSlot = s,
       pID = ''1.2'', pLeader = True \<rparr>"

theorem HandlePropose_batches_witness:
  "case HandlePropose MakeDefaultConfig [7] [7] (sample_proposal 7) (NewConsensus MakeDefaultConfig ''1.1'') of
     (p', evs) \<Rightarrow> l p' = fmempty \<and>
       hd evs = Broadcast (MVote \<lparr> vSlot = 7, vId = ''1.1'',
         vL = fmupd 7 \<lparr> cbCommand = example_command 7 (Some [1]), cbSlot = 7, cbId = ''1.1'' \<rparr> fmempty \<rparr>)"
proof -
  have T: "Total MakeDefaultConfig = 1"
    by (simp add: Total_def MakeDefaultConfig_def DefaultBConfig_def)
  have L: "l (NewConsensus MakeDefaultConfig ''1.1'') = fmempty"
      "cid (NewConsensus MakeDefaultConfig ''1.1'') = ''1.1''"
    by (simp_all add: NewConsensus_def)
  show ?thesis
    using HandlePropose_batches [where cfg = MakeDefaultConfig and ?ord1.0 = "[7]" and ?ord2.0 = "[7]"
        and m = "sample_proposal 7" and p = "NewConsensus MakeDefaultConfig ''1.1''"]
      T L by (simp add: Let_def split_beta len_map_upd sample_proposal_def)
qed

section \<open>What the vote counting does not check\<close>

definition forged_vote :: "int \<Rightarrow> Command \<Rightarrow> gid \<Rightarrow> gid \<Rightarrow> Vote_msg" where
  "forged_vote s c sender claimed =
     \<lparr> vSlot = s, vId = sender,
       vL = fmupd s \<lparr> cbCommand = c, cbSlot = s, cbId = claimed \<rparr> fmempty \<rparr>"

text \<open>A replica without an entry for the slot it is to execute next, after votes under some names.\<close>

definition after_votes :: "Consensus \<Rightarrow> Command \<Rightarrow> gid list \<Rightarrow> Consensus" where
  "after_votes p c js =
     p\<lparr>log := (if js = [] then log p else fmupd (execute p) ((new_entry 0 c 0)\<lparr>equorum := ACKs js\<rparr>) (log p))\<rparr>"

lemma after_votes_next:
  assumes "fmlookup (log p) (execute p) = None"
    and "distinct (js @ [i])" "int (length js) + 1 < go_div (cn cfg) 2"
  shows "handle cfg (InVote (forged_vote (execute p) c sender i) [execute p]) (after_votes p c js) =
    (after_votes p c (js @ [i]), [])"
proof -
  have "\<not> Majority cfg (ACK (ACKs js) i)"
    using assms Size_ACKs [of "js @ [i]"] distinct_card [of "js @ [i]"]
    by (simp add: Majority_def Size_def)
  then show ?thesis
    using assms(1) by (auto simp: HandleVote_def forged_vote_def vote_entry_def after_votes_def new_entry_def)
qed

lemma after_votes_last:
  assumes "fmlookup (log p) (execute p) = None"
    and "distinct (js @ [i])" "int (length js) + 1 = go_div (cn cfg) 2" "int (length js) + 1 < Total cfg"
  shows "\<exists>evs. snd (handle cfg (InVote (forged_vote (execute p) c sender i) [execute p]) (after_votes p c js)) =
    Applied (execute p) c # evs"
proof -
  have size: "qsize (ACK (ACKs js) i) = int (length js) + 1"
    using assms(2) Size_ACKs [of "js @ [i]"] distinct_card [of "js @ [i]"] by (simp add: Size_def)
  then have "Majority cfg (ACK (ACKs js) i)" using assms(3) by (simp add: Majority_def)
  moreover define e where "e = (new_entry 0 c 0)\<lparr>equorum := ACK (ACKs js) i, commit := True, received := True\<rparr>"
  moreover define q where "q = (after_votes p c js)\<lparr>log := fmupd (execute p) e (log p)\<rparr>"
  ultimately have "handle cfg (InVote (forged_vote (execute p) c sender i) [execute p]) (after_votes p c js) = exec cfg q"
    using assms(1) by (auto simp: HandleVote_def forged_vote_def vote_entry_def after_votes_def new_entry_def)
  moreover have "exec cfg q = (fst (exec cfg (exec_next e q)), Applied (execute p) c # snd (exec cfg (exec_next e q)))"
    using assms(4) size
    by (subst exec_apply [of q e])
      (simp_all add: q_def e_def after_votes_def vote_owed_def Size_def new_entry_def reply_events_def)
  ultimately show ?thesis by simp
qed

lemma forge_run:
  assumes "fmlookup (log p) (execute p) = None"
    and "distinct (is @ [i])" and "int (length (is @ [i])) = go_div (cn cfg) 2"
    and "int (length (is @ [i])) < Total cfg"
  shows "\<exists>evs. snd (handle_all cfg (map (\<lambda>j. InVote (forged_vote (execute p) c sender j) [execute p]) (is @ [i])) p) =
    Applied (execute p) c # evs"
proof -
  have "\<exists>evs. snd (handle_all cfg (map (\<lambda>j. InVote (forged_vote (execute p) c sender j) [execute p]) (ks @ [i]))
      (after_votes p c js)) = Applied (execute p) c # evs" if "is = js @ ks" for js ks
    using that
  proof (induction ks arbitrary: js)
    case Nil
    then show ?case
      using after_votes_last [OF assms(1), of js i cfg c sender] assms(2-)
      by (simp add: Let_def split_beta del: handle.simps)
  next
    case (Cons k ks)
    then have "handle cfg (InVote (forged_vote (execute p) c sender k) [execute p]) (after_votes p c js) =
        (after_votes p c (js @ [k]), [])"
      using assms by (intro after_votes_next) auto
    with Cons.IH [of "js @ [k]"] Cons.prems show ?case
      by (simp add: Let_def split_beta del: handle.simps)
  qed
  from this [of "[]" "is"] show ?thesis by (simp add: after_votes_def)
qed

text \<open>
  C17: votes are counted by the node name written inside them, not by their sender, and no vote
  is compared with a proposal. So one node can make any replica that has not heard of the slot it executes next
  apply any command there: it sends \<open>n / 2\<close> vote messages under different names. This is for batches of more
  than \<open>n / 2\<close> commands; with smaller ones the replica waits until it has voted itself.
\<close>

theorem forged_votes_execute:
  assumes "fmlookup (log p) (execute p) = None"
    and "distinct (is @ [i])" and "int (length (is @ [i])) = go_div (cn cfg) 2"
    and "int (length (is @ [i])) < Total cfg"
  shows "\<exists>evs. snd (handle_all cfg (map (\<lambda>j. InVote (forged_vote (execute p) c sender j) [execute p]) (is @ [i])) p) =
    Applied (execute p) c # evs"
  by (rule forge_run) (rule assms)+

lemma forge_fresh:
  assumes "distinct (is @ [i])" and "int (length (is @ [i])) = go_div (cn cfg) 2"
    and "int (length (is @ [i])) < Total cfg"
  shows "(0, c) \<in> set (applied (snd (handle_all cfg (map (\<lambda>j. InVote (forged_vote 0 c sender j) [0]) (is @ [i]))
    (NewConsensus cfg n))))"
proof -
  have p: "log (NewConsensus cfg n) = fmempty" "execute (NewConsensus cfg n) = 0" by (simp_all add: NewConsensus_def)
  obtain evs where "snd (handle_all cfg (map (\<lambda>j. InVote (forged_vote 0 c sender j) [0]) (is @ [i]))
      (NewConsensus cfg n)) = Applied 0 c # evs"
    using forge_run [of "NewConsensus cfg n", OF _ assms, of c sender] by (auto simp only: p fmempty_lookup)
  then show ?thesis by simp
qed

theorem forged_votes_execute_witness:
  "\<exists>evs. snd (handle_all (MakeDefaultConfig\<lparr>cn := 4, cBenchmark := DefaultBConfig\<lparr>Concurrency := 100\<rparr>\<rparr>)
      (map (\<lambda>j. InVote (forged_vote (execute (NewConsensus MakeDefaultConfig ''1.3'')) (example_command 5 (Some [6]))
           ''1.4'' j) [execute (NewConsensus MakeDefaultConfig ''1.3'')]) ([''1.1''] @ [''1.2'']))
      (NewConsensus MakeDefaultConfig ''1.3''))
   = Applied (execute (NewConsensus MakeDefaultConfig ''1.3'')) (example_command 5 (Some [6])) # evs"
  by (rule forged_votes_execute) (simp_all add: go_div_pos Total_def NewConsensus_def)

text \<open>The same run, seen through the votes that reached the replica.\<close>

theorem applied_was_voted_witness:
  "mentioned (map (\<lambda>j. InVote (forged_vote 0 (example_command 5 (Some [6])) ''1.4'' j) [0]) [''1.1'', ''1.2''])
     0 (example_command 5 (Some [6])) \<and>
   (\<exists>A. A \<subseteq> voters (map (\<lambda>j. InVote (forged_vote 0 (example_command 5 (Some [6])) ''1.4'' j) [0])
          [''1.1'', ''1.2'']) 0 \<and> finite A \<and> 2 \<le> card A)"
proof -
  let ?cfg = "MakeDefaultConfig\<lparr>cn := 4, cBenchmark := DefaultBConfig\<lparr>Concurrency := 100\<rparr>\<rparr>"
  let ?is = "map (\<lambda>j. InVote (forged_vote 0 (example_command 5 (Some [6])) ''1.4'' j) [0]) ([''1.1''] @ [''1.2''])"
  have "(0, example_command 5 (Some [6])) \<in> set (applied (snd (handle_all ?cfg ?is (NewConsensus ?cfg ''1.3''))))"
    by (rule forge_fresh) (simp_all add: go_div_pos Total_def)
  from applied_was_voted [OF this] show ?thesis by (simp add: go_div_pos)
qed

end
