(* ===== verification/Gobs.thy ===== *)
theory Gobs
  imports Consensus
begin

text \<open>
  What a message looks like after it has been encoded and decoded by \<open>encoding/gob\<close>, as the
  transports of \<open>transport.go\<close> do it. The encoder leaves out a field that holds an empty byte
  slice and the decoder then leaves the field nil, so the empty value becomes the nil value, which
  the code takes for a read. Fields that are not exported, the reply channel of a request, are not
  sent. Everything else arrives as it was.
\<close>

definition gob_value :: "Value \<Rightarrow> Value" where
  "gob_value v = (if v = Some [] then None else v)"

definition gob_command :: "Command \<Rightarrow> Command" where
  "gob_command c = c\<lparr>Value := gob_value (Value c)\<rparr>"

definition gob_request :: "Request \<Rightarrow> Request" where
  "gob_request r = r\<lparr>rCommand := gob_command (rCommand r), rc := None\<rparr>"

definition gob_reply :: "Reply \<Rightarrow> Reply" where
  "gob_reply y = y\<lparr>yCommand := gob_command (yCommand y), yValue := gob_value (yValue y)\<rparr>"

definition gob_propose :: "Propose_msg \<Rightarrow> Propose_msg" where
  "gob_propose m = m\<lparr>pRequest := gob_request (pRequest m), pCommand := gob_command (pCommand m)\<rparr>"

definition gob_ballot :: "CommandBallot \<Rightarrow> CommandBallot" where
  "gob_ballot b = b\<lparr>cbCommand := gob_command (cbCommand b)\<rparr>"

definition gob_vote :: "Vote_msg \<Rightarrow> Vote_msg" where
  "gob_vote v = v\<lparr>vL := fmmap gob_ballot (vL v)\<rparr>"

fun gob_message :: "Message \<Rightarrow> Message" where
  "gob_message (MPropose m) = MPropose (gob_propose m)"
| "gob_message (MVote v) = MVote (gob_vote v)"

lemma gob_command_simps [simp]:
  "Key (gob_command c) = Key c" "Counter (gob_command c) = Counter c"
  "ClientID (gob_command c) = ClientID c" "CommandID (gob_command c) = CommandID c"
  "Value (gob_command c) = gob_value (Value c)"
  by (simp_all add: gob_command_def)

lemma gob_value_twice [simp]: "gob_value (gob_value v) = gob_value v"
  by (simp add: gob_value_def)

lemma gob_command_twice [simp]: "gob_command (gob_command c) = gob_command c"
  by (simp add: gob_command_def)

lemma gob_command_same: "Value c \<noteq> Some [] \<Longrightarrow> gob_command c = c"
  by (simp add: gob_command_def gob_value_def)

lemma gob_command_empty: "Value c = Some [] \<Longrightarrow> gob_command c = c\<lparr>Value := None\<rparr>"
  by (simp add: gob_command_def gob_value_def)

lemma gob_message_fields [simp]:
  "pCommand (gob_propose m) = gob_command (pCommand m)" "pSlot (gob_propose m) = pSlot m"
  "pBallot (gob_propose m) = pBallot m" "pID (gob_propose m) = pID m"
  "pLeader (gob_propose m) = pLeader m" "vSlot (gob_vote v) = vSlot v" "vId (gob_vote v) = vId v"
  "vL (gob_vote v) = fmmap gob_ballot (vL v)" "cbCommand (gob_ballot b) = gob_command (cbCommand b)"
  "cbId (gob_ballot b) = cbId b" "cbSlot (gob_ballot b) = cbSlot b"
  "rCommand (gob_request r) = gob_command (rCommand r)" "rc (gob_request r) = None"
  "rNodeID (gob_request r) = rNodeID r"
  by (simp_all add: gob_propose_def gob_vote_def gob_ballot_def gob_request_def)

lemma gob_vote_lookup [simp]: "fmlookup (vL (gob_vote v)) s = map_option gob_ballot (fmlookup (vL v) s)"
  by (simp add: fmlookup_map)

end
