(* ===== verification/Network.thy ===== *)
theory Network
  imports Consensus_Props Gobs "HOL-Library.Sublist"
begin

text \<open>
  The replicas together. A \<open>System\<close> holds the state of every replica, every message broadcast so
  far with its sender, and the commands each replica has applied. One step: a replica handles a
  client's request, or a message that another replica broadcast at some time. Messages may be
  lost, delayed, reordered and delivered again, which covers what the sockets do to them, and a
  message arrives as \<open>encoding/gob\<close> gives it back. Replicas follow the code; the clients issue the
  commands of a set \<open>C\<close>.
\<close>

record System =
  replicas :: "gid \<Rightarrow> Consensus"
  sent :: "(gid \<times> Message) set"
  hist :: "gid \<Rightarrow> (int \<times> Command) list"

definition init_system :: "Config \<Rightarrow> System" where
  "init_system cfg =
     \<lparr> replicas = (\<lambda>i. NewConsensus cfg i), sent = {}, hist = (\<lambda>i. []) \<rparr>"

fun broadcasts :: "Event list \<Rightarrow> Message list" where
  "broadcasts [] = []"
| "broadcasts (Broadcast m # evs) = m # broadcasts evs"
| "broadcasts (Applied s c # evs) = broadcasts evs"
| "broadcasts (SendReply r y # evs) = broadcasts evs"

fun may_receive :: "Command set \<Rightarrow> System \<Rightarrow> gid \<Rightarrow> Input \<Rightarrow> bool" where
  "may_receive C S i (InRequest r) \<longleftrightarrow> rCommand r \<in> C"
| "may_receive C S i (InPropose m ord1 ord2) \<longleftrightarrow> 
     (\<exists>j m0. j \<noteq> i \<and> (j, MPropose m0) \<in> sent S \<and> m = gob_propose m0)"
| "may_receive C S i (InVote v ord) \<longleftrightarrow> 
     (\<exists>j v0. j \<noteq> i \<and> (j, MVote v0) \<in> sent S \<and> v = gob_vote v0)"

definition deliver :: "Config \<Rightarrow> gid \<Rightarrow> Input \<Rightarrow> System \<Rightarrow> System" where
  "deliver cfg i inp S =
     (let (p, evs) = handle cfg inp (replicas S i)
      in S\<lparr>replicas := (replicas S)(i := p), sent := sent S \<union> Pair i ` set (broadcasts evs),
           hist := (hist S)(i := hist S i @ applied evs)\<rparr>)"

inductive reachable :: "Config \<Rightarrow> gid set \<Rightarrow> Command set \<Rightarrow> System \<Rightarrow> bool"
  for cfg ids C where
  init: "reachable cfg ids C (init_system cfg)"
| step: "reachable cfg ids C S \<Longrightarrow> i \<in> ids \<Longrightarrow> may_receive C S i inp \<Longrightarrow>
     valid_input (replicas S i) inp \<Longrightarrow> reachable cfg ids C (deliver cfg i inp S)"

inductive_cases reachable_stepE: "reachable cfg ids C (deliver cfg i inp S)"

section \<open>What the messages in the network say\<close>

text \<open>A command the clients issued for a slot, as it was issued or as it arrives at another node.\<close>

definition issued :: "Command set \<Rightarrow> int \<Rightarrow> Command \<Rightarrow> bool" where
  "issued C s c \<longleftrightarrow> (c \<in> C \<or> c \<in> gob_command ` C) \<and> Counter c = s"

lemma issued_gob: "issued C s c \<Longrightarrow> issued C s (gob_command c)"
  by (auto simp: issued_def)

lemma issued_exact:
  "\<forall>c \<in> C. Value c \<noteq> Some [] \<Longrightarrow> issued C s c \<longleftrightarrow> c \<in> C \<and> Counter c = s"
  by (auto simp: issued_def gob_command_same image_iff)

text \<open>The replicas that broadcast a vote for a slot.\<close>

definition voted_for :: "System \<Rightarrow> int \<Rightarrow> gid set" where
  "voted_for S s = {j. \<exists>v cb. (j, MVote v) \<in> sent S \<and> fmlookup (vL v) s = Some cb}"

fun message_ok :: "Command set \<Rightarrow> gid \<Rightarrow> Message \<Rightarrow> bool" where
  "message_ok C j (MPropose m) \<longleftrightarrow> issued C (pSlot m) (pCommand m)"
| "message_ok C j (MVote v) \<longleftrightarrow> ballots_ok (issued C) j (vL v)"

definition system_ok :: "Config \<Rightarrow> gid set \<Rightarrow> Command set \<Rightarrow> System \<Rightarrow> bool" where
  "system_ok cfg ids C S \<longleftrightarrow>
     (\<forall>i. replica_ok cfg (issued C) (voted_for S) i (replicas S i)) \<and>
     (\<forall>j m. (j, m) \<in> sent S \<longrightarrow> j \<in> ids \<and> message_ok C j m) \<and>
     (\<forall>i s c. (s, c) \<in> set (hist S i) \<longrightarrow> issued C s c \<and> quorate cfg (voted_for S) s) \<and>
     (\<forall>i. map fst (hist S i) = [0 .. execute (replicas S i) - 1] \<and> 0 \<le> execute (replicas S i) \<and>
          db (replicas S i) = snd (run_all Execute (NewDatabase cfg) (map snd (hist S i))))"

lemma quorate_mono: "quorate cfg V s \<Longrightarrow> V s \<subseteq> W s \<Longrightarrow> quorate cfg W s"
  by (auto simp: quorate_def)

lemma replica_ok_mono:
  assumes "replica_ok cfg ok V n p" and "\<And>s. V s \<subseteq> W s"
  shows "replica_ok cfg ok W n p"
proof -
  have "entry_ok cfg ok W s e" if "entry_ok cfg ok V s e" for s e
    using that assms(2) [of s] quorate_mono [of cfg V s W] by (auto simp: entry_ok_def)
  with assms(1) show ?thesis by (simp add: replica_ok_def)
qed

lemma event_ok_broadcasts:
  "list_all (event_ok cfg (issued C) V n) evs \<Longrightarrow> m \<in> set (broadcasts evs) \<Longrightarrow> message_ok C n m"
proof (induction evs rule: broadcasts.induct)
  case (2 m' evs)
  then show ?case by (cases m') auto
qed auto

lemma system_ok_init: "system_ok cfg ids C (init_system cfg)"
  using replica_ok_new [of cfg] by (simp add: system_ok_def init_system_def)
    (simp add: NewConsensus_def)

lemma received_ok:
  assumes S: "system_ok cfg ids C S" and r: "may_receive C S i inp"
  shows "input_ok (issued C) (voted_for S) inp"
proof (cases inp)
  case (InRequest r)
  with r show ?thesis by (simp add: issued_def)
next
  case (InPropose m ord1 ord2)
  with r obtain j m0 where j: "(j, MPropose m0) \<in> sent S" "m = gob_propose m0" by auto
  then have "message_ok C j (MPropose m0)" using S by (simp only: system_ok_def)
  with j InPropose show ?thesis by (simp add: issued_gob)
next
  case (InVote v ord)
  with r obtain j v0 where j: "(j, MVote v0) \<in> sent S" "v = gob_vote v0" by auto
  then have "message_ok C j (MVote v0)" using S by (simp only: system_ok_def)
  with j InVote show ?thesis by (auto simp: ballots_ok_def voted_for_def issued_gob)
qed

lemma deliver_simps:
  "replicas (deliver cfg i inp S) = (replicas S)(i := fst (handle cfg inp (replicas S i)))"
  "sent (deliver cfg i inp S) = sent S \<union> Pair i ` set (broadcasts (snd (handle cfg inp (replicas S i))))"
  "hist (deliver cfg i inp S) = (hist S)(i := hist S i @ applied (snd (handle cfg inp (replicas S i))))"
  by (simp_all add: deliver_def Let_def split_beta)

lemma voted_for_deliver: "voted_for S s \<subseteq> voted_for (deliver cfg i inp S) s"
  by (auto simp: voted_for_def deliver_simps)

lemma system_ok_deliver:
  assumes S: "system_ok cfg ids C S" and i: "i \<in> ids" and r: "may_receive C S i inp"
  shows "system_ok cfg ids C (deliver cfg i inp S)"
proof -
  let ?S' = "deliver cfg i inp S"
  define p where "p = replicas S i"
  define q where "q = handle cfg inp p"
  note up = voted_for_deliver [of S _ cfg i inp]
  have rep: "replica_ok cfg (issued C) (voted_for S) j (replicas S j)" for j
    using S by (simp add: system_ok_def)
  have g: "good cfg (issued C) (voted_for S) i q"
    using good_handle [OF rep received_ok [OF S r]] by (simp add: q_def p_def)
  have o: "in_order p (snd q) (fst q)" by (simp add: q_def in_order_handle)
  have evs: "list_all (event_ok cfg (issued C) (voted_for S) i) (snd q)"
    using g by (simp add: good_def)
  have "replica_ok cfg (issued C) (voted_for ?S') j (replicas ?S' j)" for j
  proof (rule replica_ok_mono [OF _ up])
    show "replica_ok cfg (issued C) (voted_for S) j (replicas ?S' j)"
      using rep g by (simp add: deliver_simps good_def flip: p_def q_def)
  qed
  moreover have "j \<in> ids \<and> message_ok C j m" if "(j, m) \<in> sent ?S'" for j m
    using that S i event_ok_broadcasts [OF evs]
    by (auto simp: deliver_simps system_ok_def simp flip: p_def q_def)
  moreover have "issued C s c \<and> quorate cfg (voted_for ?S') s" if "(s, c) \<in> set (hist ?S' j)" for j s c
  proof -
    have "issued C s c \<and> quorate cfg (voted_for S) s"
      using that S event_ok_applied [OF evs]
      by (auto simp: deliver_simps system_ok_def split: if_splits simp flip: p_def q_def)
    then show ?thesis using up quorate_mono by blast
  qed
  moreover have "map fst (hist ?S' j) = [0 .. execute (replicas ?S' j) - 1] \<and>
      0 \<le> execute (replicas ?S' j) \<and>
      db (replicas ?S' j) = snd (run_all Execute (NewDatabase cfg) (map snd (hist ?S' j)))" for j
  proof (cases "j = i")
    case False
    then show ?thesis using S by (simp add: system_ok_def deliver_simps)
  next
    case True
    have old: "map fst (hist S i) = [0 .. execute p - 1]" "0 \<le> execute p"
        "db p = snd (run_all Execute (NewDatabase cfg) (map snd (hist S i)))"
      using S by (simp_all add: system_ok_def p_def)
    with o True show ?thesis
      by (simp add: deliver_simps in_order_def upto_split run_all_append Let_def split_beta
          flip: p_def q_def)
  qed
  ultimately show ?thesis by (simp add: system_ok_def)
qed

lemma reachable_ok: "reachable cfg ids C S \<Longrightarrow> system_ok cfg ids C S"
  by (induction rule: reachable.induct) (simp_all add: system_ok_init system_ok_deliver)

end
