(* ===== verification/Agreement.thy ===== *)
theory Agreement
  imports Network
begin

text \<open>
  Agreement of the replicas: when the clients use every slot number for one command only, any
  two replicas apply the same commands in the same order; when they do not, four replicas that
  follow the code to the letter apply different commands for the same slot. The same happens
  when a command writes the empty value, which the encoding of messages does not keep.
\<close>

section \<open>What the invariant gives\<close>

definition one_per_slot :: "Command set \<Rightarrow> bool" where
  "one_per_slot C \<longleftrightarrow> (\<forall>c \<in> C. \<forall>d \<in> C. Counter c = Counter d \<longrightarrow> c = d)"

lemma reachable_facts:
  assumes "reachable cfg ids C S"
  shows "(s, c) \<in> set (hist S i) \<Longrightarrow> issued C s c"
    and "(s, c) \<in> set (hist S i) \<Longrightarrow> quorate cfg (voted_for S) s"
    and "map fst (hist S i) = [0 .. execute (replicas S i) - 1]"
    and "0 \<le> execute (replicas S i)"
    and "db (replicas S i) = snd (run_all Execute (NewDatabase cfg) (map snd (hist S i)))"
    and "(j, m) \<in> sent S \<Longrightarrow> j \<in> ids"
  using reachable_ok [OF assms] unfolding system_ok_def by blast+

lemma hist_length: "reachable cfg ids C S \<Longrightarrow> int (length (hist S i)) = execute (replicas S i)"
  using arg_cong [OF reachable_facts(3), of cfg ids C S length i] reachable_facts(4) [of cfg ids C S i]
  by simp

lemma hist_nth:
  assumes "reachable cfg ids C S" and "k < length (hist S i)"
  shows "fst (hist S i ! k) = int k \<and> issued C (int k) (snd (hist S i ! k))"
proof -
  have "fst (hist S i ! k) = map fst (hist S i) ! k" using assms(2) by simp
  also have "\<dots> = int k"
    using assms(2) hist_length [OF assms(1), of i] by (simp add: reachable_facts(3) [OF assms(1)])
  finally have k: "fst (hist S i ! k) = int k" .
  have "(fst (hist S i ! k), snd (hist S i ! k)) \<in> set (hist S i)" using assms(2) by simp
  from reachable_facts(1) [OF assms(1) this] k show ?thesis by simp
qed

definition no_empty_value :: "Command set \<Rightarrow> bool" where
  "no_empty_value C \<longleftrightarrow> (\<forall>c \<in> C. Value c \<noteq> Some [])"

lemma hist_prefix:
  assumes S: "reachable cfg ids C S" and C: "one_per_slot C" "no_empty_value C"
    and len: "length (hist S i) \<le> length (hist S j)"
  shows "prefix (hist S i) (hist S j)"
proof -
  have "hist S i ! k = hist S j ! k" if "k < length (hist S i)" for k
  proof -
    have "k < length (hist S j)" using that len by simp
    from hist_nth [OF S that] hist_nth [OF S this] C show ?thesis
      unfolding one_per_slot_def no_empty_value_def by (simp add: prod_eq_iff issued_exact)
  qed
  then have "hist S i = take (length (hist S i)) (hist S j)"
    using len by (intro nth_equalityI) simp_all
  then show ?thesis by (metis take_is_prefix)
qed

section \<open>Agreement\<close>

text \<open>
  C3: in every state the system can reach, with messages lost, delayed, reordered or repeated
  at will, the commands two replicas have applied are a prefix of one another, and two replicas
  that have applied equally many have equal databases, if no two commands carry the same counter
  and no command writes the empty value.
\<close>

theorem replicas_agree:
  assumes "reachable cfg ids C S" and "one_per_slot C" and "no_empty_value C"
  shows "(prefix (hist S i) (hist S j) \<or> prefix (hist S j) (hist S i)) \<and>
         (execute (replicas S i) = execute (replicas S j) \<longrightarrow> db (replicas S i) = db (replicas S j))"
proof (intro conjI impI)
  show "prefix (hist S i) (hist S j) \<or> prefix (hist S j) (hist S i)"
    using hist_prefix [OF assms] nat_le_linear by blast
next
  assume "execute (replicas S i) = execute (replicas S j)"
  then have len: "length (hist S i) = length (hist S j)"
    using hist_length [OF assms(1), of i] hist_length [OF assms(1), of j] by simp
  with hist_prefix [OF assms, of i j] have "hist S i = hist S j" by (auto simp: prefix_def)
  then show "db (replicas S i) = db (replicas S j)"
    by (simp only: reachable_facts(5) [OF assms(1)])
qed

text \<open>
  C6: a command a replica has applied is one a client issued for this slot, as it was issued or as
  the network delivers it, and at least \<open>n / 2\<close> replicas of the system broadcast votes for the slot.
\<close>

theorem applied_has_quorum:
  assumes "reachable cfg ids C S" and "(s, c) \<in> set (hist S i)"
  shows "(c \<in> C \<or> c \<in> gob_command ` C) \<and> Counter c = s \<and>
         (\<exists>A. A \<subseteq> voted_for S s \<and> A \<subseteq> ids \<and> finite A \<and> go_div (cn cfg) 2 \<le> int (card A))"
proof -
  have "voted_for S s \<subseteq> ids"
    using reachable_facts(6) [OF assms(1)] by (auto simp: voted_for_def)
  moreover obtain A where "A \<subseteq> voted_for S s" "finite A" "go_div (cn cfg) 2 \<le> int (card A)"
    using reachable_facts(2) [OF assms] by (auto simp: quorate_def)
  moreover have "c \<in> C \<or> c \<in> gob_command ` C" "Counter c = s"
    using reachable_facts(1) [OF assms] unfolding issued_def by blast+
  ultimately show ?thesis by blast
qed

section \<open>Two commands for one slot\<close>

text \<open>
  Four replicas, batches of one. Replica \<open>''1.1''\<close> gets the request for \<open>c\<close>, \<open>''1.2''\<close> the one for
  \<open>d\<close>; both have counter 0. \<open>''1.3''\<close> sees the first proposal and \<open>''1.4''\<close> the second, and their
  two votes, one for each command, reach both proposers.
\<close>

definition four :: Config where
  "four = MakeDefaultConfig\<lparr>cn := 4\<rparr>"

definition ask :: "Command \<Rightarrow> Request" where
  "ask c = zero_request\<lparr>rCommand := c\<rparr>"

definition proposal_of :: "gid \<Rightarrow> Command \<Rightarrow> Propose_msg" where
  "proposal_of n c =
     \<lparr> pBallot = Ballot_Next 0 n, pRequest = zero_request, pCommand = c, pSlot = 0, pID = n,
       pLeader = True \<rparr>"

definition vote_of :: "gid \<Rightarrow> Command \<Rightarrow> Vote_msg" where
  "vote_of n c =
     \<lparr> vSlot = 0, vId = n, vL = fmupd 0 \<lparr> cbCommand = c, cbSlot = 0, cbId = n \<rparr> fmempty \<rparr>"

lemma gob_sample [simp]:
  "gob_propose (proposal_of n c) = proposal_of n (gob_command c)"
  "gob_vote (vote_of n c) = vote_of n (gob_command c)"
  by (simp_all add: proposal_of_def gob_propose_def gob_request_def gob_command_def gob_value_def
      zero_request_def zero_command_def vote_of_def gob_vote_def gob_ballot_def fmmap_fmupd)

definition clash_inputs :: "Command \<Rightarrow> Command \<Rightarrow> (gid \<times> Input) list" where
  "clash_inputs c d =
     (let c1 = gob_command c; d1 = gob_command d
      in [(''1.1'', InRequest (ask c)), (''1.2'', InRequest (ask d)),
          (''1.3'', InPropose (proposal_of ''1.1'' c1) [0] [0]),
          (''1.4'', InPropose (proposal_of ''1.2'' d1) [0] [0]),
          (''1.1'', InVote (vote_of ''1.3'' c1) [0]), (''1.1'', InVote (vote_of ''1.4'' d1) [0]),
          (''1.2'', InVote (vote_of ''1.3'' c1) [0]), (''1.2'', InVote (vote_of ''1.4'' d1) [0])])"

text \<open>The same with one request, to \<open>''1.1''\<close>, and all others told of its proposal.\<close>

definition echo_inputs :: "Command \<Rightarrow> (gid \<times> Input) list" where
  "echo_inputs c =
     (let c1 = gob_command c
      in [(''1.1'', InRequest (ask c)),
          (''1.2'', InPropose (proposal_of ''1.1'' c1) [0] [0]),
          (''1.3'', InPropose (proposal_of ''1.1'' c1) [0] [0]),
          (''1.4'', InPropose (proposal_of ''1.1'' c1) [0] [0]),
          (''1.1'', InVote (vote_of ''1.3'' c1) [0]), (''1.1'', InVote (vote_of ''1.4'' c1) [0]),
          (''1.2'', InVote (vote_of ''1.3'' c1) [0]), (''1.2'', InVote (vote_of ''1.4'' c1) [0])])"

definition run_system :: "Config \<Rightarrow> (gid \<times> Input) list \<Rightarrow> System \<Rightarrow> System" where
  "run_system cfg ins S = fold (\<lambda>(i, inp). deliver cfg i inp) ins S"

lemma run_system_simps [simp]:
  "run_system cfg [] S = S"
  "run_system cfg ((i, inp) # ins) S = run_system cfg ins (deliver cfg i inp S)"
  by (simp_all add: run_system_def)

fun run_valid :: "Config \<Rightarrow> gid set \<Rightarrow> Command set \<Rightarrow> (gid \<times> Input) list \<Rightarrow> System \<Rightarrow> bool" where
  "run_valid cfg ids C [] S = True"
| "run_valid cfg ids C ((i, inp) # ins) S =
     (i \<in> ids \<and> may_receive C S i inp \<and> valid_input (replicas S i) inp \<and>
      run_valid cfg ids C ins (deliver cfg i inp S))"

lemma reachable_run:
  "reachable cfg ids C S \<Longrightarrow> run_valid cfg ids C ins S \<Longrightarrow> reachable cfg ids C (run_system cfg ins S)"
  by (induction cfg ids C ins S rule: run_valid.induct) (auto intro: reachable.step)

lemma rCommand_ask [simp]: "rCommand (ask c) = c"
  by (simp add: ask_def)

text \<open>
  A replica that waits for the votes on the command \<open>c\<close>: because it was asked to propose it, or
  told of its proposal. The first vote is counted, the second makes it apply the command.
\<close>

definition waiting_for :: "Command \<Rightarrow> Consensus \<Rightarrow> bool" where
  "waiting_for c p \<longleftrightarrow>
     (\<exists>e. log p = fmupd 0 e fmempty \<and> execute p = 0 \<and> equorum e = NewQuorum \<and> Voted e \<and> ecommand e = c)"

lemma waiting_forI:
  "log p = fmupd 0 e fmempty \<Longrightarrow> execute p = 0 \<Longrightarrow> equorum e = NewQuorum \<Longrightarrow> Voted e \<Longrightarrow>
     ecommand e = c \<Longrightarrow> waiting_for c p"
  by (auto simp: waiting_for_def)

definition with_acks :: "gid list \<Rightarrow> Consensus \<Rightarrow> Consensus" where
  "with_acks js p = p\<lparr>log := fmupd 0 ((the (fmlookup (log p) 0))\<lparr>equorum := ACKs js\<rparr>) fmempty\<rparr>"

lemma Total_four: "Total four = 1" "cn four = 4"
  by (simp_all add: four_def Total_def MakeDefaultConfig_def DefaultBConfig_def)

definition asked :: "gid \<Rightarrow> Command \<Rightarrow> Consensus" where
  "asked n c = fst (HandleRequest (ask c) (NewConsensus four n))"

definition told :: "gid \<Rightarrow> gid \<Rightarrow> Command \<Rightarrow> Consensus" where
  "told n m c = fst (HandlePropose four [0] [0] (proposal_of m c) (NewConsensus four n))"

lemma request_step:
  "Counter (rCommand r) = 0 \<Longrightarrow> snd (HandleRequest r (NewConsensus cfg n)) =
     [Broadcast (MPropose (proposal_of n (rCommand r)))]"
  by (simp add: HandleRequest_def Propose_def Let_def proposal_of_def NewConsensus_def zero_request_def)

lemma ask_step:
  "Counter c = 0 \<Longrightarrow> HandleRequest (ask c) (NewConsensus four n) =
     (asked n c, [Broadcast (MPropose (proposal_of n c))])"
  by (simp add: asked_def HandleRequest_def Propose_def Let_def ask_def proposal_of_def
      NewConsensus_def zero_request_def)

lemma asked_waits: "Counter c = 0 \<Longrightarrow> waiting_for c (asked n c)"
  by (rule waiting_forI [where e = "\<lparr> eballot = Ballot_Next 0 n, commit = False, request = Some (ask c),
        ecommand = c, equorum = NewQuorum, received = False, Voted = True, leader = True, eSlot = 0 \<rparr>"])
    (simp_all add: asked_def HandleRequest_def Propose_def Let_def ask_def NewConsensus_def)

lemma vote_on_proposal:
  assumes "Total cfg = 1"
  shows "\<exists>p. HandlePropose cfg [0] [0] (proposal_of m c) (NewConsensus cfg n) =
     (p, [Broadcast (MVote (vote_of n c))]) \<and> waiting_for c p"
proof -
  define p1 where "p1 = record_proposal (proposal_of m c) (NewConsensus cfg n)"
  define e where "e = new_entry (Ballot_Next 0 m) c 0"
  have p1: "l p1 = vL (vote_of n c)" "cid p1 = n" "execute p1 = 0" "flag2 p1 = 0"
      "log p1 = fmupd 0 e fmempty"
    by (simp_all add: p1_def record_proposal_def Let_def proposal_of_def NewConsensus_def e_def
        vote_of_def new_entry_def)
  define p2 where "p2 = mark_voted 0 p1"
  have p2: "l p2 = vL (vote_of n c)" "cid p2 = n" "flag2 p2 = 0" "execute p2 = 0"
      "log p2 = fmupd 0 (e\<lparr>Voted := True\<rparr>) fmempty"
    by (simp_all add: p2_def p1 mark_voted_def)
  have len: "len_map (vL (vote_of n c)) = 1" by (simp add: vote_of_def len_map_def)
  have "mark_phase cfg 1 [0] p1 = p2"
    by (simp add: mark_phase_def batch_ready_def p1 len assms p2_def)
  moreover have "vote_phase cfg 1 0 p2 =
      (p2\<lparr>l := fmempty\<rparr>, [Broadcast (MVote (vote_of n c))])"
    by (simp add: vote_phase_def batch_ready_def p2 len assms not_leader_def e_def new_entry_def)
      (simp add: vote_of_def)
  moreover have "exec_phase cfg False [0] (p2\<lparr>l := fmempty\<rparr>) = (p2\<lparr>l := fmempty\<rparr>, [])"
    by (simp add: exec_phase_def assms len_map_def)
  moreover have "pSlot (proposal_of m c) = 0" by (simp add: proposal_of_def)
  ultimately have "HandlePropose cfg [0] [0] (proposal_of m c) (NewConsensus cfg n) =
      (p2\<lparr>l := fmempty\<rparr>, [Broadcast (MVote (vote_of n c))])"
    by (simp only: HandlePropose_def Let_def p1_def [symmetric] p1 assms p2 add_0 less_irrefl
        prod.case append_Nil2)
  moreover have "waiting_for c (p2\<lparr>l := fmempty\<rparr>)"
    by (rule waiting_forI [where e = "e\<lparr>Voted := True\<rparr>"]) (simp_all add: p2 e_def new_entry_def)
  ultimately show ?thesis by blast
qed

lemma proposal_effect:
  "snd (HandlePropose four [0] [0] (proposal_of m c) (NewConsensus four n)) =
     [Broadcast (MVote (vote_of n c))] \<and> waiting_for c (told n m c)"
  using vote_on_proposal [OF Total_four(1), of m c n] by (auto simp: told_def)

lemma told_step:
  "HandlePropose four [0] [0] (proposal_of m c) (NewConsensus four n) =
     (told n m c, [Broadcast (MVote (vote_of n c))])"
  using proposal_effect [of m c n] by (simp add: told_def prod_eq_iff)

lemma first_vote_step:
  assumes "waiting_for c p"
  shows "HandleVote four [0] (vote_of i d) p = (with_acks [i] p, [])"
proof -
  obtain e where e: "log p = fmupd 0 e fmempty" "execute p = 0" "equorum e = NewQuorum"
    using assms by (auto simp: waiting_for_def)
  then show ?thesis
    using Size_ACKs [of "[i]"]
    by (simp add: HandleVote_def vote_of_def vote_entry_def Let_def Majority_def Size_def Total_four
        go_div_pos with_acks_def)
qed

lemma second_vote_step:
  assumes "waiting_for c p" and "i \<noteq> j"
  shows "applied (snd (HandleVote four [0] (vote_of j d) (with_acks [i] p))) = [(0, c)]"
proof -
  obtain e where e: "log p = fmupd 0 e fmempty" "execute p = 0" "Voted e" "ecommand e = c"
    using assms by (auto simp: waiting_for_def)
  define e2 where "e2 = e\<lparr>equorum := ACKs [i, j], commit := True, received := True\<rparr>"
  define q where "q = (with_acks [i] p)\<lparr>log := fmupd 0 e2 fmempty\<rparr>"
  have "qsize (ACKs [i, j]) = 2"
    using Size_ACKs [of "[i, j]"] assms(2) by (simp add: Size_def)
  then have m: "Majority four (ACKs [i, j])" by (simp add: Majority_def Total_four go_div_pos)
  have "HandleVote four [0] (vote_of j d) (with_acks [i] p) = exec four q"
    using m e by (simp add: HandleVote_def vote_of_def vote_entry_def Let_def q_def e2_def with_acks_def)
  moreover have "exec four q = (fst (exec four (exec_next e2 q)),
      Applied 0 c # reply_events e2 (fst (Execute (db q) c)) @ snd (exec four (exec_next e2 q)))"
    using e by (subst exec_apply [of q e2]) (simp_all add: q_def with_acks_def vote_owed_def e2_def)
  moreover have "exec four (exec_next e2 q) = (exec_next e2 q, [])"
    using e by (intro exec_missing) (simp add: q_def with_acks_def fmlookup_drop)
  ultimately show ?thesis by simp
qed

lemmas sample_steps =
  deliver_simps init_system_def ask_step told_step asked_waits
  first_vote_step [OF asked_waits] second_vote_step [OF asked_waits]
  first_vote_step [OF conjunct2 [OF proposal_effect]] second_vote_step [OF conjunct2 [OF proposal_effect]]

text \<open>The runs are runs of the system, and their outcome.\<close>

lemma sample_inputs_valid:
  "valid_input (NewConsensus four n) (InPropose (proposal_of m e) [0] [0])"
  "range_order [0] (vL (vote_of n e))"
  by (simp_all add: record_proposal_def Let_def proposal_of_def NewConsensus_def range_order_def vote_of_def)

lemma sent_by: "j \<noteq> i \<Longrightarrow> P j m \<Longrightarrow> x = f m \<Longrightarrow> \<exists>j. j \<noteq> i \<and> (\<exists>m. P j m \<and> x = f m)"
  by blast

lemma clash_valid:
  assumes "Counter c = 0" "Counter d = 0" "c \<in> C" "d \<in> C"
  shows "run_valid four {''1.1'', ''1.2'', ''1.3'', ''1.4''} C (clash_inputs c d) (init_system four)"
  using assms
  by (simp add: clash_inputs_def Let_def sample_steps sample_inputs_valid del: valid_input.simps(2))
    (intro conjI,
      rule sent_by [of "''1.1''" _ _ "proposal_of ''1.1'' c"], simp_all,
      rule sent_by [of "''1.2''" _ _ "proposal_of ''1.2'' d"], simp_all,
      (rule sent_by [of "''1.3''" _ _ "vote_of ''1.3'' (gob_command c)"], simp_all,
       rule sent_by [of "''1.4''" _ _ "vote_of ''1.4'' (gob_command d)"], simp_all)+)

lemma echo_valid:
  assumes "Counter c = 0" "c \<in> C"
  shows "run_valid four {''1.1'', ''1.2'', ''1.3'', ''1.4''} C (echo_inputs c) (init_system four)"
  using assms
  by (simp add: echo_inputs_def Let_def sample_steps sample_inputs_valid del: valid_input.simps(2))
    (intro conjI,
      (rule sent_by [of "''1.3''" _ _ "vote_of ''1.3'' (gob_command c)"], simp_all,
       rule sent_by [of "''1.4''" _ _ "vote_of ''1.4'' (gob_command c)"], simp_all)+)

lemma clash_run:
  assumes "Counter c = 0" "Counter d = 0"
  shows "hist (run_system four (clash_inputs c d) (init_system four)) ''1.1'' = [(0, c)]"
    "hist (run_system four (clash_inputs c d) (init_system four)) ''1.2'' = [(0, d)]"
  using assms by (simp_all add: clash_inputs_def Let_def sample_steps)

lemma echo_run:
  assumes "Counter c = 0"
  shows "hist (run_system four (echo_inputs c) (init_system four)) ''1.1'' = [(0, c)]"
    "hist (run_system four (echo_inputs c) (init_system four)) ''1.2'' = [(0, gob_command c)]"
  using assms by (simp_all add: echo_inputs_def Let_def sample_steps)

text \<open>
  C18: nothing but the clients' numbering keeps two commands out of one slot: for any two
  commands with counter 0, sent to two replicas, there is a run of four correct replicas in
  which both are applied as the first command, by different replicas.
\<close>

theorem shared_slot_diverges:
  assumes "Counter c = 0" and "Counter d = 0" and "c \<noteq> d"
  shows "\<exists>S. reachable four {''1.1'', ''1.2'', ''1.3'', ''1.4''} {c, d} S \<and>
    hist S ''1.1'' = [(0, c)] \<and> hist S ''1.2'' = [(0, d)] \<and>
    \<not> prefix (hist S ''1.1'') (hist S ''1.2'') \<and> \<not> prefix (hist S ''1.2'') (hist S ''1.1'')"
proof (intro exI conjI)
  let ?S = "run_system four (clash_inputs c d) (init_system four)"
  show "reachable four {''1.1'', ''1.2'', ''1.3'', ''1.4''} {c, d} ?S"
    using clash_valid [OF assms(1,2), of "{c, d}"] by (intro reachable_run reachable.init) simp_all
qed (use assms in \<open>simp_all add: clash_run\<close>)

theorem shared_slot_diverges_witness:
  "\<exists>S. reachable four {''1.1'', ''1.2'', ''1.3'', ''1.4''}
      {example_command 1 (Some [1]), example_command 1 (Some [2])} S \<and>
    hist S ''1.1'' = [(0, example_command 1 (Some [1]))] \<and>
    hist S ''1.2'' = [(0, example_command 1 (Some [2]))]"
  using shared_slot_diverges [of "example_command 1 (Some [1])" "example_command 1 (Some [2])"]
  by (auto simp: example_command_def)

text \<open>
  The same run with one command given to both replicas: the hypotheses of the properties above
  hold there, and both replicas end with this command applied.
\<close>

theorem replicas_agree_witness:
  "\<exists>S. reachable four {''1.1'', ''1.2'', ''1.3'', ''1.4''} {example_command 1 (Some [1])} S \<and>
    hist S ''1.1'' = [(0, example_command 1 (Some [1]))] \<and>
    (prefix (hist S ''1.1'') (hist S ''1.2'') \<or> prefix (hist S ''1.2'') (hist S ''1.1''))"
proof (intro exI conjI)
  let ?c = "example_command 1 (Some [1])"
  let ?S = "run_system four (clash_inputs ?c ?c) (init_system four)"
  have c: "Counter ?c = 0" by (simp add: example_command_def)
  show S: "reachable four {''1.1'', ''1.2'', ''1.3'', ''1.4''} {?c} ?S"
    using clash_valid [OF c c, of "{?c}"] by (intro reachable_run reachable.init) simp_all
  show "hist ?S ''1.1'' = [(0, ?c)]" by (rule clash_run [OF c c])
  show "prefix (hist ?S ''1.1'') (hist ?S ''1.2'') \<or> prefix (hist ?S ''1.2'') (hist ?S ''1.1'')"
    using replicas_agree [OF S] by (simp add: one_per_slot_def no_empty_value_def example_command_def)
qed

theorem applied_has_quorum_witness:
  "\<exists>S A. A \<subseteq> voted_for S 0 \<and> A \<subseteq> {''1.1'', ''1.2'', ''1.3'', ''1.4''} \<and> 2 \<le> card A"
proof -
  let ?c = "example_command 1 (Some [1])"
  let ?S = "run_system four (clash_inputs ?c ?c) (init_system four)"
  have c: "Counter ?c = 0" by (simp add: example_command_def)
  have S: "reachable four {''1.1'', ''1.2'', ''1.3'', ''1.4''} {?c} ?S"
    using clash_valid [OF c c, of "{?c}"] by (intro reachable_run reachable.init) simp_all
  have "(0, ?c) \<in> set (hist ?S ''1.1'')" by (simp add: clash_run [OF c c])
  from applied_has_quorum [OF S this] obtain A where
    "A \<subseteq> voted_for ?S 0" "A \<subseteq> {''1.1'', ''1.2'', ''1.3'', ''1.4''}" "go_div (cn four) 2 \<le> int (card A)"
    by blast
  then show ?thesis by (intro exI [of _ ?S] exI [of _ A]) (simp add: Total_four go_div_pos)
qed

section \<open>The empty value\<close>

text \<open>
  C19: the value a client writes is lost on the way between replicas if it is empty. Whatever
  command with the empty value is the first of the system, there is a run of four correct replicas
  in which the proposer applies the write and another replica applies a read in its place, so that
  with the same number of commands applied their databases differ.
\<close>

theorem empty_value_diverges:
  assumes "Counter c = 0" and "Value c = Some []"
  shows "\<exists>S. reachable four {''1.1'', ''1.2'', ''1.3'', ''1.4''} {c} S \<and>
    hist S ''1.1'' = [(0, c)] \<and> hist S ''1.2'' = [(0, c\<lparr>Value := None\<rparr>)] \<and>
    execute (replicas S ''1.1'') = execute (replicas S ''1.2'') \<and>
    db_Get (db (replicas S ''1.1'')) (Key c) = Some [] \<and> db_Get (db (replicas S ''1.2'')) (Key c) = None"
proof (intro exI conjI)
  let ?S = "run_system four (echo_inputs c) (init_system four)"
  show S: "reachable four {''1.1'', ''1.2'', ''1.3'', ''1.4''} {c} ?S"
    using echo_valid [OF assms(1), of "{c}"] by (intro reachable_run reachable.init) simp_all
  show h: "hist ?S ''1.1'' = [(0, c)]" "hist ?S ''1.2'' = [(0, c\<lparr>Value := None\<rparr>)]"
    using echo_run [OF assms(1)] by (simp_all add: gob_command_empty assms(2))
  show "execute (replicas ?S ''1.1'') = execute (replicas ?S ''1.2'')"
    using hist_length [OF S, of "''1.1''"] hist_length [OF S, of "''1.2''"] by (simp add: h)
  show "db_Get (db (replicas ?S ''1.1'')) (Key c) = Some []" "db_Get (db (replicas ?S ''1.2'')) (Key c) = None"
    using run_Execute_effect [of "NewDatabase four" "[c]" "Key c"]
      run_Execute_effect [of "NewDatabase four" "[c\<lparr>Value := None\<rparr>]" "Key c"]
    by (simp_all add: reachable_facts(5) [OF S] h db_Get_def assms(2) NewDatabase_def)
qed

theorem empty_value_diverges_witness:
  "\<exists>S :: System. hist S ''1.1'' = [(0, example_command 1 (Some []))] \<and> hist S ''1.2'' = [(0, example_command 1 None)] \<and>
     db_Get (db (replicas S ''1.1'')) 1 = Some [] \<and> db_Get (db (replicas S ''1.2'')) 1 = None"
  using empty_value_diverges [of "example_command 1 (Some [])"] by (auto simp: example_command_def)

end
