(* ===== verification/Stalls.thy ===== *)
theory Stalls
  imports Agreement
begin

text \<open>
  Why a replica can wait for ever although nothing is lost: a replica votes only when it has as many
  pending proposals as make a batch, but it applies a command as soon as enough others have voted
  for it, and then the command is pending no more. A replica whose peers were fast enough never
  votes for their batch, and those of them that need its vote never apply it. The theory gives a run of
  three replicas in which this happens, over links that deliver every message once and in order.
\<close>

section \<open>Handlers in a fresh state\<close>

definition three :: Config where
  "three = MakeDefaultConfig\<lparr>cn := 3, cBenchmark := DefaultBConfig\<lparr>Concurrency := 3\<rparr>\<rparr>"

lemma Total_three: "Total three = 3" "cn three = 3"
  by (simp_all add: three_def Total_def MakeDefaultConfig_def DefaultBConfig_def)

definition ballot_for :: "gid \<Rightarrow> Command \<Rightarrow> CommandBallot" where
  "ballot_for n c = \<lparr> cbCommand = c, cbSlot = Counter c, cbId = n \<rparr>"

lemma ballot_for_simps [simp]: "cbCommand (ballot_for n c) = c" "cbId (ballot_for n c) = n"
  by (simp_all add: ballot_for_def)

definition proposes :: "gid \<Rightarrow> Command \<Rightarrow> Propose_msg" where
  "proposes n c =
     \<lparr> pBallot = Ballot_Next 0 n, pRequest = zero_request, pCommand = c, pSlot = Counter c, pID = n,
       pLeader = True \<rparr>"

definition started :: "gid \<Rightarrow> Command \<Rightarrow> Consensus" where
  "started n c = fst (HandleRequest (ask c) (NewConsensus three n))"

lemma started_step:
  "HandleRequest (ask c) (NewConsensus three n) = (started n c, [Broadcast (MPropose (proposes n c))])"
  by (simp add: started_def HandleRequest_def Propose_def Let_def ask_def proposes_def
      NewConsensus_def zero_request_def)

text \<open>A log in which nothing is committed or has a vote.\<close>

definition fresh_log :: "Consensus \<Rightarrow> bool" where
  "fresh_log p \<longleftrightarrow> (\<forall>s e. fmlookup (log p) s = Some e \<longrightarrow> \<not> commit e \<and> equorum e = NewQuorum)"

definition command_in :: "int \<Rightarrow> Command \<Rightarrow> Consensus \<Rightarrow> Command" where
  "command_in s c p = (case fmlookup (log p) s of None \<Rightarrow> c | Some e \<Rightarrow> ecommand e)"

lemma started_fields [simp]:
  "l (started n c) = fmupd (Counter c) (ballot_for n c) fmempty" "execute (started n c) = 0"
  "flag2 (started n c) = 0" "count (started n c) = 0" "cid (started n c) = n"
  "fmdom' (log (started n c)) = {Counter c}" "fresh_log (started n c)"
  "command_in s d (started n c) = (if s = Counter c then c else d)"
  "fmlookup (log (started n c)) s = None \<longleftrightarrow> s \<noteq> Counter c"
  by (simp_all add: started_def HandleRequest_def Propose_def Let_def ask_def NewConsensus_def
      ballot_for_def fresh_log_def command_in_def)

text \<open>A proposal for a new slot that does not complete a batch is recorded, and that is all.\<close>

lemma record_fields:
  assumes "fmlookup (log p) (pSlot m) = None"
  shows "log (record_proposal m p) = fmupd (pSlot m) (new_entry (pBallot m) (pCommand m) (pSlot m)) (log p)"
    "l (record_proposal m p) = fmupd (pSlot m) \<lparr> cbCommand = pCommand m, cbSlot = pSlot m, cbId = cid p \<rparr> (l p)"
    "execute (record_proposal m p) = execute p" "flag2 (record_proposal m p) = flag2 p"
    "count (record_proposal m p) = count p + 1" "cid (record_proposal m p) = cid p"
  using assms by (simp_all add: record_proposal_def Let_def new_entry_def)

lemma recorded [simp]:
  assumes "fmlookup (log p) (Counter c) = None"
  shows "l (record_proposal (proposes n c) p) = fmupd (Counter c) (ballot_for (cid p) c) (l p)"
    "execute (record_proposal (proposes n c) p) = execute p"
    "flag2 (record_proposal (proposes n c) p) = flag2 p"
    "count (record_proposal (proposes n c) p) = count p + 1"
    "cid (record_proposal (proposes n c) p) = cid p"
    "fmdom' (log (record_proposal (proposes n c) p)) = insert (Counter c) (fmdom' (log p))"
    "fresh_log p \<Longrightarrow> fresh_log (record_proposal (proposes n c) p)"
    "command_in s d (record_proposal (proposes n c) p) = (if s = Counter c then c else command_in s d p)"
    "fmlookup (log (record_proposal (proposes n c) p)) s = None \<longleftrightarrow> s \<noteq> Counter c \<and> fmlookup (log p) s = None"
  using assms record_fields [of p "proposes n c"]
  by (simp_all add: proposes_def ballot_for_def fresh_log_def command_in_def new_entry_def)

lemma proposal_recorded:
  assumes "fmlookup (log p) (Counter c) = None" "int (len_map (l (record_proposal (proposes n c) p))) < 3"
    and "count p + 1 < execute p + 3" "flag2 p \<le> Counter c"
  shows "HandlePropose three ord1 ord2 (proposes n c) p = (record_proposal (proposes n c) p, [])"
  using assms record_fields [of p "proposes n c"]
  by (simp add: HandlePropose_def Let_def mark_phase_def vote_phase_def exec_phase_def batch_ready_def
      Total_three proposes_def)

lemma broadcasts_append [simp]: "broadcasts (xs @ ys) = broadcasts xs @ broadcasts ys"
  by (induction xs rule: broadcasts.induct) simp_all

text \<open>A vote is enough to apply the next slot, if what follows is not committed.\<close>

lemma vote_applies:
  assumes "fresh_log p" "execute p = s" and "Majority cfg (ACK NewQuorum j)" "1 < Total cfg"
  shows "\<exists>q evs. vote_entry cfg s (ballot_for j c) p = (q, evs) \<and> fresh_log q \<and> execute q = s + 1 \<and>
    log q = fmdrop s (log p) \<and> l q = fmdrop s (l p) \<and> flag2 q = flag2 p \<and> count q = count p \<and>
    cid q = cid p \<and> applied evs = [(s, command_in s c p)] \<and> broadcasts evs = []"
proof -
  define e0 where "e0 = (case fmlookup (log p) s of None \<Rightarrow> new_entry 0 (cbCommand (ballot_for j c)) 0 | Some e \<Rightarrow> e)"
  have e0: "equorum e0 = NewQuorum" "ecommand e0 = command_in s c p"
    using assms(1) by (auto simp: e0_def fresh_log_def new_entry_def command_in_def split: option.split)
  define e1 where "e1 = e0\<lparr>equorum := ACK NewQuorum j, commit := True, received := True\<rparr>"
  define q where "q = p\<lparr>log := fmupd s e1 (log p)\<rparr>"
  have size: "Size (ACK NewQuorum j) = 1" using Size_ACKs [of "[j]"] by simp
  have "vote_entry cfg s (ballot_for j c) p = exec cfg q"
    using assms(2,3) e0(1)
    by (simp add: vote_entry_def Let_def q_def e1_def flip: e0_def)
  moreover have "exec cfg q = (fst (exec cfg (exec_next e1 q)),
      Applied (execute q) (ecommand e1) # reply_events e1 (fst (Execute (db q) (ecommand e1))) @
      snd (exec cfg (exec_next e1 q)))"
    using assms(2,4) by (intro exec_apply) (simp_all add: q_def e1_def vote_owed_def size)
  moreover have "exec cfg (exec_next e1 q) = (exec_next e1 q, [])"
    using assms by (cases "fmlookup (log p) (s + 1)")
      (auto simp: q_def fresh_log_def fmlookup_drop intro: exec_missing exec_uncommitted)
  moreover have "applied (reply_events e v) = [] \<and> broadcasts (reply_events e v) = []" for e v
    by (simp add: reply_events_def split: option.split)
  ultimately show ?thesis
    using assms e0(2)
    by (intro exI [of _ "exec_next e1 q"]) (auto simp: q_def e1_def fresh_log_def fmlookup_drop fmdrop_fmupd)
qed

text \<open>A vote for the first three slots makes a replica apply them, whatever it has seen of them.\<close>

definition vote_for_all :: "gid \<Rightarrow> Command list \<Rightarrow> Vote_msg" where
  "vote_for_all n cs =
     \<lparr> vSlot = Counter (List.last cs), vId = n,
       vL = fold (\<lambda>c. fmupd (Counter c) (ballot_for n c)) cs fmempty \<rparr>"

lemma votes_apply:
  assumes "fresh_log p" "execute p = 0" and c: "Counter c0 = 0" "Counter c1 = 1" "Counter c2 = 2"
  shows "\<exists>q evs. HandleVote three [0, 1, 2] (vote_for_all j [c0, c1, c2]) p = (q, evs) \<and> fresh_log q \<and>
    execute q = 3 \<and> log q = fmdrop 2 (fmdrop 1 (fmdrop 0 (log p))) \<and>
    l q = fmdrop 2 (fmdrop 1 (fmdrop 0 (l p))) \<and> flag2 q = flag2 p \<and> count q = count p \<and> cid q = cid p \<and>
    applied evs = [(0, command_in 0 c0 p), (1, command_in 1 c1 p), (2, command_in 2 c2 p)] \<and>
    broadcasts evs = []"
proof -
  have size: "Size (ACK NewQuorum j) = 1" using Size_ACKs [of "[j]"] by simp
  then have m: "Majority three (ACK NewQuorum j)" "1 < Total three"
    by (simp_all add: Majority_def Size_def Total_three go_div_pos)
  have L: "fmlookup (vL (vote_for_all j [c0, c1, c2])) 0 = Some (ballot_for j c0)"
    "fmlookup (vL (vote_for_all j [c0, c1, c2])) 1 = Some (ballot_for j c1)"
    "fmlookup (vL (vote_for_all j [c0, c1, c2])) 2 = Some (ballot_for j c2)"
    by (simp_all add: vote_for_all_def c)
  obtain p0 e0 where v0: "vote_entry three 0 (ballot_for j c0) p = (p0, e0)" "fresh_log p0" "execute p0 = 1"
    "log p0 = fmdrop 0 (log p)" "l p0 = fmdrop 0 (l p)" "flag2 p0 = flag2 p" "count p0 = count p"
    "cid p0 = cid p" "applied e0 = [(0, command_in 0 c0 p)]" "broadcasts e0 = []"
    using vote_applies [OF assms(1,2) m, of c0] by auto
  obtain p1 e1 where v1: "vote_entry three 1 (ballot_for j c1) p0 = (p1, e1)" "fresh_log p1" "execute p1 = 2"
    "log p1 = fmdrop 1 (log p0)" "l p1 = fmdrop 1 (l p0)" "flag2 p1 = flag2 p0" "count p1 = count p0"
    "cid p1 = cid p0" "applied e1 = [(1, command_in 1 c1 p0)]" "broadcasts e1 = []"
    using vote_applies [OF v0(2,3) m, of c1] by auto
  obtain p2 e2 where v2: "vote_entry three 2 (ballot_for j c2) p1 = (p2, e2)" "fresh_log p2" "execute p2 = 3"
    "log p2 = fmdrop 2 (log p1)" "l p2 = fmdrop 2 (l p1)" "flag2 p2 = flag2 p1" "count p2 = count p1"
    "cid p2 = cid p1" "applied e2 = [(2, command_in 2 c2 p1)]" "broadcasts e2 = []"
    using vote_applies [OF v1(2,3) m, of c2] by auto
  have "HandleVote three [0, 1, 2] (vote_for_all j [c0, c1, c2]) p = (p2, e0 @ e1 @ e2)"
    by (simp add: HandleVote_def L v0(1) v1(1) v2(1))
  moreover have "command_in 1 c1 p0 = command_in 1 c1 p" "command_in 2 c2 p1 = command_in 2 c2 p"
    by (simp_all add: command_in_def v0(4) v1(4))
  ultimately show ?thesis
    using v0 v1 v2 by (intro exI [of _ p2] exI [of _ "e0 @ e1 @ e2"]) (simp add: applied_append)
qed

section \<open>A batch that is complete\<close>

lemma fold_mark_voted_flag2: "\<forall>s \<in> set ord. s \<le> m \<Longrightarrow> flag2 p \<le> m \<Longrightarrow> flag2 (fold mark_voted ord p) \<le> m"
proof (induction ord arbitrary: p)
  case (Cons s ord)
  have "flag2 (mark_voted s p) \<le> m" using Cons.prems by (simp add: mark_voted_def split: option.split)
  with Cons show ?case by simp
qed simp

lemma not_leader_fold_mark_voted: "not_leader s (fold mark_voted ord p) = not_leader s p"
  by (induction ord arbitrary: p) (simp_all add: not_leader_mark_voted)

lemma batch_completes:
  assumes "fmlookup (log p) (Counter c) = None" "int (len_map (l (record_proposal (proposes n c) p))) = Total cfg"
    and "\<forall>s \<in> set ord1. s \<le> Counter c" "flag2 p \<le> Counter c" "0 < Total cfg"
  shows "\<exists>q. HandlePropose cfg ord1 ord2 (proposes n c) p =
      (q, [Broadcast (MVote \<lparr> vSlot = Counter c, vId = cid p, vL = l (record_proposal (proposes n c) p) \<rparr>)]) \<and>
    execute q = execute p"
proof -
  define p1 where "p1 = record_proposal (proposes n c) p"
  define p2 where "p2 = fold mark_voted ord1 p1"
  have p1: "execute p1 = execute p" "cid p1 = cid p" "flag2 p1 \<le> Counter c" "int (len_map (l p1)) = Total cfg"
    "not_leader (Counter c) p1"
    using assms(2,4) record_fields [of p "proposes n c"] assms(1)
    by (simp_all add: p1_def recorded(1-5) [OF assms(1)] not_leader_def proposes_def new_entry_def)
  have p2: "flag2 p2 \<le> Counter c" "l p2 = l p1" "cid p2 = cid p" "execute p2 = execute p"
    "not_leader (Counter c) p2"
    using fold_mark_voted_flag2 [OF assms(3) p1(3)] p1 by (simp_all add: p2_def not_leader_fold_mark_voted)
  have "mark_phase cfg (execute p + Total cfg) ord1 p1 = p2"
    by (simp add: mark_phase_def batch_ready_def p1 p2_def)
  moreover have "vote_phase cfg (execute p + Total cfg) (Counter c) p2 =
      (p2\<lparr>l := fmempty\<rparr>, [Broadcast (MVote \<lparr> vSlot = Counter c, vId = cid p, vL = l p1 \<rparr>)])"
    using p1(4) p2 by (simp add: vote_phase_def batch_ready_def)
  moreover have "exec_phase cfg False ord2 (p2\<lparr>l := fmempty\<rparr>) = (p2\<lparr>l := fmempty\<rparr>, [])"
    using assms(5) by (simp add: exec_phase_def)
  moreover have "pSlot (proposes n c) = Counter c" by (simp add: proposes_def)
  moreover have "\<not> Counter c < flag2 p2" using p2(1) by simp
  ultimately have "HandlePropose cfg ord1 ord2 (proposes n c) p =
      (p2\<lparr>l := fmempty\<rparr>, [Broadcast (MVote \<lparr> vSlot = Counter c, vId = cid p, vL = l p1 \<rparr>)])"
    by (simp add: HandlePropose_def Let_def p1(1) flip: p1_def)
  then show ?thesis by (simp add: p1_def p2(4))
qed

section \<open>The run\<close>

definition stall_inputs :: "Command \<Rightarrow> Command \<Rightarrow> Command \<Rightarrow> (gid \<times> Input) list" where
  "stall_inputs c0 c1 c2 =
     [(''1.1'', InRequest (ask c0)), (''1.2'', InRequest (ask c1)), (''1.3'', InRequest (ask c2)),
      (''1.1'', InPropose (proposes ''1.2'' c1) [0, 1] [0, 1]),
      (''1.1'', InPropose (proposes ''1.3'' c2) [0, 1, 2] [0, 1, 2]),
      (''1.2'', InPropose (proposes ''1.1'' c0) [0, 1] [0, 1]),
      (''1.2'', InVote (vote_for_all ''1.1'' [c0, c1, c2]) [0, 1, 2]),
      (''1.2'', InPropose (proposes ''1.3'' c2) [2] [2]),
      (''1.3'', InPropose (proposes ''1.1'' c0) [0, 2] [0, 2]),
      (''1.3'', InVote (vote_for_all ''1.1'' [c0, c1, c2]) [0, 1, 2]),
      (''1.3'', InPropose (proposes ''1.2'' c1) [1] [1])]"

text \<open>
  Perfect links: what reaches a replica from another is what that one has broadcast in the run, all
  of it, once, and in this order.
\<close>

fun brings :: "Message \<Rightarrow> Input \<Rightarrow> bool" where
  "brings (MPropose m) (InPropose m' ord1 ord2) \<longleftrightarrow> m' = gob_propose m"
| "brings (MVote v) (InVote v' ord) \<longleftrightarrow> v' = gob_vote v"
| "brings m inp \<longleftrightarrow> False"

fun sender_of :: "Input \<Rightarrow> gid option" where
  "sender_of (InRequest r) = None"
| "sender_of (InPropose m ord1 ord2) = Some (pID m)"
| "sender_of (InVote v ord) = Some (vId v)"

fun sent_in_order :: "Config \<Rightarrow> (gid \<times> Input) list \<Rightarrow> System \<Rightarrow> (gid \<times> Message) list" where
  "sent_in_order cfg [] S = []"
| "sent_in_order cfg ((i, inp) # ins) S =
     map (Pair i) (broadcasts (snd (handle cfg inp (replicas S i)))) @
     sent_in_order cfg ins (deliver cfg i inp S)"

definition perfect_links :: "Config \<Rightarrow> gid set \<Rightarrow> (gid \<times> Input) list \<Rightarrow> System \<Rightarrow> bool" where
  "perfect_links cfg ids ins S \<longleftrightarrow>
     (\<forall>i \<in> ids. \<forall>j \<in> ids - {i}.
        list_all2 brings (map snd (filter (\<lambda>x. fst x = j) (sent_in_order cfg ins S)))
          (filter (\<lambda>inp. sender_of inp = Some j) (map snd (filter (\<lambda>x. fst x = i) ins))))"

lemma gob_same:
  "Value c \<noteq> Some [] \<Longrightarrow> gob_propose (proposes n c) = proposes n c"
  "\<forall>c \<in> set cs. Value c \<noteq> Some [] \<Longrightarrow> gob_vote (vote_for_all n cs) = vote_for_all n cs"
proof -
  show "gob_propose (proposes n c) = proposes n c" if "Value c \<noteq> Some []"
    using that by (simp add: proposes_def gob_propose_def gob_request_def gob_command_same zero_request_def
        gob_command_def gob_value_def zero_command_def)
  have "fmmap gob_ballot (fold (\<lambda>c. fmupd (Counter c) (ballot_for n c)) cs L) =
      fold (\<lambda>c. fmupd (Counter c) (ballot_for n c)) cs (fmmap gob_ballot L)"
    if "\<forall>c \<in> set cs. Value c \<noteq> Some []" for L
    using that by (induction cs arbitrary: L)
      (simp_all add: fmmap_fmupd gob_ballot_def ballot_for_def gob_command_same)
  then show "gob_vote (vote_for_all n cs) = vote_for_all n cs" if "\<forall>c \<in> set cs. Value c \<noteq> Some []"
    using that by (simp add: gob_vote_def vote_for_all_def)
qed

lemma receives_proposal:
  "(j, MPropose (proposes j c)) \<in> sent S \<Longrightarrow> j \<noteq> i \<Longrightarrow> Value c \<noteq> Some [] \<Longrightarrow>
     may_receive C S i (InPropose (proposes j c) ord1 ord2)"
  by (auto intro!: exI [of _ j] exI [of _ "proposes j c"] simp: gob_same)

lemma receives_vote:
  "(j, MVote (vote_for_all j cs)) \<in> sent S \<Longrightarrow> j \<noteq> i \<Longrightarrow> \<forall>c \<in> set cs. Value c \<noteq> Some [] \<Longrightarrow>
     may_receive C S i (InVote (vote_for_all j cs) ord)"
  by (auto intro!: exI [of _ j] exI [of _ "vote_for_all j cs"] simp: gob_same)

text \<open>The states the three replicas go through, and what they broadcast.\<close>

lemma stall_steps:
  assumes c: "Counter c0 = 0" "Counter c1 = 1" "Counter c2 = 2"
  shows "HandlePropose three ord1 ord2 (proposes ''1.2'' c1) (started ''1.1'' c0) =
      (record_proposal (proposes ''1.2'' c1) (started ''1.1'' c0), [])"
    and "HandlePropose three ord1 ord2 (proposes ''1.1'' c0) (started ''1.2'' c1) =
      (record_proposal (proposes ''1.1'' c0) (started ''1.2'' c1), [])"
    and "HandlePropose three ord1 ord2 (proposes ''1.1'' c0) (started ''1.3'' c2) =
      (record_proposal (proposes ''1.1'' c0) (started ''1.3'' c2), [])"
  using c by (simp_all add: proposal_recorded gomap_simps)

lemma stall_vote:
  assumes c: "Counter c0 = 0" "Counter c1 = 1" "Counter c2 = 2"
  shows "\<exists>q. HandlePropose three [0, 1, 2] [0, 1, 2] (proposes ''1.3'' c2)
        (record_proposal (proposes ''1.2'' c1) (started ''1.1'' c0)) =
      (q, [Broadcast (MVote (vote_for_all ''1.1'' [c0, c1, c2]))]) \<and> execute q = 0"
  using batch_completes [of "record_proposal (proposes ''1.2'' c1) (started ''1.1'' c0)" c2 "''1.3''"
      three "[0, 1, 2]" "[0, 1, 2]"] c Total_three(1)
  by (simp add: vote_for_all_def gomap_simps)

text \<open>A proposal that arrives after its command has been applied starts a batch of its own.\<close>

lemma stall_late:
  assumes "log p = fmdrop 2 (fmdrop 1 (fmdrop 0 L))" "fmdom' L \<subseteq> {0, 1, 2}" "l p = fmdrop 2 (fmdrop 1 (fmdrop 0 M))"
    and "fmdom' M \<subseteq> {0, 1, 2}" "execute p = 3" "count p \<le> 1" "flag2 p = 0" "0 \<le> Counter c"
  shows "HandlePropose three ord1 ord2 (proposes n c) p = (record_proposal (proposes n c) p, []) \<and>
    fmdom' (log (record_proposal (proposes n c) p)) = {Counter c} \<and> execute (record_proposal (proposes n c) p) = 3"
proof -
  have none: "fmlookup (log p) s = None" "fmlookup (l p) s = None" for s
    using assms(1-4) by (auto simp: fmlookup_drop fmlookup_dom'_iff intro!: fmdom'_notD)
  then have empty: "log p = fmempty" "l p = fmempty" by (auto intro: fmap_ext)
  then show ?thesis
    using assms(5-8) by (simp add: proposal_recorded gomap_simps)
qed

text \<open>
  C16: three replicas follow the code, three clients number their commands apart, every message is
  delivered to every other replica, once and in the order in which its sender sent it; and yet
  one replica has applied nothing while the others have applied all three commands, and no
  message is left that could change it.
\<close>

theorem fast_peers_stall:
  assumes "Counter c0 = 0" "Counter c1 = 1" "Counter c2 = 2" and "no_empty_value {c0, c1, c2}"
  shows "\<exists>ins S. run_valid three {''1.1'', ''1.2'', ''1.3''} {c0, c1, c2} ins (init_system three) \<and>
    S = run_system three ins (init_system three) \<and>
    perfect_links three {''1.1'', ''1.2'', ''1.3''} ins (init_system three) \<and>
    hist S ''1.1'' = [] \<and> hist S ''1.2'' = [(0, c0), (1, c1), (2, c2)] \<and>
    hist S ''1.3'' = [(0, c0), (1, c1), (2, c2)]"
proof -
  note c = assms(1-3)
  have v: "Value c0 \<noteq> Some []" "Value c1 \<noteq> Some []" "Value c2 \<noteq> Some []"
    using assms(4) by (simp_all add: no_empty_value_def)
  let ?vote = "vote_for_all ''1.1'' [c0, c1, c2]"
  let ?b = "record_proposal (proposes ''1.1'' c0) (started ''1.2'' c1)"
  let ?c = "record_proposal (proposes ''1.1'' c0) (started ''1.3'' c2)"
  obtain a where a: "HandlePropose three [0, 1, 2] [0, 1, 2] (proposes ''1.3'' c2)
        (record_proposal (proposes ''1.2'' c1) (started ''1.1'' c0)) = (a, [Broadcast (MVote ?vote)])"
    using stall_vote [OF c] by blast
  obtain b eb where b: "HandleVote three [0, 1, 2] ?vote ?b = (b, eb)" "execute b = 3"
      "log b = fmdrop 2 (fmdrop 1 (fmdrop 0 (log ?b)))" "l b = fmdrop 2 (fmdrop 1 (fmdrop 0 (l ?b)))"
      "flag2 b = 0" "count b = 1" "applied eb = [(0, c0), (1, c1), (2, c2)]" "broadcasts eb = []"
    using votes_apply [of ?b c0 c1 c2 "''1.1''", OF _ _ c] c by auto
  obtain d ed where d: "HandleVote three [0, 1, 2] ?vote ?c = (d, ed)" "execute d = 3"
      "log d = fmdrop 2 (fmdrop 1 (fmdrop 0 (log ?c)))" "l d = fmdrop 2 (fmdrop 1 (fmdrop 0 (l ?c)))"
      "flag2 d = 0" "count d = 1" "applied ed = [(0, c0), (1, c1), (2, c2)]" "broadcasts ed = []"
    using votes_apply [of ?c c0 c1 c2 "''1.1''", OF _ _ c] c by auto
  have late: "HandlePropose three [2] [2] (proposes ''1.3'' c2) b = (record_proposal (proposes ''1.3'' c2) b, [])"
    "fmdom' (log (record_proposal (proposes ''1.3'' c2) b)) = {2}"
    "HandlePropose three [1] [1] (proposes ''1.2'' c1) d = (record_proposal (proposes ''1.2'' c1) d, [])"
    "fmdom' (log (record_proposal (proposes ''1.2'' c1) d)) = {1}"
    using stall_late [OF b(3) _ b(4) _ b(2), of c2 "[2]" "[2]" "''1.3''"] b(5,6)
      stall_late [OF d(3) _ d(4) _ d(2), of c1 "[1]" "[1]" "''1.2''"] d(5,6) c
    by auto
  note steps = stall_inputs_def deliver_simps init_system_def started_step stall_steps [OF c] a b d late
  have dom: "fmdom' (vL ?vote) = {1, 0, 2}" by (auto simp: vote_for_all_def c)
  have valid: "run_valid three {''1.1'', ''1.2'', ''1.3''} {c0, c1, c2} (stall_inputs c0 c1 c2) (init_system three)"
    using c v by (simp add: steps receives_proposal receives_vote range_order_def insert_commute dom
        del: may_receive.simps(2,3))
  let ?S = "run_system three (stall_inputs c0 c1 c2) (init_system three)"
  have h: "hist ?S ''1.1'' = []" "hist ?S ''1.2'' = [(0, c0), (1, c1), (2, c2)]"
    "hist ?S ''1.3'' = [(0, c0), (1, c1), (2, c2)]"
    by (simp_all add: steps)
  have "sent_in_order three (stall_inputs c0 c1 c2) (init_system three) =
     [(''1.1'', MPropose (proposes ''1.1'' c0)), (''1.2'', MPropose (proposes ''1.2'' c1)),
      (''1.3'', MPropose (proposes ''1.3'' c2)), (''1.1'', MVote ?vote)]"
    by (simp add: steps)
  moreover have "pID (proposes n e) = n" "vId (vote_for_all n cs) = n" for n e cs
    by (simp_all add: proposes_def vote_for_all_def)
  ultimately have "perfect_links three {''1.1'', ''1.2'', ''1.3''} (stall_inputs c0 c1 c2) (init_system three)"
    using v by (simp add: perfect_links_def stall_inputs_def gob_same insert_Diff_if)
  with valid h show ?thesis by blast
qed

theorem fast_peers_stall_witness:
  "\<exists>ins S. S = run_system three ins (init_system three) \<and> hist S ''1.1'' = [] \<and>
     length (hist S ''1.2'') = 3"
proof -
  let ?c = "\<lambda>s. (example_command 1 (Some [6]))\<lparr>Counter := s\<rparr>"
  have "no_empty_value {?c 0, ?c 1, ?c 2}" by (simp add: no_empty_value_def example_command_def)
  from fast_peers_stall [OF _ _ _ this] obtain ins S where "S = run_system three ins (init_system three)"
    "hist S ''1.1'' = []" "hist S ''1.2'' = [(0, ?c 0), (1, ?c 1), (2, ?c 2)]" by auto
  then show ?thesis by (intro exI [of _ ins] exI [of _ S]) simp
qed

end
