(* ===== verification/Progress.thy ===== *)
theory Progress
  imports Consensus_Props
begin

text \<open>
  What does make a replica go on: once its entries are marked as voted, which happens when a batch
  of proposals is complete, votes for them from half of the nodes make it apply them all, in
  whatever order the votes and the slots in them come. With \<open>Stalls\<close> this is the whole story: the
  votes are enough, but they need not be sent.
\<close>

section \<open>What exec does to entries that are voted for\<close>

definition all_voted :: "int \<Rightarrow> Consensus \<Rightarrow> bool" where
  "all_voted k p \<longleftrightarrow> (\<forall>s. execute p \<le> s \<and> s < k \<longrightarrow> (\<exists>e. fmlookup (log p) s = Some e \<and> Voted e))"

definition next_open :: "int \<Rightarrow> Consensus \<Rightarrow> bool" where
  "next_open k p \<longleftrightarrow> (execute p < k \<longrightarrow> (\<exists>e. fmlookup (log p) (execute p) = Some e \<and> \<not> commit e))"

definition keeps_open :: "int \<Rightarrow> Consensus \<Rightarrow> Consensus \<Rightarrow> bool" where
  "keeps_open k p q \<longleftrightarrow> execute p \<le> execute q \<and>
     (\<forall>s. execute q \<le> s \<and> s < k \<longrightarrow> fmlookup (log q) s = fmlookup (log p) s)"

lemma exec_voted: "all_voted k p \<longrightarrow> next_open k (fst (exec cfg p)) \<and> keeps_open k p (fst (exec cfg p))"
proof (rule exec_rule [where Q = "\<lambda>p r. all_voted k p \<longrightarrow> next_open k (fst r) \<and> keeps_open k p (fst r)"])
  fix p :: Consensus
  assume "fmlookup (log p) (execute p) = None"
  then show "all_voted k p \<longrightarrow> next_open k (fst (p, [])) \<and> keeps_open k p (fst (p, []))"
    by (force simp: all_voted_def next_open_def keeps_open_def)
next
  fix p :: Consensus and e
  assume "fmlookup (log p) (execute p) = Some e" "\<not> commit e"
  then show "all_voted k p \<longrightarrow> next_open k (fst (p, [])) \<and> keeps_open k p (fst (p, []))"
    by (simp add: next_open_def keeps_open_def)
next
  fix p :: Consensus and e
  assume "fmlookup (log p) (execute p) = Some e" "vote_owed cfg e"
  then have "all_voted k p \<Longrightarrow> k \<le> execute p"
    by (force simp: all_voted_def vote_owed_def not_less [symmetric])
  then show "all_voted k p \<longrightarrow> next_open k (fst (exec_reset e p,
        [Broadcast (MVote \<lparr> vSlot = execute p, vId = cid p, vL = l p \<rparr>)])) \<and>
      keeps_open k p (fst (exec_reset e p, [Broadcast (MVote \<lparr> vSlot = execute p, vId = cid p, vL = l p \<rparr>)]))"
    by (auto simp: next_open_def keeps_open_def)
next
  fix p p' :: Consensus and e and evs :: "Event list"
  assume IH: "all_voted k (exec_next e p) \<longrightarrow> next_open k (fst (p', evs)) \<and> keeps_open k (exec_next e p) (fst (p', evs))"
  have "all_voted k (exec_next e p)" if "all_voted k p"
    using that by (auto simp: all_voted_def fmlookup_drop)
  with IH show "all_voted k p \<longrightarrow> next_open k (fst (p', Applied (execute p) (ecommand e) #
        reply_events e (fst (Execute (db p) (ecommand e))) @ evs)) \<and>
      keeps_open k p (fst (p', Applied (execute p) (ecommand e) #
        reply_events e (fst (Execute (db p) (ecommand e))) @ evs))"
    by (auto simp: keeps_open_def fmlookup_drop)
qed

section \<open>Counting votes\<close>

text \<open>\<open>A s\<close> are the names under which the slot \<open>s\<close> has been voted for so far.\<close>

definition enough :: "Config \<Rightarrow> gid set \<Rightarrow> bool" where
  "enough cfg B \<longleftrightarrow> B \<noteq> {} \<and> go_div (cn cfg) 2 \<le> int (card B)"

definition counted :: "Config \<Rightarrow> gid set \<Rightarrow> entry \<Rightarrow> bool" where
  "counted cfg B e \<longleftrightarrow>
     Voted e \<and> quorum_ok (equorum e) \<and> B \<subseteq> acked (equorum e) \<and> (enough cfg B \<longrightarrow> commit e)"

definition counts :: "Config \<Rightarrow> int \<Rightarrow> (int \<Rightarrow> gid set) \<Rightarrow> Consensus \<Rightarrow> bool" where
  "counts cfg k A p \<longleftrightarrow> next_open k p \<and>
     (\<forall>s. execute p \<le> s \<and> s < k \<longrightarrow> (\<exists>e. fmlookup (log p) s = Some e \<and> counted cfg (A s) e))"

lemma countsD:
  "counts cfg k A p \<Longrightarrow> next_open k p"
  "counts cfg k A p \<Longrightarrow> execute p \<le> s \<Longrightarrow> s < k \<Longrightarrow> \<exists>e. fmlookup (log p) s = Some e \<and> counted cfg (A s) e"
  by (simp_all add: counts_def)

lemma counts_done: "counts cfg k A p \<Longrightarrow> \<forall>s. s < k \<and> execute p \<le> s \<longrightarrow> enough cfg (A s) \<Longrightarrow> k \<le> execute p"
  by (force simp: counts_def counted_def next_open_def not_less [symmetric])

text \<open>The entry after one more vote, with and without a majority.\<close>

lemma counted_ack:
  assumes "counted cfg B e"
  shows "Majority cfg (ACK (equorum e) i) \<Longrightarrow>
      counted cfg (insert i B) (e\<lparr>equorum := ACK (equorum e) i, commit := True, received := True\<rparr>)"
    and "\<not> Majority cfg (ACK (equorum e) i) \<Longrightarrow> counted cfg (insert i B) (e\<lparr>equorum := ACK (equorum e) i\<rparr>)"
proof -
  have ok: "quorum_ok (ACK (equorum e) i)" "insert i B \<subseteq> acked (ACK (equorum e) i)" "Voted e"
    using assms by (auto simp: counted_def quorum_ok_ACK)
  then show "counted cfg (insert i B) (e\<lparr>equorum := ACK (equorum e) i, commit := True, received := True\<rparr>)"
    by (simp add: counted_def)
  assume "\<not> Majority cfg (ACK (equorum e) i)"
  moreover have "card (insert i B) \<le> card (acked (ACK (equorum e) i))"
    using ok(2) by (intro card_mono finite_acked)
  ultimately have "\<not> enough cfg (insert i B)"
    using qs.ok_size [OF ok(1)] by (simp add: enough_def Majority_def Size_def)
  with ok show "counted cfg (insert i B) (e\<lparr>equorum := ACK (equorum e) i\<rparr>)" by (simp add: counted_def)
qed

lemma counts_update:
  assumes "counts cfg k A p" and "execute p \<le> s \<Longrightarrow> s < k \<Longrightarrow> counted cfg (insert i (A s)) e"
    and "execute p \<le> s'" "s' < k"
  shows "\<exists>e'. fmlookup (fmupd s e (log p)) s' = Some e' \<and> counted cfg ((A(s := insert i (A s))) s') e'"
  using assms(2-4) countsD(2) [OF assms(1,3,4)] by (cases "s' = s") simp_all

lemma counts_exec:
  assumes "\<And>s. execute p \<le> s \<Longrightarrow> s < k \<Longrightarrow> \<exists>e. fmlookup (log p) s = Some e \<and> counted cfg (A s) e"
  shows "counts cfg k A (fst (exec cfg p))"
proof -
  have "all_voted k p" using assms unfolding all_voted_def counted_def by blast
  then have x: "next_open k (fst (exec cfg p))" "keeps_open k p (fst (exec cfg p))"
    using exec_voted [of k p cfg] by simp_all
  then show ?thesis using assms unfolding counts_def keeps_open_def by (metis order_trans)
qed

lemma counts_vote:
  assumes "counts cfg k A p"
  shows "counts cfg k (A(s := insert (cbId sc) (A s))) (fst (vote_entry cfg s sc p))"
proof (cases "fmlookup (log p) s = None \<and> execute p > s")
  case True
  with assms show ?thesis by (auto simp: vote_entry_def counts_def)
next
  case False
  define e0 where "e0 = (case fmlookup (log p) s of None \<Rightarrow> new_entry 0 (cbCommand sc) 0 | Some e \<Rightarrow> e)"
  let ?q = "ACK (equorum e0) (cbId sc)"
  have step: "vote_entry cfg s sc p = (if Majority cfg ?q
      then exec cfg (p\<lparr>log := fmupd s (e0\<lparr>equorum := ?q, commit := True, received := True\<rparr>) (log p)\<rparr>)
      else (p\<lparr>log := fmupd s (e0\<lparr>equorum := ?q\<rparr>) (log p)\<rparr>, []))"
    unfolding vote_entry_def if_not_P [OF False] by (simp add: e0_def Let_def)
  have e0: "counted cfg (A s) e0" if "execute p \<le> s" "s < k"
    using countsD(2) [OF assms that] by (auto simp: e0_def)
  show ?thesis
  proof (cases "Majority cfg ?q")
    case True
    have "counts cfg k (A(s := insert (cbId sc) (A s)))
        (fst (exec cfg (p\<lparr>log := fmupd s (e0\<lparr>equorum := ?q, commit := True, received := True\<rparr>) (log p)\<rparr>)))"
      using counts_update [OF assms counted_ack(1) [OF e0 True]] by (intro counts_exec) simp
    then show ?thesis unfolding step by (simp only: True if_True)
  next
    case False
    have "next_open k (p\<lparr>log := fmupd s (e0\<lparr>equorum := ?q\<rparr>) (log p)\<rparr>)"
      using countsD(1) [OF assms] by (auto simp: next_open_def e0_def)
    with counts_update [OF assms counted_ack(2) [OF e0 False]]
    show ?thesis unfolding step counts_def by (simp add: False)
  qed
qed

text \<open>A whole message, and a sequence of them.\<close>

definition names_in :: "(int, CommandBallot) gomap \<Rightarrow> int list \<Rightarrow> int \<Rightarrow> gid set" where
  "names_in L ord s = {cbId sc | sc. s \<in> set ord \<and> fmlookup L s = Some sc}"

lemma counts_loop:
  "counts cfg k A p \<Longrightarrow> counts cfg k (\<lambda>s. A s \<union> names_in L ord s) (fst (vote_loop cfg L ord p))"
proof (induction ord arbitrary: p A)
  case (Cons s ord)
  let ?r = "case fmlookup L s of None \<Rightarrow> (p, []) | Some sc \<Rightarrow> vote_entry cfg s sc p"
  let ?A = "\<lambda>s'. A s' \<union> names_in L [s] s'"
  have "counts cfg k ?A (fst ?r)"
  proof (cases "fmlookup L s")
    case None
    then have "?A = A" by (auto simp: names_in_def)
    with None Cons.prems show ?thesis by simp
  next
    case (Some sc)
    then have "?A = A(s := insert (cbId sc) (A s))" by (auto simp: names_in_def fun_eq_iff)
    with Some counts_vote [OF Cons.prems, of s sc] show ?thesis by simp
  qed
  from Cons.IH [OF this] have "counts cfg k (\<lambda>s'. ?A s' \<union> names_in L ord s') (fst (vote_loop cfg L ord (fst ?r)))" .
  moreover have "(\<lambda>s'. ?A s' \<union> names_in L ord s') = (\<lambda>s'. A s' \<union> names_in L (s # ord) s')"
    by (auto simp: names_in_def)
  ultimately show ?case by (simp add: Let_def split_beta)
qed (simp add: names_in_def)

definition voting :: "(Vote_msg \<times> int list) list \<Rightarrow> int \<Rightarrow> gid set" where
  "voting vs s = (\<Union>(v, ord) \<in> set vs. names_in (vL v) ord s)"

lemma counts_messages:
  "counts cfg k A p \<Longrightarrow>
     counts cfg k (\<lambda>s. A s \<union> voting vs s) (fst (handle_all cfg (map (\<lambda>(v, ord). InVote v ord) vs) p))"
proof (induction vs arbitrary: p A)
  case (Cons w vs)
  obtain v ord where w: "w = (v, ord)" by fastforce
  have "counts cfg k (\<lambda>s. A s \<union> names_in (vL v) ord s) (fst (HandleVote cfg ord v p))"
    using counts_loop [OF Cons.prems] by (simp add: HandleVote_def)
  from Cons.IH [OF this] show ?case
    by (simp add: w voting_def split_beta Un_assoc)
qed (simp add: voting_def)

lemma voting_progress:
  assumes "\<forall>s. execute p \<le> s \<and> s < k \<longrightarrow> (\<exists>e. fmlookup (log p) s = Some e \<and> Voted e \<and> \<not> commit e \<and>
      equorum e = NewQuorum)"
    and "\<forall>s. execute p \<le> s \<and> s < k \<longrightarrow> voting vs s \<noteq> {} \<and> go_div (cn cfg) 2 \<le> int (card (voting vs s))"
  shows "k \<le> execute (fst (handle_all cfg (map (\<lambda>(v, ord). InVote v ord) vs) p))"
proof -
  let ?q = "fst (handle_all cfg (map (\<lambda>(v, ord). InVote v ord) vs) p)"
  have "counts cfg k (\<lambda>s. {}) p"
    using assms(1) by (force simp: counts_def counted_def next_open_def enough_def)
  from counts_messages [OF this, of vs] have c: "counts cfg k (\<lambda>s. voting vs s) ?q" by simp
  moreover have "execute p \<le> execute ?q"
    using in_order_handle_all [of p cfg "map (\<lambda>(v, ord). InVote v ord) vs"]
    by (simp add: in_order_def split_beta)
  ultimately show ?thesis using counts_done [OF c] assms(2) by (simp add: enough_def)
qed

text \<open>
  C13: votes make progress. If a replica has entries for all slots from the next one up to \<open>k\<close>, marked
  as voted and without votes so far, then any sequence of vote messages that for each of these
  slots contains votes under at least \<open>n / 2\<close> different names, and at least one, makes it apply
  them all, whatever else the messages contain and in whatever order they come.
\<close>

theorem votes_make_progress:
  assumes "\<forall>s. execute p \<le> s \<and> s < k \<longrightarrow> (\<exists>e. fmlookup (log p) s = Some e \<and> Voted e \<and> \<not> commit e \<and>
      equorum e = NewQuorum)"
    and "\<forall>s. execute p \<le> s \<and> s < k \<longrightarrow> voting vs s \<noteq> {} \<and> go_div (cn cfg) 2 \<le> int (card (voting vs s))"
  shows "k \<le> execute (fst (handle_all cfg (map (\<lambda>(v, ord). InVote v ord) vs) p))"
  using assms by (rule voting_progress)

text \<open>Two slots of a replica of four, and the votes of two others for both.\<close>

definition voted_replica :: Consensus where
  "voted_replica =
     (let e = \<lambda>s. (new_entry 0 (example_command s (Some [1])) s)\<lparr>Voted := True\<rparr>
      in (NewConsensus MakeDefaultConfig ''1.1'')\<lparr>log := fmupd 0 (e 0) (fmupd 1 (e 1) fmempty)\<rparr>)"

definition vote_both :: "gid \<Rightarrow> Vote_msg" where
  "vote_both n =
     (let b = \<lambda>s. \<lparr> cbCommand = example_command s (Some [1]), cbSlot = s, cbId = n \<rparr>
      in \<lparr> vSlot = 1, vId = n, vL = fmupd 0 (b 0) (fmupd 1 (b 1) fmempty) \<rparr>)"

lemma names_in_one: "s \<in> set ord \<Longrightarrow> fmlookup L s = Some sc \<Longrightarrow> names_in L ord s = {cbId sc}"
  by (auto simp: names_in_def)

lemma names_in_both:
  assumes "s = 0 \<or> s = 1" "s \<in> set ord"
  shows "names_in (vL (vote_both n)) ord s = {n}"
proof -
  have "fmlookup (vL (vote_both n)) s = Some \<lparr> cbCommand = example_command s (Some [1]), cbSlot = s, cbId = n \<rparr>"
    using assms(1) by (auto simp: vote_both_def Let_def)
  from names_in_one [OF assms(2) this] show ?thesis by simp
qed

theorem votes_make_progress_witness:
  "2 \<le> execute (fst (handle_all (MakeDefaultConfig\<lparr>cn := 4\<rparr>)
     (map (\<lambda>(v, ord). InVote v ord) [(vote_both ''1.2'', [0, 1]), (vote_both ''1.3'', [1, 0])]) voted_replica))"
proof (rule votes_make_progress)
  have range: "s = 0 \<or> s = 1" if "execute voted_replica \<le> s \<and> s < 2" for s
    using that by (auto simp: voted_replica_def Let_def NewConsensus_def)
  show "\<forall>s. execute voted_replica \<le> s \<and> s < 2 \<longrightarrow> (\<exists>e. fmlookup (log voted_replica) s = Some e \<and>
      Voted e \<and> \<not> commit e \<and> equorum e = NewQuorum)"
    using range by (fastforce simp: voted_replica_def Let_def new_entry_def)
  have "voting [(vote_both ''1.2'', [0, 1]), (vote_both ''1.3'', [1, 0])] s = {''1.2'', ''1.3''}"
    if "s = 0 \<or> s = 1" for s
    using that by (auto simp: voting_def names_in_both)
  then show "\<forall>s. execute voted_replica \<le> s \<and> s < 2 \<longrightarrow>
      voting [(vote_both ''1.2'', [0, 1]), (vote_both ''1.3'', [1, 0])] s \<noteq> {} \<and>
      go_div (cn (MakeDefaultConfig\<lparr>cn := 4\<rparr>)) 2
        \<le> int (card (voting [(vote_both ''1.2'', [0, 1]), (vote_both ''1.3'', [1, 0])] s))"
    using range by (simp add: go_div_pos)
qed

end
