(* ===== verification/Batches.thy ===== *)
theory Batches
  imports Stalls Progress
begin

text \<open>
  A replica that gets a whole batch of proposals before the first vote: it votes once, for all of them,
  and when it counts enough votes it applies them all.
\<close>

section \<open>A replica collects the proposals of a batch\<close>

text \<open>The slots a replica has heard of are \<open>D\<close>, and it has counted no vote.\<close>

definition collecting :: "gid \<Rightarrow> int set \<Rightarrow> Consensus \<Rightarrow> bool" where
  "collecting n D p \<longleftrightarrow>
     cid p = n \<and> execute p = 0 \<and> flag2 p = 0 \<and> count p = int (card D) - 1 \<and> finite D \<and>
     fmdom' (log p) = D \<and> fmdom' (l p) = D \<and> fresh_log p \<and>
     (\<forall>s b. fmlookup (l p) s = Some b \<longrightarrow> cbId b = n)"

lemma collecting_new: "collecting n {} (NewConsensus cfg n)"
  by (simp add: collecting_def NewConsensus_def fresh_log_def)

lemma collecting_len: "collecting n D p \<Longrightarrow> len_map (l p) = card D"
  by (simp add: collecting_def len_map_def)

lemma collect_request:
  assumes "collecting n D p" "Counter (rCommand r) \<notin> D"
  shows "collecting n (insert (Counter (rCommand r)) D) (fst (HandleRequest r p))"
  using assms by (simp add: collecting_def HandleRequest_def Propose_def Let_def fresh_log_def)

lemma collect_record:
  assumes "collecting n D p" "pSlot m \<notin> D"
  shows "collecting n (insert (pSlot m) D) (record_proposal m p)"
proof -
  have none: "fmlookup (log p) (pSlot m) = None"
    using assms by (auto simp: collecting_def intro: fmdom'_notD)
  note r = record_fields [OF none]
  show ?thesis
    using assms unfolding collecting_def fresh_log_def r by (simp add: new_entry_def)
qed

lemma collect_proposal:
  assumes "collecting n D p" "pSlot m \<notin> D" "0 \<le> pSlot m" "int (card (insert (pSlot m) D)) < Total cfg"
  shows "HandlePropose cfg ord1 ord2 m p = (record_proposal m p, [])"
proof -
  have c: "collecting n (insert (pSlot m) D) (record_proposal m p)"
    by (rule collect_record [OF assms(1,2)])
  then have "\<not> batch_ready cfg (execute (record_proposal m p) + Total cfg) (record_proposal m p)"
    using assms(4) collecting_len [OF c] by (simp add: batch_ready_def) (simp add: collecting_def)
  with c assms(3,4) collecting_len [OF c] show ?thesis
    by (simp add: HandlePropose_def Let_def mark_phase_def vote_phase_def exec_phase_def)
      (simp add: collecting_def)
qed

text \<open>Marking entries, and the loop that marks them a second time when none is committed.\<close>

definition all_marked :: "int set \<Rightarrow> Consensus \<Rightarrow> bool" where
  "all_marked M p \<longleftrightarrow> (\<forall>s \<in> M. \<exists>e. fmlookup (log p) s = Some e \<and> Voted e)"

lemma marked_voted:
  assumes "fresh_log p"
  shows "fresh_log (mark_voted s p)"
    and "all_marked M p \<Longrightarrow> all_marked M (mark_voted s p)"
    and "s \<in> fmdom' (log p) \<Longrightarrow> all_marked M p \<Longrightarrow> all_marked (insert s M) (mark_voted s p)"
  using assms by (auto simp: mark_voted_def fresh_log_def all_marked_def fmlookup_dom'_iff split: option.split)

lemma marked_fold:
  assumes "fresh_log p" "set ord \<subseteq> fmdom' (log p)" "all_marked M p"
  shows "fresh_log (fold mark_voted ord p) \<and> all_marked (M \<union> set ord) (fold mark_voted ord p)"
  using assms
proof (induction ord arbitrary: p M)
  case (Cons s ord)
  then have "fresh_log (mark_voted s p)" "all_marked (insert s M) (mark_voted s p)"
    "set ord \<subseteq> fmdom' (log (mark_voted s p))"
    by (simp_all add: marked_voted)
  from Cons.IH [OF this(1,3,2)] show ?case by simp
qed simp

lemma marked_loop:
  assumes "fresh_log p" "all_marked M p"
  shows "fresh_log (fst (mark_exec_loop cfg ord p)) \<and> all_marked M (fst (mark_exec_loop cfg ord p)) \<and>
    snd (mark_exec_loop cfg ord p) = [] \<and> execute (fst (mark_exec_loop cfg ord p)) = execute p"
  using assms
proof (induction ord arbitrary: p)
  case (Cons s ord)
  have "mark_exec cfg s p = (mark_voted s p, [])"
    using Cons.prems(1) by (auto simp: mark_exec_def mark_voted_def fresh_log_def split: option.split)
  moreover have "fresh_log (mark_voted s p)" "all_marked M (mark_voted s p)"
    using Cons.prems by (simp_all add: marked_voted)
  note Cons.IH [OF this]
  ultimately show ?case by (simp add: Let_def split_beta)
qed simp

text \<open>A replica whose batch is complete: it has voted, and can count.\<close>

definition ready_to_count :: "int set \<Rightarrow> Consensus \<Rightarrow> bool" where
  "ready_to_count D p \<longleftrightarrow> execute p = 0 \<and> fresh_log p \<and> all_marked D p"

definition full_vote :: "gid \<Rightarrow> int set \<Rightarrow> Vote_msg \<Rightarrow> bool" where
  "full_vote n D v \<longleftrightarrow> vId v = n \<and> fmdom' (vL v) = D \<and> (\<forall>s b. fmlookup (vL v) s = Some b \<longrightarrow> cbId b = n)"

lemma collect_last:
  assumes "collecting n D p" "pSlot m \<notin> D" "int (card (insert (pSlot m) D)) = Total cfg"
    and "valid_input p (InPropose m ord1 ord2)"
  defines "v \<equiv> \<lparr> vSlot = pSlot m, vId = n, vL = l (record_proposal m p) \<rparr>"
  shows "\<exists>q. HandlePropose cfg ord1 ord2 m p = (q, [Broadcast (MVote v)]) \<and>
    ready_to_count (insert (pSlot m) D) q \<and> full_vote n (insert (pSlot m) D) v"
proof -
  let ?D = "insert (pSlot m) D"
  define p1 where "p1 = record_proposal m p"
  define p2 where "p2 = fold mark_voted ord1 p1"
  have c: "collecting n ?D p1" unfolding p1_def by (rule collect_record [OF assms(1,2)])
  have ord1: "set ord1 = ?D" using assms(4) c by (simp add: range_order_def collecting_def flip: p1_def)
  have len: "int (len_map (l p1)) = Total cfg" using collecting_len [OF c] assms(3) by simp
  have fresh: "fresh_log p1" "fmdom' (log p1) = ?D" using c by (simp_all add: collecting_def)
  have marked: "fresh_log p2" "all_marked ?D p2"
    using marked_fold [of p1 ord1 "{}"] fresh by (simp_all add: p2_def ord1 all_marked_def)
  have none: "fmlookup (log p) (pSlot m) = None"
    using assms(1,2) by (auto simp: collecting_def intro: fmdom'_notD)
  have p2: "l p2 = l p1" "cid p2 = n" "execute p2 = 0" "not_leader (pSlot m) p2" "execute p1 = 0"
    using c record_fields(1) [OF none]
    by (simp_all add: p2_def not_leader_fold_mark_voted)
      (simp_all add: collecting_def not_leader_def p1_def new_entry_def)
  have v: "v = \<lparr> vSlot = pSlot m, vId = n, vL = l p1 \<rparr>" by (simp add: v_def p1_def)
  define q where "q = p2\<lparr>l := fmempty\<rparr>"
  have "mark_phase cfg (Total cfg) ord1 p1 = p2" "batch_ready cfg (Total cfg) p2"
    by (simp_all add: mark_phase_def batch_ready_def len p2 p2_def)
  moreover from this have "vote_phase cfg (Total cfg) (pSlot m) p2 = (q, [Broadcast (MVote v)])"
    by (simp add: vote_phase_def p2 len q_def v)
  ultimately have step: "HandlePropose cfg ord1 ord2 m p =
      (fst (exec_phase cfg (pSlot m < flag2 p2) ord2 q), Broadcast (MVote v) # snd (exec_phase cfg (pSlot m < flag2 p2) ord2 q))"
    by (simp add: HandlePropose_def Let_def p2 split_beta flip: p1_def)
  have q: "fresh_log (q\<lparr>Member := Member_Reset (Member q)\<rparr>)" "all_marked ?D (q\<lparr>Member := Member_Reset (Member q)\<rparr>)"
    "fresh_log q" "all_marked ?D q" "execute q = 0"
    using marked p2 by (simp_all add: q_def fresh_log_def all_marked_def)
  have "snd (exec_phase cfg f ord2 q) = [] \<and> ready_to_count ?D (fst (exec_phase cfg f ord2 q))" for f
    using marked_loop [OF q(1,2), of cfg ord2] q(3-5) by (simp add: exec_phase_def ready_to_count_def)
  moreover have "full_vote n ?D v"
    using c by (simp add: full_vote_def v collecting_def)
  ultimately show ?thesis unfolding step by blast
qed

section \<open>All the inputs of a replica in a round\<close>

fun is_vote :: "Input \<Rightarrow> bool" where
  "is_vote (InVote v ord) = True"
| "is_vote inp = False"

fun is_proposal :: "Input \<Rightarrow> bool" where
  "is_proposal (InPropose m ord1 ord2) = True"
| "is_proposal inp = False"

text \<open>The slot and the command an input is about.\<close>

fun about :: "Input \<Rightarrow> (int \<times> Command) list" where
  "about (InRequest r) = [(Counter (rCommand r), rCommand r)]"
| "about (InPropose m ord1 ord2) = [(pSlot m, pCommand m)]"
| "about (InVote v ord) = []"

text \<open>First requests and proposals, a proposal the last of them, then votes.\<close>

definition in_rounds :: "Input list \<Rightarrow> bool" where
  "in_rounds is \<longleftrightarrow>
     (let xs = takeWhile (\<lambda>x. \<not> is_vote x) is; vs = dropWhile (\<lambda>x. \<not> is_vote x) is
      in xs \<noteq> [] \<and> is_proposal (List.last xs) \<and> list_all is_vote vs)"

fun valid_all :: "Config \<Rightarrow> Consensus \<Rightarrow> Input list \<Rightarrow> bool" where
  "valid_all cfg p [] = True"
| "valid_all cfg p (i # is) \<longleftrightarrow> valid_input p i \<and> valid_all cfg (fst (handle cfg i p)) is"

lemma valid_all_append:
  "valid_all cfg p (xs @ ys) \<longleftrightarrow> valid_all cfg p xs \<and> valid_all cfg (fst (handle_all cfg xs p)) ys"
  by (induction xs arbitrary: p) (simp_all add: Let_def split_beta)

definition slots_of :: "Input list \<Rightarrow> int list" where
  "slots_of is = map fst (concat (map about is))"

lemma slots_of_simps [simp]:
  "slots_of [] = []" "slots_of (x # xs) = map fst (about x) @ slots_of xs"
  "slots_of (xs @ ys) = slots_of xs @ slots_of ys"
  by (simp_all add: slots_of_def)

lemma slots_of_votes: "list_all is_vote vs \<Longrightarrow> slots_of vs = []"
proof (induction vs)
  case (Cons x vs)
  then show ?case by (cases x) simp_all
qed simp

lemma collect_commands:
  assumes "collecting n D p" "list_all (\<lambda>x. \<not> is_vote x) xs" "distinct (slots_of xs)" "D \<inter> set (slots_of xs) = {}"
    and "\<forall>s \<in> set (slots_of xs). 0 \<le> s" "int (card (D \<union> set (slots_of xs))) < Total cfg"
  shows "collecting n (D \<union> set (slots_of xs)) (fst (handle_all cfg xs p))"
  using assms
proof (induction xs arbitrary: p D)
  case (Cons x xs)
  have fin: "finite D" using Cons.prems(1) by (simp add: collecting_def)
  have step: "collecting n (D \<union> set (map fst (about x))) (fst (handle cfg x p))"
  proof (cases x)
    case (InRequest r)
    with Cons.prems show ?thesis by (simp add: collect_request)
  next
    case (InPropose m ord1 ord2)
    have "card (insert (pSlot m) D) \<le> card (D \<union> set (slots_of (x # xs)))"
      using fin InPropose by (intro card_mono) auto
    with Cons.prems InPropose show ?thesis
      by (simp add: collect_proposal [of n] collect_record)
  qed (use Cons.prems in simp)
  from Cons.IH [OF step] Cons.prems show ?case
    by (simp add: Un_assoc Let_def split_beta Int_Un_distrib2 disjoint_iff)
qed simp

text \<open>The votes a replica gets once it has all the proposals.\<close>

lemma fresh_counts:
  assumes "ready_to_count D p" "{0 ..< k} \<subseteq> D"
  shows "\<forall>s. execute p \<le> s \<and> s < k \<longrightarrow> (\<exists>e. fmlookup (log p) s = Some e \<and> Voted e \<and> \<not> commit e \<and>
      equorum e = NewQuorum)"
proof (intro allI impI)
  fix s assume s: "execute p \<le> s \<and> s < k"
  then have "s \<in> D" using assms by (auto simp: ready_to_count_def)
  then obtain e where "fmlookup (log p) s = Some e" "Voted e"
    using assms(1) by (auto simp: ready_to_count_def all_marked_def)
  then show "\<exists>e. fmlookup (log p) s = Some e \<and> Voted e \<and> \<not> commit e \<and> equorum e = NewQuorum"
    using assms(1) by (auto simp: ready_to_count_def fresh_log_def)
qed


lemma names_in_finite: "finite (names_in L ord s)"
proof (rule finite_subset)
  show "names_in L ord s \<subseteq> {cbId (the (fmlookup L s))}" by (auto simp: names_in_def)
qed simp

lemma voting_finite: "finite (voting vs s)"
  by (auto simp: voting_def names_in_finite)

lemma votes_listed: "list_all is_vote vs \<Longrightarrow> \<exists>ws. vs = map (\<lambda>(v, ord). InVote v ord) ws"
proof (induction vs)
  case (Cons x vs)
  then obtain ws where "vs = map (\<lambda>(v, ord). InVote v ord) ws" by auto
  moreover obtain v ord where "x = InVote v ord" using Cons.prems by (cases x) simp_all
  ultimately show ?case by (intro exI [of _ "(v, ord) # ws"]) simp
qed simp

lemma valid_votes: "valid_all cfg p vs \<Longrightarrow> InVote v ord \<in> set vs \<Longrightarrow> range_order ord (vL v)"
  by (induction vs arbitrary: p) auto

lemma full_vote_names:
  assumes "full_vote j D v" "s \<in> D" "range_order ord (vL v)"
  shows "j \<in> names_in (vL v) ord s"
proof -
  have "s \<in> fmdom' (vL v)" "s \<in> set ord" using assms by (simp_all add: full_vote_def range_order_def)
  then obtain b where "fmlookup (vL v) s = Some b" by (auto simp: fmlookup_dom'_iff)
  with assms(1) \<open>s \<in> set ord\<close> show ?thesis by (auto simp: full_vote_def names_in_def)
qed

lemma enough_votes:
  assumes "ready_to_count D p" "{0 ..< k} \<subseteq> D" "list_all is_vote vs" "valid_all cfg p vs"
    and B: "finite B" "B \<noteq> {}" "go_div (cn cfg) 2 \<le> int (card B)"
      "\<forall>j \<in> B. \<exists>v ord. InVote v ord \<in> set vs \<and> full_vote j D v"
  shows "k \<le> execute (fst (handle_all cfg vs p))"
proof -
  obtain ws where ws: "vs = map (\<lambda>(v, ord). InVote v ord) ws" using votes_listed [OF assms(3)] by blast
  have sub: "B \<subseteq> voting ws s" if s: "s \<in> D" for s
  proof
    fix j assume "j \<in> B"
    with B(4) obtain v ord where v: "InVote v ord \<in> set vs" "full_vote j D v" by blast
    then have "(v, ord) \<in> set ws" by (auto simp: ws)
    with full_vote_names [OF v(2) s valid_votes [OF assms(4) v(1)]]
    show "j \<in> voting ws s" by (auto simp: voting_def)
  qed
  show ?thesis unfolding ws
  proof (rule voting_progress [OF fresh_counts [OF assms(1,2)]], intro allI impI)
    fix s assume "execute p \<le> s \<and> s < k"
    then have "s \<in> D" using assms(1,2) by (auto simp: ready_to_count_def)
    from sub [OF this] have "B \<subseteq> voting ws s" .
    with B(2,3) card_mono [OF voting_finite this]
    show "voting ws s \<noteq> {} \<and> go_div (cn cfg) 2 \<le> int (card (voting ws s))" by auto
  qed
qed

text \<open>The part before the votes ends with the vote of the replica itself.\<close>

lemma in_roundsE:
  assumes "in_rounds is"
  obtains xs m ord1 ord2 vs where "is = xs @ InPropose m ord1 ord2 # vs" "list_all (\<lambda>x. \<not> is_vote x) xs"
    "list_all is_vote vs"
proof -
  let ?t = "takeWhile (\<lambda>x. \<not> is_vote x) is" and ?d = "dropWhile (\<lambda>x. \<not> is_vote x) is"
  have r: "?t \<noteq> []" "is_proposal (List.last ?t)" "list_all is_vote ?d"
    using assms by (simp_all add: in_rounds_def Let_def)
  from r(2) obtain m ord1 ord2 where m: "List.last ?t = InPropose m ord1 ord2"
    by (cases "List.last ?t") simp_all
  have "?t = butlast ?t @ [InPropose m ord1 ord2]" using append_butlast_last_id [OF r(1)] m by simp
  then have "is = butlast ?t @ InPropose m ord1 ord2 # ?d"
    by (metis append.assoc append_Cons append_Nil takeWhile_dropWhile_id)
  moreover have "list_all (\<lambda>x. \<not> is_vote x) (butlast ?t)"
    by (auto simp: list_all_iff dest!: in_set_butlastD set_takeWhileD)
  ultimately show thesis using r(3) that by blast
qed

lemma replica_round:
  assumes "in_rounds is" "valid_all cfg (NewConsensus cfg n) is" "distinct (slots_of is)"
    and "set (slots_of is) = {0 ..< Total cfg}"
  shows "\<exists>v. MVote v \<in> set (broadcasts (snd (handle_all cfg is (NewConsensus cfg n)))) \<and>
      full_vote n {0 ..< Total cfg} v"
    and "finite B \<Longrightarrow> B \<noteq> {} \<Longrightarrow> go_div (cn cfg) 2 \<le> int (card B) \<Longrightarrow>
      \<forall>j \<in> B. \<exists>v ord. InVote v ord \<in> set is \<and> full_vote j {0 ..< Total cfg} v \<Longrightarrow>
      Total cfg \<le> execute (fst (handle_all cfg is (NewConsensus cfg n)))"
proof -
  obtain xs m ord1 ord2 vs where parts: "is = xs @ InPropose m ord1 ord2 # vs"
    "list_all (\<lambda>x. \<not> is_vote x) xs" "list_all is_vote vs"
    using in_roundsE [OF assms(1)] by blast
  let ?D = "set (slots_of xs)" and ?p = "fst (handle_all cfg xs (NewConsensus cfg n))"
  have slots: "distinct (slots_of xs)" "pSlot m \<notin> ?D" "insert (pSlot m) ?D = {0 ..< Total cfg}"
    using assms(3,4) by (auto simp: parts(1) slots_of_votes [OF parts(3)])
  have all: "int (card (insert (pSlot m) ?D)) = Total cfg"
  proof -
    have "pSlot m \<in> {0 ..< Total cfg}" using slots(3) by blast
    then show ?thesis by (simp add: slots(3))
  qed
  then have "int (card ?D) < Total cfg" using slots(2) by simp
  moreover have "\<forall>s \<in> ?D. 0 \<le> s" using slots(3) by auto
  ultimately have c: "collecting n ?D ?p"
    using collect_commands [OF collecting_new parts(2) slots(1)] by simp
  have valid: "valid_input ?p (InPropose m ord1 ord2)"
    "valid_all cfg (fst (HandlePropose cfg ord1 ord2 m ?p)) vs"
    using assms(2) by (simp_all add: parts(1) valid_all_append)
  obtain q v where q: "HandlePropose cfg ord1 ord2 m ?p = (q, [Broadcast (MVote v)])"
    "ready_to_count {0 ..< Total cfg} q" "full_vote n {0 ..< Total cfg} v"
    using collect_last [OF c slots(2) all valid(1)] by (auto simp: slots(3))
  have run: "handle_all cfg is (NewConsensus cfg n) =
      (fst (handle_all cfg vs q),
       snd (handle_all cfg xs (NewConsensus cfg n)) @ Broadcast (MVote v) # snd (handle_all cfg vs q))"
    by (simp add: parts(1) handle_all_append q(1) split_beta)
  show "\<exists>v. MVote v \<in> set (broadcasts (snd (handle_all cfg is (NewConsensus cfg n)))) \<and>
      full_vote n {0 ..< Total cfg} v"
    using q(3) by (auto simp: run)
  assume B: "finite B" "B \<noteq> {}" "go_div (cn cfg) 2 \<le> int (card B)"
    "\<forall>j \<in> B. \<exists>v ord. InVote v ord \<in> set is \<and> full_vote j {0 ..< Total cfg} v"
  have "InVote v' ord \<in> set vs" if "InVote v' ord \<in> set is" for v' ord
    using that parts(2) by (auto simp: parts(1) list_all_iff)
  with B(4) have "\<forall>j \<in> B. \<exists>v ord. InVote v ord \<in> set vs \<and> full_vote j {0 ..< Total cfg} v" by blast
  from enough_votes [OF q(2) order_refl parts(3) _ B(1-3) this] valid(2)
  show "Total cfg \<le> execute (fst (handle_all cfg is (NewConsensus cfg n)))"
    by (simp add: run q(1))
qed

end
