(* ===== verification/Rounds.thy ===== *)
theory Rounds
  imports "HOL-Library.Multiset" Batches
begin

text \<open>
  When the replicas do get through a batch: every replica hears of all the proposals before it
  counts the first vote, as it does when a round of proposals takes less time than the next round of
  votes. Then all of them vote, all of them count enough votes and all of them apply the whole
  batch. \<open>Stalls\<close> has the run in which a vote comes too early.
\<close>

section \<open>What the replicas of a system say to one another\<close>

definition inputs_for :: "gid \<Rightarrow> (gid \<times> Input) list \<Rightarrow> Input list" where
  "inputs_for i ins = map snd (filter (\<lambda>x. fst x = i) ins)"

lemma run_replica:
  "replicas (run_system cfg ins S) i = fst (handle_all cfg (inputs_for i ins) (replicas S i))"
proof (induction ins arbitrary: S)
  case (Cons x ins)
  show ?case using Cons.IH [of "deliver cfg (fst x) (snd x) S"]
    by (cases x) (auto simp: inputs_for_def deliver_simps Let_def split_beta)
qed (simp add: inputs_for_def)

lemma sent_by_replica:
  "map snd (filter (\<lambda>x. fst x = j) (sent_in_order cfg ins S)) =
     broadcasts (snd (handle_all cfg (inputs_for j ins) (replicas S j)))"
proof (induction ins arbitrary: S)
  case (Cons x ins)
  obtain i inp where x: "x = (i, inp)" by fastforce
  show ?case using Cons.IH [of "deliver cfg i inp S"]
    by (auto simp: x inputs_for_def deliver_simps Let_def split_beta filter_map comp_def)
qed (simp add: inputs_for_def)

lemma valid_replica:
  "run_valid cfg ids C ins S \<Longrightarrow> valid_all cfg (replicas S i) (inputs_for i ins)"
proof (induction ins arbitrary: S)
  case (Cons x ins)
  obtain j inp where x: "x = (j, inp)" by fastforce
  with Cons.prems have "valid_input (replicas S j) inp" "run_valid cfg ids C ins (deliver cfg j inp S)" by simp_all
  with Cons.IH [OF this(2)] show ?case by (auto simp: x inputs_for_def deliver_simps)
qed (simp add: inputs_for_def)

text \<open>A replica proposes what it is asked to, and nothing else.\<close>

fun asks :: "Input \<Rightarrow> Command list" where
  "asks (InRequest r) = [rCommand r]"
| "asks (InPropose m ord1 ord2) = []"
| "asks (InVote v ord) = []"

fun claims :: "Message \<Rightarrow> (int \<times> Command) list" where
  "claims (MPropose m) = [(pSlot m, pCommand m)]"
| "claims (MVote v) = []"

definition claimed :: "Event list \<Rightarrow> (int \<times> Command) list" where
  "claimed evs = concat (map claims (broadcasts evs))"

lemma claimed_simps [simp]:
  "claimed [] = []" "claimed (xs @ ys) = claimed xs @ claimed ys"
  "claimed (Broadcast m # evs) = claims m @ claimed evs" "claimed (Applied s c # evs) = claimed evs"
  "claimed (reply_events e v) = []"
  by (simp_all add: claimed_def reply_events_def split: option.split)

lemma claimed_exec [simp]: "claimed (snd (exec cfg p)) = []"
  by (rule exec_rule [where Q = "\<lambda>p r. claimed (snd r) = []"]) simp_all

lemma claimed_loops [simp]:
  "claimed (snd (mark_exec_loop cfg ord p)) = []"
  "claimed (snd (vote_loop cfg L ord p)) = []"
proof -
  have "claimed (snd (mark_exec cfg s p)) = []" "claimed (snd (vote_entry cfg s sc p)) = []" for s sc p
    by (simp_all add: mark_exec_def vote_entry_def Let_def split: option.split)
  then show "claimed (snd (mark_exec_loop cfg ord p)) = []" "claimed (snd (vote_loop cfg L ord p)) = []"
    by (induction ord arbitrary: p) (simp_all add: Let_def split_beta split: option.split)
qed

lemma claimed_handle: "claimed (snd (handle cfg inp p)) = map (\<lambda>c. (Counter c, c)) (asks inp)"
  by (cases inp) (simp_all add: HandleRequest_def Propose_def HandlePropose_def Let_def split_beta
      vote_phase_def exec_phase_def HandleVote_def)

lemma claimed_handle_all:
  "claimed (snd (handle_all cfg is p)) = map (\<lambda>c. (Counter c, c)) (concat (map asks is))"
  by (induction "is" arbitrary: p) (simp_all add: Let_def split_beta claimed_handle)

definition over_wire :: "int \<times> Command \<Rightarrow> int \<times> Command" where
  "over_wire x = (fst x, gob_command (snd x))"

lemma brings_about: "brings m inp \<Longrightarrow> about inp = map over_wire (claims m) \<and> asks inp = []"
  by (cases "(m, inp)" rule: brings.cases) (auto simp: over_wire_def)

lemma brought_about:
  "list_all2 brings ms is \<Longrightarrow> concat (map about is) = map over_wire (concat (map claims ms))"
  by (induction rule: list_all2_induct) (simp_all add: brings_about)

lemma brought_vote: "list_all2 brings ms is \<Longrightarrow> MVote v \<in> set ms \<Longrightarrow> \<exists>ord. InVote (gob_vote v) ord \<in> set is"
proof (induction rule: list_all2_induct)
  case (Cons m ms inp "is")
  then show ?case by (cases "(m, inp)" rule: brings.cases) auto
qed simp

text \<open>Messages carry the name of the replica that broadcast them.\<close>

fun author :: "Message \<Rightarrow> gid" where
  "author (MPropose m) = pID m"
| "author (MVote v) = vId v"

lemma event_ok_author:
  "list_all (event_ok cfg ok V n) evs \<Longrightarrow> m \<in> set (broadcasts evs) \<Longrightarrow> author m = n"
proof (induction evs rule: broadcasts.induct)
  case (2 m' evs)
  then show ?case by (cases m') auto
qed auto

lemma senders:
  assumes "reachable cfg ids C S" "\<forall>(j, m) \<in> sent S. author m = j" "run_valid cfg ids C ins S"
    and "(i, inp) \<in> set ins" "sender_of inp = Some j"
  shows "j \<in> ids - {i}"
  using assms
proof (induction ins arbitrary: S)
  case (Cons x ins)
  obtain k a where x: "x = (k, a)" by fastforce
  with Cons.prems(3) have step: "k \<in> ids" "may_receive C S k a" "valid_input (replicas S k) a"
    "run_valid cfg ids C ins (deliver cfg k a S)" by simp_all
  have "good cfg (issued C) (voted_for S) k (handle cfg a (replicas S k))"
    using good_handle received_ok [OF reachable_ok [OF Cons.prems(1)] step(2)] reachable_ok [OF Cons.prems(1)]
    by (simp add: system_ok_def)
  then have new: "\<forall>(j, m) \<in> sent (deliver cfg k a S). author m = j"
    using Cons.prems(2) event_ok_author by (fastforce simp: deliver_simps good_def)
  show ?case
  proof (cases "(i, inp) = x")
    case True
    with step(2) x Cons.prems(5) obtain m where m: "(author m, m) \<in> sent S" "author m = j" "j \<noteq> i"
      using Cons.prems(2) by (cases inp) fastforce+
    then show ?thesis using reachable_facts(6) [OF Cons.prems(1)] by blast
  next
    case False
    with Cons.IH [OF reachable.step [OF Cons.prems(1) step(1-3)] new step(4)] Cons.prems(4,5) show ?thesis by auto
  qed
qed simp

lemma run_ids: "run_valid cfg ids C ins S \<Longrightarrow> (i, inp) \<in> set ins \<Longrightarrow> i \<in> ids"
  by (induction cfg ids C ins S rule: run_valid.induct) auto

section \<open>The round\<close>

definition requested :: "(gid \<times> Input) list \<Rightarrow> Command list" where
  "requested ins = concat (map (\<lambda>x. asks (snd x)) ins)"

lemma mset_parts:
  "finite A \<Longrightarrow> \<forall>x \<in> set xs. f x \<in> A \<Longrightarrow>
     mset (concat (map g xs)) = (\<Sum>a\<in>A. mset (concat (map g (filter (\<lambda>x. f x = a) xs))))"
proof (induction xs)
  case (Cons x xs)
  have "(\<Sum>a\<in>A. mset (concat (map g (filter (\<lambda>y. f y = a) (x # xs))))) =
      (\<Sum>a\<in>A. (if f x = a then mset (g x) else {#}) + mset (concat (map g (filter (\<lambda>y. f y = a) xs))))"
    by (rule sum.cong) simp_all
  also have "\<dots> = mset (g x) + mset (concat (map g xs))"
    using Cons by (simp add: sum.distrib)
  finally show ?case by simp
qed simp

lemma asks_for: "concat (map asks (inputs_for j ins)) = concat (map (\<lambda>x. asks (snd x)) (filter (\<lambda>x. fst x = j) ins))"
  by (simp add: inputs_for_def comp_def)

lemma about_requests:
  "\<forall>x \<in> set xs. sender_of x = None \<Longrightarrow>
     concat (map about xs) = map (\<lambda>c. (Counter c, c)) (concat (map asks xs))"
proof (induction xs)
  case (Cons x xs)
  then show ?case by (cases x) simp_all
qed simp

lemma requests_only: "concat (map asks (filter (\<lambda>x. sender_of x = None) xs)) = concat (map asks xs)"
proof (induction xs)
  case (Cons x xs)
  then show ?case by (cases x) simp_all
qed simp

text \<open>Every replica hears of every command the clients sent to some replica, once.\<close>

lemma hears_all:
  assumes run: "run_valid cfg ids C ins (init_system cfg)" and links: "perfect_links cfg ids ins (init_system cfg)"
    and C: "no_empty_value C" "set (requested ins) \<subseteq> C" and ids: "finite ids" "i \<in> ids"
  shows "mset (concat (map about (inputs_for i ins))) = mset (map (\<lambda>c. (Counter c, c)) (requested ins))"
proof -
  let ?is = "inputs_for i ins" and ?pair = "\<lambda>c. (Counter c, c)"
  define origin where "origin x = (case sender_of x of None \<Rightarrow> i | Some j \<Rightarrow> j)" for x
  have from_others: "j \<in> ids - {i}" if "x \<in> set ?is" "sender_of x = Some j" for x j
  proof -
    have "\<exists>y. (i, y) \<in> set ins \<and> y = x" using that(1) by (auto simp: inputs_for_def)
    then show ?thesis using senders [OF reachable.init _ run, of i x j] that(2) by (auto simp: init_system_def)
  qed
  have part: "concat (map about (filter (\<lambda>x. origin x = j) ?is)) = map ?pair (concat (map asks (inputs_for j ins)))"
    if j: "j \<in> ids" for j
  proof (cases "j = i")
    case True
    have "origin x = i \<longleftrightarrow> sender_of x = None" if "x \<in> set ?is" for x
      using from_others [OF that] by (auto simp: origin_def split: option.split)
    then have "filter (\<lambda>x. origin x = i) ?is = filter (\<lambda>x. sender_of x = None) ?is" by (simp cong: filter_cong)
    then show ?thesis by (simp add: True about_requests requests_only)
  next
    case False
    have "filter (\<lambda>x. origin x = j) ?is = filter (\<lambda>x. sender_of x = Some j) ?is"
      using False by (intro filter_cong) (auto simp: origin_def split: option.split)
    moreover have "list_all2 brings (broadcasts (snd (handle_all cfg (inputs_for j ins) (NewConsensus cfg j))))
        (filter (\<lambda>x. sender_of x = Some j) ?is)"
      using links ids(2) j False unfolding perfect_links_def sent_by_replica inputs_for_def [symmetric]
      by (simp add: init_system_def)
    note brought_about [OF this]
    ultimately have "concat (map about (filter (\<lambda>x. origin x = j) ?is)) =
        map over_wire (map ?pair (concat (map asks (inputs_for j ins))))"
      by (simp add: claimed_handle_all flip: claimed_def)
    moreover have "over_wire (?pair c) = ?pair c" if "c \<in> set (concat (map asks (inputs_for j ins)))" for c
    proof -
      have "c \<in> C" using that C(2) by (fastforce simp: asks_for requested_def)
      then show ?thesis using C(1) by (simp add: over_wire_def no_empty_value_def gob_command_same)
    qed
    ultimately show ?thesis by simp
  qed
  have "\<forall>x \<in> set ?is. origin x \<in> ids"
    using from_others ids(2) by (fastforce simp: origin_def split: option.split)
  from mset_parts [OF ids(1) this, of about]
  have "mset (concat (map about ?is)) = (\<Sum>j\<in>ids. image_mset ?pair (mset (concat (map asks (inputs_for j ins)))))"
    using part by simp
  also have "\<dots> = image_mset ?pair (\<Sum>j\<in>ids. mset (concat (map asks (inputs_for j ins))))"
    by (induction ids rule: infinite_finite_induct) simp_all
  also have "(\<Sum>j\<in>ids. mset (concat (map asks (inputs_for j ins)))) = mset (requested ins)"
  proof -
    have "\<forall>x \<in> set ins. fst x \<in> ids" using run_ids [OF run] by auto
    from mset_parts [OF ids(1) this, of "\<lambda>x. asks (snd x)"] show ?thesis
      by (simp add: asks_for requested_def)
  qed
  finally show ?thesis by simp
qed

lemma sort_key_map: "map f (sort_key f xs) = sort (map f xs)"
  by (metis mset_map mset_sort properties_for_sort sorted_sort_key)

text \<open>A history that is long enough is the clients' commands, in the order of their numbers.\<close>

lemma full_history:
  assumes S: "reachable cfg ids C S" and C: "no_empty_value C" "C = set cs"
    and numbers: "sort (map Counter cs) = [0 .. k - 1]" and len: "k \<le> execute (replicas S i)"
  shows "hist S i = map (\<lambda>c. (Counter c, c)) (sort_key Counter cs)"
proof -
  let ?h = "hist S i" and ?cs = "sort_key Counter cs"
  have counters: "map Counter ?cs = [0 .. k - 1]" using numbers by (simp only: sort_key_map)
  have cs_len: "length ?cs = nat k" using arg_cong [OF counters, of length] by simp
  have in_C: "snd (?h ! n) \<in> C \<and> Counter (snd (?h ! n)) = int n \<and> fst (?h ! n) = int n" if "n < length ?h" for n
    using hist_nth [OF S that] C(1) by (simp add: issued_exact no_empty_value_def)
  have below: "Counter c < k" if "c \<in> C" for c
  proof -
    have "Counter c \<in> set (map Counter ?cs)" using that C(2) by simp
    then show ?thesis unfolding counters by simp
  qed
  have "length ?h = nat k"
  proof (rule antisym)
    show "nat k \<le> length ?h" using hist_length [OF S, of i] len by simp
    show "length ?h \<le> nat k"
    proof (rule ccontr)
      assume "\<not> length ?h \<le> nat k"
      then have "nat k < length ?h" by simp
      from in_C [OF this] below [of "snd (?h ! nat k)"] show False by (simp split: if_splits)
    qed
  qed
  moreover have "?h ! n = (Counter (?cs ! n), ?cs ! n)" if n: "n < length ?h" for n
  proof -
    have n': "n < length ?cs" using n calculation cs_len by simp
    have "Counter (?cs ! n) = map Counter ?cs ! n" using n' by simp
    also have "\<dots> = int n" unfolding counters using n' cs_len by simp
    finally have num: "Counter (?cs ! n) = int n" .
    have "distinct (map Counter ?cs)" unfolding counters by simp
    then have "inj_on Counter C" by (simp add: distinct_map C(2))
    moreover have "?cs ! n \<in> C" using nth_mem [OF n'] C(2) by simp
    ultimately have "snd (?h ! n) = ?cs ! n" using in_C [OF n] num by (metis inj_onD)
    then show ?thesis using in_C [OF n] num by (simp add: prod_eq_iff)
  qed
  ultimately show ?thesis using cs_len by (intro nth_equalityI) simp_all
qed

lemma batch_slots:
  assumes "run_valid cfg ids (set (requested ins)) ins (init_system cfg)"
    and "perfect_links cfg ids ins (init_system cfg)"
    and "sort (map Counter (requested ins)) = [0 .. Total cfg - 1]"
    and "no_empty_value (set (requested ins))" "finite ids" "j \<in> ids"
  shows "distinct (slots_of (inputs_for j ins))" "set (slots_of (inputs_for j ins)) = {0 ..< Total cfg}"
proof -
  have "mset (slots_of (inputs_for j ins)) = image_mset fst (mset (concat (map about (inputs_for j ins))))"
    by (simp add: slots_of_def)
  also have "\<dots> = mset (map Counter (requested ins))"
    using hears_all [OF assms(1,2,4) order_refl assms(5,6)]
    by (simp add: image_mset.compositionality comp_def)
  also have "\<dots> = mset [0 .. Total cfg - 1]" by (metis assms(3) mset_sort)
  finally have m: "mset (slots_of (inputs_for j ins)) = mset [0 .. Total cfg - 1]" .
  show "distinct (slots_of (inputs_for j ins))" unfolding mset_eq_imp_distinct_iff [OF m] by (rule distinct_upto)
  have "set (slots_of (inputs_for j ins)) = {0 .. Total cfg - 1}" using mset_eq_setD [OF m] by (simp only: set_upto)
  also have "\<dots> = {0 ..< Total cfg}" by auto
  finally show "set (slots_of (inputs_for j ins)) = {0 ..< Total cfg}" .
qed

text \<open>
  C4: A synchronous round completes. Any number of replicas, at least two; their clients send exactly as many
  commands as make a batch, numbered from 0 without a gap, none of which writes the empty value, to replicas of
  their choice; every message is
  delivered to every other replica once and in the order in which its sender sent it; and every
  replica gets all the proposals before the first vote, the last thing before it being a proposal of
  another replica. Then every replica has applied all the commands, in the order of their numbers.
\<close>

theorem round_completes:
  assumes "run_valid cfg ids (set (requested ins)) ins (init_system cfg)"
    and "perfect_links cfg ids ins (init_system cfg)"
    and "\<forall>i \<in> ids. in_rounds (inputs_for i ins)"
    and "sort (map Counter (requested ins)) = [0 .. Total cfg - 1]"
    and "no_empty_value (set (requested ins))"
    and "finite ids" "int (card ids) = cn cfg" "2 \<le> cn cfg"
  shows "\<forall>i \<in> ids. hist (run_system cfg ins (init_system cfg)) i =
      map (\<lambda>c. (Counter c, c)) (sort_key Counter (requested ins))"
proof
  let ?S = "run_system cfg ins (init_system cfg)" and ?D = "{0 ..< Total cfg}"
  have new: "replicas (init_system cfg) j = NewConsensus cfg j" for j by (simp add: init_system_def)
  note slots = batch_slots [OF assms(1,2,4-6)]
  note one = replica_round [OF assms(3) [rule_format] valid_replica [OF assms(1), unfolded new] slots]
  fix i assume i: "i \<in> ids"
  let ?B = "ids - {i}"
  have "\<exists>v ord. InVote v ord \<in> set (inputs_for i ins) \<and> full_vote j ?D v" if j: "j \<in> ?B" for j
  proof -
    obtain v where v: "MVote v \<in> set (broadcasts (snd (handle_all cfg (inputs_for j ins) (NewConsensus cfg j))))"
      "full_vote j ?D v" using one(1) [of j] j by blast
    have "list_all2 brings (broadcasts (snd (handle_all cfg (inputs_for j ins) (NewConsensus cfg j))))
        (filter (\<lambda>x. sender_of x = Some j) (inputs_for i ins))"
      using assms(2) i j unfolding perfect_links_def sent_by_replica inputs_for_def [symmetric] new by blast
    from brought_vote [OF this v(1)] obtain ord where "InVote (gob_vote v) ord \<in> set (inputs_for i ins)" by auto
    moreover have "full_vote j ?D (gob_vote v)" using v(2) by (auto simp: full_vote_def fmdom'_map)
    ultimately show ?thesis by blast
  qed
  moreover have "finite ?B" "?B \<noteq> {}" "go_div (cn cfg) 2 \<le> int (card ?B)"
  proof -
    have "int (card ?B) = cn cfg - 1" using assms(6-8) i by (simp add: card_Diff_singleton of_nat_diff)
    then show "go_div (cn cfg) 2 \<le> int (card ?B)" "finite ?B" using assms(6,8) by (simp_all add: go_div_pos)
    have "0 < card ?B" using \<open>int (card ?B) = cn cfg - 1\<close> assms(8) by linarith
    then show "?B \<noteq> {}" by (rule card_gt_0_iff [THEN iffD1, THEN conjunct1])
  qed
  ultimately have "Total cfg \<le> execute (replicas ?S i)"
    using one(2) [OF i i i, of ?B] by (simp add: run_replica new)
  from full_history [OF reachable_run [OF reachable.init assms(1)] assms(5) refl assms(4) this]
  show "hist ?S i = map (\<lambda>c. (Counter c, c)) (sort_key Counter (requested ins))" .
qed

section \<open>Two replicas\<close>

definition two :: Config where
  "two = MakeDefaultConfig\<lparr>cn := 2, cBenchmark := DefaultBConfig\<lparr>Concurrency := 2\<rparr>\<rparr>"

lemma Total_two: "Total two = 2" "cn two = 2"
  by (simp_all add: two_def Total_def MakeDefaultConfig_def DefaultBConfig_def)

lemma new_two: "NewConsensus two n = NewConsensus three n"
  by (simp add: NewConsensus_def NewDatabase_def two_def three_def)

lemma two_collects:
  assumes "insert (Counter c) {Counter d} = {0, 1}" "Counter c \<noteq> Counter d"
  shows "\<exists>q. HandlePropose two [0, 1] [0, 1] (proposes j d) (started n c) =
      (q, [Broadcast (MVote (vote_for_all n [c, d]))]) \<and> ready_to_count {0, 1} q"
    and "valid_input (started n c) (InPropose (proposes j d) [0, 1] [0, 1])"
proof -
  have c: "collecting n {Counter c} (started n c)"
    using collect_request [OF collecting_new [of n three], of "ask c"] by (simp add: started_def)
  have slot: "pSlot (proposes j d) = Counter d" by (simp add: proposes_def)
  show valid: "valid_input (started n c) (InPropose (proposes j d) [0, 1] [0, 1])"
    using assms by (simp add: recorded range_order_def insert_commute)
  have "l (record_proposal (proposes j d) (started n c)) = vL (vote_for_all n [c, d])"
    using assms by (simp add: recorded vote_for_all_def)
  then have "\<lparr> vSlot = Counter d, vId = n, vL = l (record_proposal (proposes j d) (started n c)) \<rparr> = vote_for_all n [c, d]"
    by (simp add: vote_for_all_def)
  moreover have "Counter d \<notin> {Counter c}" "int (card (insert (Counter d) {Counter c})) = Total two"
    using assms(2) by (simp_all add: Total_two)
  ultimately show "\<exists>q. HandlePropose two [0, 1] [0, 1] (proposes j d) (started n c) =
      (q, [Broadcast (MVote (vote_for_all n [c, d]))]) \<and> ready_to_count {0, 1} q"
    using collect_last [OF c, of "proposes j d" two "[0, 1]" "[0, 1]"] valid assms(1)
    unfolding slot by (auto simp: insert_commute)
qed

lemma two_counts:
  assumes "ready_to_count {0, 1} p" "fmlookup (vL v) 0 = Some (ballot_for j c)" "fmlookup (vL v) 1 = Some (ballot_for j d)"
  shows "broadcasts (snd (HandleVote two [0, 1] v p)) = []"
proof -
  have "Size (ACK NewQuorum j) = 1" using Size_ACKs [of "[j]"] by simp
  then have m: "Majority two (ACK NewQuorum j)" "1 < Total two"
    by (simp_all add: Majority_def Size_def Total_two go_div_pos)
  obtain p0 e0 where v0: "vote_entry two 0 (ballot_for j c) p = (p0, e0)" "fresh_log p0" "execute p0 = 1"
    "broadcasts e0 = []"
    using vote_applies [of p 0, OF _ _ m, of c] assms(1) by (auto simp: ready_to_count_def)
  obtain p1 e1 where "vote_entry two 1 (ballot_for j d) p0 = (p1, e1)" "broadcasts e1 = []"
    using vote_applies [OF v0(2,3) m, of d] by auto
  then show ?thesis by (simp add: HandleVote_def assms(2,3) v0)
qed

definition round_inputs :: "Command \<Rightarrow> Command \<Rightarrow> (gid \<times> Input) list" where
  "round_inputs c d =
     [(''1.1'', InRequest (ask c)), (''1.2'', InRequest (ask d)),
      (''1.1'', InPropose (proposes ''1.2'' d) [0, 1] [0, 1]),
      (''1.2'', InPropose (proposes ''1.1'' c) [0, 1] [0, 1]),
      (''1.1'', InVote (vote_for_all ''1.2'' [d, c]) [0, 1]),
      (''1.2'', InVote (vote_for_all ''1.1'' [c, d]) [0, 1])]"

lemma round_inputs_asks [simp]: "requested (round_inputs c d) = [c, d]"
  by (simp add: requested_def round_inputs_def)

theorem round_completes_witness:
  "\<exists>ins. let S = run_system two ins (init_system two) in
     hist S ''1.1'' = [(0, example_command 0 (Some [6])), (1, (example_command 0 (Some [7]))\<lparr>Counter := 1\<rparr>)] \<and>
     hist S ''1.2'' = hist S ''1.1''"
proof -
  define c d where "c = example_command 0 (Some [6])" and "d = (example_command 0 (Some [7]))\<lparr>Counter := 1\<rparr>"
  have num: "Counter c = 0" "Counter d = 1" and val: "Value c \<noteq> Some []" "Value d \<noteq> Some []"
    by (simp_all add: c_def d_def example_command_def)
  let ?v1 = "vote_for_all ''1.1'' [c, d]" and ?v2 = "vote_for_all ''1.2'' [d, c]"
  obtain a where a: "HandlePropose two [0, 1] [0, 1] (proposes ''1.2'' d) (started ''1.1'' c) =
      (a, [Broadcast (MVote ?v1)])" "ready_to_count {0, 1} a"
    using two_collects(1) [of c d] num by auto
  obtain b where b: "HandlePropose two [0, 1] [0, 1] (proposes ''1.1'' c) (started ''1.2'' d) =
      (b, [Broadcast (MVote ?v2)])" "ready_to_count {0, 1} b"
    using two_collects(1) [of d c] num by (auto simp: insert_commute)
  have quiet: "broadcasts (snd (HandleVote two [0, 1] ?v2 a)) = []" "broadcasts (snd (HandleVote two [0, 1] ?v1 b)) = []"
    using two_counts [OF a(2), of ?v2 "''1.2''" c d] two_counts [OF b(2), of ?v1 "''1.1''" c d] num
    by (simp_all add: vote_for_all_def)
  let ?ins = "round_inputs c d"
  note steps = round_inputs_def deliver_simps init_system_def new_two started_step a(1) b(1)
  have valid: "valid_input (started ''1.1'' c) (InPropose (proposes ''1.2'' d) [0, 1] [0, 1])"
    "valid_input (started ''1.2'' d) (InPropose (proposes ''1.1'' c) [0, 1] [0, 1])"
    using two_collects(2) [of c d] two_collects(2) [of d c] num by (simp_all add: insert_commute)
  have orders: "range_order [0, 1] (vL ?v1)" "range_order [0, 1] (vL ?v2)"
    by (simp_all add: range_order_def vote_for_all_def num insert_commute)
  have "run_valid two {''1.1'', ''1.2''} {c, d} ?ins (init_system two)"
    using val by (simp add: steps valid orders receives_proposal receives_vote del: may_receive.simps(2,3) valid_input.simps(2))
  moreover have "sent_in_order two ?ins (init_system two) =
     [(''1.1'', MPropose (proposes ''1.1'' c)), (''1.2'', MPropose (proposes ''1.2'' d)),
      (''1.1'', MVote ?v1), (''1.2'', MVote ?v2)]"
    by (simp add: steps quiet)
  moreover have "pID (proposes n e) = n" "vId (vote_for_all n cs) = n" for n e cs
    by (simp_all add: proposes_def vote_for_all_def)
  ultimately have run: "run_valid two {''1.1'', ''1.2''} (set (requested ?ins)) ?ins (init_system two)"
    and links: "perfect_links two {''1.1'', ''1.2''} ?ins (init_system two)"
    using val by (simp_all add: perfect_links_def gob_same insert_Diff_if)
      (simp_all add: round_inputs_def gob_same)
  have rounds: "\<forall>i \<in> {''1.1'', ''1.2''}. in_rounds (inputs_for i ?ins)"
    by (simp add: in_rounds_def inputs_for_def round_inputs_def)
  have "\<forall>i \<in> {''1.1'', ''1.2''}. hist (run_system two ?ins (init_system two)) i =
      map (\<lambda>c. (Counter c, c)) (sort_key Counter (requested ?ins))"
    by (rule round_completes [OF run links rounds])
      (use num val in \<open>simp_all add: Total_two no_empty_value_def upto.simps\<close>)
  then show ?thesis using num by (intro exI [of _ ?ins]) (simp add: c_def d_def)
qed

end
