(* ===== verification/Utilities.thy ===== *)
theory Utilities
  imports Prelude
begin

text \<open>
  \<open>util.go\<close> and \<open>operation.go\<close>: maxima, retrying, calls at intervals, random values, and intervals of
  operations. \<open>ConnectToMaster\<close> is in \<open>Masters\<close>.
\<close>

section \<open>Maxima\<close>

definition Max_int :: "int \<Rightarrow> int \<Rightarrow> int" where
  "Max_int a b = (if a < b then b else a)"

text \<open>\<open>v[0]\<close> of an empty argument list panics.\<close>

definition VMax :: "int list \<Rightarrow> int outcome" where
  "VMax v =
     (case v of
        [] \<Rightarrow> Panic
      | m # rest \<Rightarrow> Ret (fold (\<lambda>i m. if m < i then i else m) v m))"

lemma fold_max: "fold (\<lambda>i m. if m < i then i else m) v m = Max (set (m # v))" for m :: int
proof (induction v arbitrary: m)
  case (Cons i v)
  have "Max (set ((if m < i then i else m) # v)) = Max (set (m # i # v))"
    by (cases "v = []") (auto simp: max_def Max_insert simp flip: insert_is_Un)
  with Cons show ?case by simp
qed simp

lemma VMax_eq: "VMax v = (if v = [] then Panic else Ret (Max (set v)))"
  by (cases v) (simp_all add: VMax_def fold_max)

lemma Max_int_eq: "Max_int a b = max a b"
  by (simp add: Max_int_def max_def)

section \<open>Retrying\<close>

text \<open>
  The function retried is what it returns at each call, \<open>None\<close> for no error. The result is nil or
  the last error with the number of attempts asked for, together with the number of calls made
  and the time slept.
\<close>

function retry_loop ::
    "(nat \<Rightarrow> string option) \<Rightarrow> int \<Rightarrow> int \<Rightarrow> nat \<Rightarrow> int \<Rightarrow> (int \<times> string) option \<times> nat \<times> int" where
  "retry_loop f attempts sleep i slept =
     (case f i of
        None \<Rightarrow> (None, i + 1, slept)
      | Some err \<Rightarrow>
          if int i \<ge> attempts - 1 then (Some (attempts, err), i + 1, slept)
          else retry_loop f attempts sleep (i + 1) (slept + sleep * (int i + 1)))"
  by pat_completeness auto
termination
  by (relation "measure (\<lambda>(f, attempts, sleep, i, slept). nat (attempts - int i))") auto

declare retry_loop.simps [simp del]

definition Retry :: "(nat \<Rightarrow> string option) \<Rightarrow> int \<Rightarrow> int \<Rightarrow> (int \<times> string) option \<times> nat \<times> int" where
  "Retry f attempts sleep = retry_loop f attempts sleep 0 0"

lemma slept_Suc:
  "slept + sleep * (\<Sum>j < Suc k. int (i + j) + 1) =
     slept + sleep * (int i + 1) + sleep * (\<Sum>j < k. int (i + 1 + j) + 1)"
proof -
  have "(\<Sum>j < Suc k. int (i + j) + 1) = int i + 1 + (\<Sum>j < k. int (i + 1 + j) + 1)"
    by (subst sum.lessThan_Suc_shift) simp
  then show ?thesis by (simp only: distrib_left add.assoc)
qed

lemma retry_loop_succeeds:
  assumes "f (i + k) = None" "\<And>j. j < k \<Longrightarrow> f (i + j) \<noteq> None" "k = 0 \<or> int (i + k) \<le> attempts - 1"
  shows "retry_loop f attempts sleep i slept =
    (None, i + k + 1, slept + sleep * (\<Sum>j < k. int (i + j) + 1))"
  using assms
proof (induction k arbitrary: i slept)
  case 0
  then show ?case by (subst retry_loop.simps) simp
next
  case (Suc k)
  obtain err where err: "f i = Some err" using Suc.prems(2) [of 0] by auto
  have "retry_loop f attempts sleep i slept = retry_loop f attempts sleep (i + 1) (slept + sleep * (int i + 1))"
    by (subst retry_loop.simps) (use err Suc.prems(3) in simp)
  also have "\<dots> = (None, i + 1 + k + 1, slept + sleep * (int i + 1) + sleep * (\<Sum>j < k. int (i + 1 + j) + 1))"
    using Suc.prems(1,3) Suc.prems(2) [of "Suc _"] by (intro Suc.IH) simp_all
  finally show ?case unfolding slept_Suc by simp
qed

lemma retry_loop_fails:
  assumes "\<And>j. j \<le> k \<Longrightarrow> f (i + j) \<noteq> None" "int (i + k) \<ge> attempts - 1"
    "k = 0 \<or> int (i + k) = attempts - 1"
  shows "retry_loop f attempts sleep i slept =
    (Some (attempts, the (f (i + k))), i + k + 1, slept + sleep * (\<Sum>j < k. int (i + j) + 1))"
  using assms
proof (induction k arbitrary: i slept)
  case 0
  then obtain err where "f i = Some err" by fastforce
  with 0 show ?case by (subst retry_loop.simps) simp
next
  case (Suc k)
  obtain err where err: "f i = Some err" using Suc.prems(1) [of 0] by auto
  have "retry_loop f attempts sleep i slept = retry_loop f attempts sleep (i + 1) (slept + sleep * (int i + 1))"
    by (subst retry_loop.simps) (use err Suc.prems(3) in simp)
  also have "\<dots> = (Some (attempts, the (f (i + 1 + k))), i + 1 + k + 1,
      slept + sleep * (int i + 1) + sleep * (\<Sum>j < k. int (i + 1 + j) + 1))"
    using Suc.prems(2,3) Suc.prems(1) [of "Suc _"] by (intro Suc.IH) simp_all
  finally show ?case unfolding slept_Suc by simp
qed

text \<open>
  \<open>Retry\<close> makes the first call that succeeds its last one and returns nil, after sleeping one,
  two, three, ... times the given time between the calls; if the first \<open>attempts\<close> calls fail, and
  at least one is always made, it returns the error of the last of them.
\<close>

theorem Retry_correct:
  "(\<forall>k. f k = None \<longrightarrow> (\<forall>j < k. f j \<noteq> None) \<longrightarrow> k = 0 \<or> int k < attempts \<longrightarrow>
      Retry f attempts sleep = (None, k + 1, sleep * (\<Sum>j < k. int j + 1))) \<and>
   ((\<forall>j. j = 0 \<or> int j < attempts \<longrightarrow> f j \<noteq> None) \<longrightarrow>
      Retry f attempts sleep =
        (let n = nat (max 1 attempts)
         in (Some (attempts, the (f (n - 1))), n, sleep * (\<Sum>j < n - 1. int j + 1))))"
proof (intro conjI allI impI)
  fix k assume "f k = None" "\<forall>j < k. f j \<noteq> None" "k = 0 \<or> int k < attempts"
  then show "Retry f attempts sleep = (None, k + 1, sleep * (\<Sum>j < k. int j + 1))"
    using retry_loop_succeeds [of f 0 k attempts sleep 0] by (auto simp: Retry_def)
next
  assume fails: "\<forall>j. j = 0 \<or> int j < attempts \<longrightarrow> f j \<noteq> None"
  define k where "k = nat (max 1 attempts) - 1"
  have "k = 0 \<or> int k = attempts - 1" "int k \<ge> attempts - 1" "nat (max 1 attempts) = k + 1"
    by (auto simp: k_def)
  moreover have "f j \<noteq> None" if "j \<le> k" for j
  proof -
    have "j = 0 \<or> int j < attempts" using that by (simp add: k_def) linarith
    with fails show ?thesis by blast
  qed
  ultimately show "Retry f attempts sleep =
        (let n = nat (max 1 attempts)
         in (Some (attempts, the (f (n - 1))), n, sleep * (\<Sum>j < n - 1. int j + 1)))"
    using retry_loop_fails [of k f 0 attempts sleep 0] by (simp add: Retry_def Let_def)
qed

theorem Retry_correct_witness:
  "Retry (\<lambda>i. if i < 2 then Some ''refused'' else None) 100 50 = (None, 3, 150)"
  using Retry_correct [of "\<lambda>i. if i < 2 then Some ''refused'' else None" 100 50]
  by (auto simp: numeral_2_eq_2 numeral_3_eq_3 less_Suc_eq dest: spec [of _ 2])

section \<open>Calls at intervals\<close>

text \<open>
  The goroutine of \<open>Schedule\<close>: it calls the function first and then waits, each time, for the timer
  (\<open>False\<close>) or the stop channel (\<open>True\<close>). The result says whether it still runs.
\<close>

fun Schedule :: "('s \<Rightarrow> 's) \<Rightarrow> bool list \<Rightarrow> 's \<Rightarrow> 's \<times> bool" where
  "Schedule f [] s = (f s, True)"
| "Schedule f (stopped # sel) s = (if stopped then (f s, False) else Schedule f sel (f s))"

lemma Schedule_calls:
  "Schedule f (replicate k False) s = ((f ^^ Suc k) s, True)"
  "Schedule f (replicate k False @ True # sel) s = ((f ^^ Suc k) s, False)"
  by (induction k arbitrary: s) (simp_all add: funpow_swap1)

section \<open>Random values\<close>

definition letterBytes :: bytes where
  "letterBytes = List.map of_char ''abcdefghijklmnopqrstuvwxyzABCDEFGHIJKLMNOPQRSTUVWXYZ''"

text \<open>\<open>draws\<close> are what \<open>rand.Intn\<close> gives; a negative length panics.\<close>

definition GenerateRandVal :: "(nat \<Rightarrow> nat) \<Rightarrow> int \<Rightarrow> bytes outcome" where
  "GenerateRandVal draws n =
     (if n < 0 then Panic else Ret (List.map (\<lambda>i. letterBytes ! draws i) [0 ..< nat n]))"

lemma letterBytes_length: "length letterBytes = 52"
  by (simp add: letterBytes_def)

text \<open>As long as asked for, and of letters; so it is the empty value if and only if the size is 0.\<close>

lemma GenerateRandVal_letters:
  assumes "0 \<le> n" "\<forall>i. draws i < 52"
  shows "\<exists>v. GenerateRandVal draws n = Ret v \<and> int (length v) = n \<and> set v \<subseteq> set letterBytes \<and> (v = [] \<longleftrightarrow> n = 0)"
  using assms by (auto simp: GenerateRandVal_def letterBytes_length intro!: nth_mem)

section \<open>Operations\<close>

text \<open>An operation's input and output are \<open>interface{}\<close> values; the clock is in nanoseconds.\<close>

record 'a operation =
  oinput :: "'a option"
  ooutput :: "'a option"
  ostart :: int
  oend :: int

definition happenBefore :: "'a operation \<Rightarrow> 'a operation \<Rightarrow> bool" where
  "happenBefore a b \<longleftrightarrow> oend a < ostart b"

definition concurrent :: "'a operation \<Rightarrow> 'a operation \<Rightarrow> bool" where
  "concurrent a b \<longleftrightarrow> \<not> happenBefore a b \<and> \<not> happenBefore b a"

definition operation_equal :: "'a operation \<Rightarrow> 'a operation \<Rightarrow> bool" where
  "operation_equal a b \<longleftrightarrow>
     oinput a = oinput b \<and> ooutput a = ooutput b \<and> ostart a = ostart b \<and> oend a = oend b"

definition byTime_Len :: "'a operation list \<Rightarrow> nat" where
  "byTime_Len a = length a"

text \<open>Indices out of range panic; the callers are the sorting routines of the library.\<close>

definition byTime_Swap :: "nat \<Rightarrow> nat \<Rightarrow> 'a operation list \<Rightarrow> 'a operation list outcome" where
  "byTime_Swap i j a =
     (if i < length a \<and> j < length a then Ret (a[i := a ! j, j := a ! i]) else Panic)"

definition byTime_Less :: "nat \<Rightarrow> nat \<Rightarrow> 'a operation list \<Rightarrow> bool outcome" where
  "byTime_Less i j a =
     (if i < length a \<and> j < length a then Ret (ostart (a ! i) < ostart (a ! j)) else Panic)"

text \<open>
  On operations that do not end before they start, \<open>happenBefore\<close> is a strict order, and an interval
  order: of two ordered pairs, the first of one precedes the second of the other.
\<close>

definition proper :: "'a operation \<Rightarrow> bool" where
  "proper a \<longleftrightarrow> ostart a \<le> oend a"

lemma happenBefore_irrefl: "proper a \<Longrightarrow> \<not> happenBefore a a"
  by (simp add: happenBefore_def proper_def)

lemma happenBefore_trans:
  "proper b \<Longrightarrow> happenBefore a b \<Longrightarrow> happenBefore b c \<Longrightarrow> happenBefore a c"
  by (simp add: happenBefore_def proper_def)

lemma happenBefore_interval:
  "happenBefore a b \<Longrightarrow> happenBefore c d \<Longrightarrow> happenBefore a d \<or> happenBefore c b"
  by (auto simp: happenBefore_def)

lemma concurrent_iff_overlap:
  "proper a \<Longrightarrow> proper b \<Longrightarrow> concurrent a b \<longleftrightarrow> (\<exists>t. {t} \<subseteq> {ostart a .. oend a} \<inter> {ostart b .. oend b})"
  by (auto simp: concurrent_def happenBefore_def proper_def not_less intro: exI [of _ "max (ostart a) (ostart b)"])

end
