(* ===== verification/Sockets.thy ===== *)
theory Sockets
  imports Ids Utilities
begin

text \<open>
  The socket of a node (\<open>socket.go\<close>): to whom it sends and what fault injection does to messages.
  Of the transports behind it, dialling is given by the results of its attempts,
  and what is queued on one is reported as the effect of the call. A timer is an entry of \<open>timers\<close>
  with its deadline in nanoseconds, and \<open>elapse\<close> runs those that are due. Probabilities are
  rational numbers; the random number drawn for a destination is an argument.
\<close>

datatype timer = EndDrop gid | EndSlow gid | EndFlaky gid | EndCrash

record socket =
  sock_id :: gid
  addresses :: "(gid, string) gomap"
  transports :: "gid fset"
  shut_down :: "gid fset"
  crashed :: bool
  dropping :: "(gid, bool) gomap"
  slowed :: "(gid, int) gomap"
  flaky :: "(gid, rat) gomap"
  timers :: "(int \<times> timer) list"

definition NewSocket :: "gid \<Rightarrow> (gid, string) gomap \<Rightarrow> socket" where
  "NewSocket i addrs =
     \<lparr> sock_id = i, addresses = addrs, transports = {|i|}, shut_down = {||}, crashed = False, dropping = fmempty,
       slowed = fmempty, flaky = fmempty, timers = [] \<rparr>"

section \<open>Sending\<close>

text \<open>What happens to a message: discarded, no address known, queued, or queued after some milliseconds.\<close>

datatype fate = Discarded | NoAddress | Queued | Delayed int

definition millisecond :: int where
  "millisecond = 1000000"

text \<open>\<open>dials i\<close> are the results of dialling node \<open>i\<close>; after a hundred failures \<open>Send\<close> panics.\<close>

definition connect :: "(gid \<Rightarrow> nat \<Rightarrow> string option) \<Rightarrow> gid \<Rightarrow> socket \<Rightarrow> (socket \<times> bool) outcome" where
  "connect dials i s =
     (if i |\<in>| transports s then Ret (s, True)
      else case fmlookup (addresses s) i of
             None \<Rightarrow> Ret (s, False)
           | Some address \<Rightarrow>
               if fst (Retry (dials i) 100 (50 * millisecond)) \<noteq> None then Panic
               else Ret (s\<lparr>transports := finsert i (transports s)\<rparr>, True))"

definition Send :: "(gid \<Rightarrow> nat \<Rightarrow> string option) \<Rightarrow> rat \<Rightarrow> gid \<Rightarrow> socket \<Rightarrow> (socket \<times> fate) outcome" where
  "Send dials roll i s =
     (if crashed s then Ret (s, Discarded)
      else if get_or False (dropping s) i then Ret (s, Discarded)
      else if get_or 0 (flaky s) i > 0 \<and> roll < get_or 0 (flaky s) i then Ret (s, Discarded)
      else case connect dials i s of
             Panic \<Rightarrow> Panic
           | Ret (s1, found) \<Rightarrow>
               if \<not> found then Ret (s1, NoAddress)
               else if get_or 0 (slowed s1) i > 0 then Ret (s1, Delayed (get_or 0 (slowed s1) i))
               else if i |\<in>| shut_down s1 then Panic
               else Ret (s1, Queued))"

text \<open>\<open>Close\<close> closes every transport there is, and panics if one is closed already.\<close>

definition Socket_Close :: "socket \<Rightarrow> socket outcome" where
  "Socket_Close s =
     (if transports s |\<inter>| shut_down s \<noteq> {||} then Panic
      else Ret (s\<lparr>shut_down := transports s |\<union>| shut_down s\<rparr>))"

fun send_all ::
    "(gid \<Rightarrow> nat \<Rightarrow> string option) \<Rightarrow> (gid \<Rightarrow> rat) \<Rightarrow> gid list \<Rightarrow> socket \<Rightarrow>
     (socket \<times> (gid \<times> fate) list) outcome" where
  "send_all dials roll [] s = Ret (s, [])"
| "send_all dials roll (i # is) s =
     (case Send dials (roll i) i s of
        Panic \<Rightarrow> Panic
      | Ret (s1, e) \<Rightarrow>
          (case send_all dials roll is s1 of
             Panic \<Rightarrow> Panic
           | Ret (s2, es) \<Rightarrow> Ret (s2, (i, e) # es)))"

text \<open>The destinations of the loops, \<open>ord\<close> being the order in which they meet the addresses.\<close>

definition zone_targets :: "gint \<Rightarrow> gid list \<Rightarrow> socket \<Rightarrow> gid list" where
  "zone_targets zone ord s = filter (\<lambda>i. i \<noteq> sock_id s \<and> Zone i = zone) ord"

fun quorum_targets :: "int \<Rightarrow> int \<Rightarrow> gid list \<Rightarrow> gid list" where
  "quorum_targets quorum n [] = []"
| "quorum_targets quorum n (i # is) =
     i # (if n + 1 = quorum then [] else quorum_targets quorum (n + 1) is)"

definition broadcast_targets :: "gid list \<Rightarrow> socket \<Rightarrow> gid list" where
  "broadcast_targets ord s = filter (\<lambda>i. i \<noteq> sock_id s) ord"

definition MulticastZone ::
    "(gid \<Rightarrow> nat \<Rightarrow> string option) \<Rightarrow> (gid \<Rightarrow> rat) \<Rightarrow> gid list \<Rightarrow> gint \<Rightarrow> socket \<Rightarrow>
     (socket \<times> (gid \<times> fate) list) outcome" where
  "MulticastZone dials roll ord zone s = send_all dials roll (zone_targets zone ord s) s"

definition MulticastQuorum ::
    "(gid \<Rightarrow> nat \<Rightarrow> string option) \<Rightarrow> (gid \<Rightarrow> rat) \<Rightarrow> gid list \<Rightarrow> int \<Rightarrow> socket \<Rightarrow>
     (socket \<times> (gid \<times> fate) list) outcome" where
  "MulticastQuorum dials roll ord quorum s = send_all dials roll (quorum_targets quorum 0 ord) s"

definition Broadcast_all ::
    "(gid \<Rightarrow> nat \<Rightarrow> string option) \<Rightarrow> (gid \<Rightarrow> rat) \<Rightarrow> gid list \<Rightarrow> socket \<Rightarrow>
     (socket \<times> (gid \<times> fate) list) outcome" where
  "Broadcast_all dials roll ord s = send_all dials roll (broadcast_targets ord s) s"

text \<open>
  \<open>Recv\<close> takes messages from the node's own transport until one arrives while the node is not
  crashed; each message comes with whether it is at that time. \<open>None\<close> is to wait for more.
\<close>

fun Recv :: "('m \<times> bool) list \<Rightarrow> ('m \<times> ('m \<times> bool) list) option" where
  "Recv [] = None"
| "Recv ((m, down) # rest) = (if \<not> down then Some (m, rest) else Recv rest)"

section \<open>Fault injection\<close>

definition Drop :: "int \<Rightarrow> gid \<Rightarrow> int \<Rightarrow> socket \<Rightarrow> socket" where
  "Drop now i t s =
     s\<lparr>dropping := fmupd i True (dropping s), timers := (now + t * second, EndDrop i) # timers s\<rparr>"

definition Slow :: "int \<Rightarrow> gid \<Rightarrow> int \<Rightarrow> int \<Rightarrow> socket \<Rightarrow> socket" where
  "Slow now i delay t s =
     s\<lparr>slowed := fmupd i delay (slowed s), timers := (now + t * second, EndSlow i) # timers s\<rparr>"

definition Flaky :: "int \<Rightarrow> gid \<Rightarrow> rat \<Rightarrow> int \<Rightarrow> socket \<Rightarrow> socket" where
  "Flaky now i p t s =
     s\<lparr>flaky := fmupd i p (flaky s), timers := (now + t * second, EndFlaky i) # timers s\<rparr>"

definition Crash :: "int \<Rightarrow> int \<Rightarrow> socket \<Rightarrow> socket" where
  "Crash now t s =
     (let s1 = s\<lparr>crashed := True\<rparr>
      in if t > 0 then s1\<lparr>timers := (now + t * second, EndCrash) # timers s1\<rparr> else s1)"

fun fire :: "timer \<Rightarrow> socket \<Rightarrow> socket" where
  "fire (EndDrop i) s = s\<lparr>dropping := fmupd i False (dropping s)\<rparr>"
| "fire (EndSlow i) s = s\<lparr>slowed := fmupd i 0 (slowed s)\<rparr>"
| "fire (EndFlaky i) s = s\<lparr>flaky := fmupd i 0 (flaky s)\<rparr>"
| "fire EndCrash s = s\<lparr>crashed := False\<rparr>"

text \<open>Time goes on to \<open>now\<close>, without further calls.\<close>

definition elapse :: "int \<Rightarrow> socket \<Rightarrow> socket" where
  "elapse now s =
     (fold (\<lambda>(d, k). fire k) (filter (\<lambda>(d, k). d \<le> now) (timers s)) s)
       \<lparr>timers := filter (\<lambda>(d, k). \<not> d \<le> now) (timers s)\<rparr>"

section \<open>Who gets a message\<close>

text \<open>Without faults, and with every dial succeeding in time, all targets get it.\<close>

definition healthy :: "(gid \<Rightarrow> nat \<Rightarrow> string option) \<Rightarrow> socket \<Rightarrow> bool" where
  "healthy dials s \<longleftrightarrow>
     shut_down s = {||} \<and> \<not> crashed s \<and> dropping s = fmempty \<and> slowed s = fmempty \<and> flaky s = fmempty \<and>
     (\<forall>i. fst (Retry (dials i) 100 (50 * millisecond)) = None)"

lemma Send_healthy:
  assumes "healthy dials s" "fmlookup (addresses s) i \<noteq> None"
  shows "\<exists>s1. Send dials r i s = Ret (s1, Queued) \<and> healthy dials s1 \<and> addresses s1 = addresses s"
  using assms by (auto simp: Send_def connect_def healthy_def split: option.splits)

lemma send_all_healthy:
  "healthy dials s \<Longrightarrow> set is \<subseteq> fmdom' (addresses s) \<Longrightarrow>
     \<exists>s1. send_all dials roll is s = Ret (s1, map (\<lambda>i. (i, Queued)) is)"
proof (induction "is" arbitrary: s)
  case (Cons i "is")
  from Cons.prems(2) have "fmlookup (addresses s) i \<noteq> None" by (auto simp: fmlookup_dom'_iff)
  from Send_healthy [OF Cons.prems(1) this, of "roll i"] obtain s1 where
    s1: "Send dials (roll i) i s = Ret (s1, Queued)" "healthy dials s1" "addresses s1 = addresses s"
    by blast
  with Cons.IH [OF s1(2)] Cons.prems(2) show ?case by auto
qed simp

lemma quorum_targets_take:
  "quorum_targets q n is = (if q \<le> n then is else take (nat (q - n)) is)"
proof (induction "is" arbitrary: n)
  case (Cons i "is")
  show ?case
  proof (cases "q \<le> n")
    case True
    with Cons show ?thesis by simp
  next
    case False
    then have "nat (q - n) = Suc (nat (q - (n + 1)))" by simp
    with Cons False show ?thesis by auto
  qed
qed simp

text \<open>
  With no fault injected, \<open>Broadcast\<close> queues the message once for every other node it has an
  address of, \<open>MulticastZone\<close> for the others in the zone, and \<open>MulticastQuorum\<close> for the first nodes
  the loop meets, itself included, as many as asked for; for zero or less, for all of them.
\<close>

theorem multicast_targets:
  assumes "healthy dials s" and "range_order ord (addresses s)"
  shows "(\<exists>s1 is. Broadcast_all dials roll ord s = Ret (s1, map (\<lambda>i. (i, Queued)) is) \<and>
      distinct is \<and> set is = fmdom' (addresses s) - {sock_id s}) \<and>
    (\<exists>s1 is. MulticastZone dials roll ord zone s = Ret (s1, map (\<lambda>i. (i, Queued)) is) \<and>
      distinct is \<and> set is = {i \<in> fmdom' (addresses s). i \<noteq> sock_id s \<and> Zone i = zone}) \<and>
    (\<exists>s1 is. MulticastQuorum dials roll ord q s = Ret (s1, map (\<lambda>i. (i, Queued)) is) \<and>
      distinct is \<and> set is \<subseteq> fmdom' (addresses s) \<and>
      length is = (if q \<le> 0 then len_map (addresses s) else min (nat q) (len_map (addresses s))))"
proof (intro conjI)
  have ord: "distinct ord" "set ord = fmdom' (addresses s)" using assms(2) by (simp_all add: range_order_def)
  have sub: "\<exists>s1. send_all dials roll is s = Ret (s1, map (\<lambda>i. (i, Queued)) is)" if "set is \<subseteq> set ord" for "is"
    using send_all_healthy [OF assms(1)] that ord(2) by simp
  show "\<exists>s1 is. Broadcast_all dials roll ord s = Ret (s1, map (\<lambda>i. (i, Queued)) is) \<and>
      distinct is \<and> set is = fmdom' (addresses s) - {sock_id s}"
    using sub [of "broadcast_targets ord s"] ord
    by (auto simp: Broadcast_all_def broadcast_targets_def intro!: exI [of _ "broadcast_targets ord s"])
  show "\<exists>s1 is. MulticastZone dials roll ord zone s = Ret (s1, map (\<lambda>i. (i, Queued)) is) \<and>
      distinct is \<and> set is = {i \<in> fmdom' (addresses s). i \<noteq> sock_id s \<and> Zone i = zone}"
    using sub [of "zone_targets zone ord s"] ord
    by (auto simp: MulticastZone_def zone_targets_def intro!: exI [of _ "zone_targets zone ord s"])
  have q: "set (quorum_targets q 0 ord) \<subseteq> set ord" "distinct (quorum_targets q 0 ord)"
    "length (quorum_targets q 0 ord) = (if q \<le> 0 then length ord else min (nat q) (length ord))"
    using ord(1) set_take_subset [of "nat q" ord] by (auto simp: quorum_targets_take)
  with sub [OF q(1)] ord range_order_length [OF assms(2)]
  show "\<exists>s1 is. MulticastQuorum dials roll ord q s = Ret (s1, map (\<lambda>i. (i, Queued)) is) \<and>
      distinct is \<and> set is \<subseteq> fmdom' (addresses s) \<and>
      length is = (if q \<le> 0 then len_map (addresses s) else min (nat q) (len_map (addresses s)))"
    by (auto simp: MulticastQuorum_def intro!: exI [of _ "quorum_targets q 0 ord"])
qed

theorem multicast_targets_witness:
  "\<exists>s1 is. Broadcast_all (\<lambda>i k. None) (\<lambda>i. 0) [''1.1'', ''1.2'']
      (NewSocket ''1.1'' (fmupd ''1.1'' ''a'' (fmupd ''1.2'' ''b'' fmempty))) =
    Ret (s1, map (\<lambda>i. (i, Queued)) is) \<and> set is = {''1.2''}"
proof -
  let ?s = "NewSocket ''1.1'' (fmupd ''1.1'' ''a'' (fmupd ''1.2'' ''b'' fmempty))"
  have "healthy (\<lambda>i k. None) ?s"
    by (simp add: healthy_def NewSocket_def Retry_def retry_loop.simps)
  moreover have "range_order [''1.1'', ''1.2''] (addresses ?s)"
    by (auto simp: range_order_def NewSocket_def)
  ultimately show ?thesis
    using multicast_targets [of "\<lambda>i k. None" ?s "[''1.1'', ''1.2'']" "\<lambda>i. 0" 1 1]
    by (auto simp: NewSocket_def)
qed

section \<open>After Close\<close>

text \<open>
  A closed socket still dials: a message to a node that it has not sent to before goes out as ever, one
  to a node it has panics, at once or when its delay is over, unless a fault discards it; and it cannot be
  closed again.
\<close>

lemma Send_after_Close:
  assumes "Socket_Close s = Ret s1" "healthy dials s" "fmlookup (addresses s) i \<noteq> None"
  shows "(case Send dials r i s1 of Panic \<Rightarrow> i |\<in>| transports s | Ret (s2, f) \<Rightarrow> i |\<notin>| transports s \<and> f = Queued)"
  using assms by (auto simp: Socket_Close_def Send_def connect_def healthy_def split: option.splits if_splits)

lemma Close_twice:
  assumes "Socket_Close s = Ret s1" "transports s \<noteq> {||}"
  shows "Socket_Close s1 = Panic"
  using assms by (auto simp: Socket_Close_def inf_sup_distrib1 split: if_splits)

section \<open>A socket in use\<close>

text \<open>The calls of a socket, with what the loops and the random numbers need; \<open>SElapse\<close> lets time go on.\<close>

datatype socket_op =
    SSend gid rat
  | SBroadcast "gid list" "gid \<Rightarrow> rat"
  | SMulticastZone "gid list" "gid \<Rightarrow> rat" gint
  | SMulticastQuorum "gid list" "gid \<Rightarrow> rat" int
  | SDrop int gid int
  | SSlow int gid int int
  | SFlaky int gid rat int
  | SCrash int int
  | SElapse int
  | SClose

fun socket_step ::
    "(gid \<Rightarrow> nat \<Rightarrow> string option) \<Rightarrow> socket_op \<Rightarrow> socket \<Rightarrow> (socket \<times> (gid \<times> fate) list) outcome" where
  "socket_step dials (SSend i roll) s =
     (case Send dials roll i s of Panic \<Rightarrow> Panic | Ret (s1, f) \<Rightarrow> Ret (s1, [(i, f)]))"
| "socket_step dials (SBroadcast ord roll) s = Broadcast_all dials roll ord s"
| "socket_step dials (SMulticastZone ord roll zone) s = MulticastZone dials roll ord zone s"
| "socket_step dials (SMulticastQuorum ord roll q) s = MulticastQuorum dials roll ord q s"
| "socket_step dials (SDrop now i t) s = Ret (Drop now i t s, [])"
| "socket_step dials (SSlow now i d t) s = Ret (Slow now i d t s, [])"
| "socket_step dials (SFlaky now i p t) s = Ret (Flaky now i p t s, [])"
| "socket_step dials (SCrash now t) s = Ret (Crash now t s, [])"
| "socket_step dials (SElapse now) s = Ret (elapse now s, [])"
| "socket_step dials SClose s = (case Socket_Close s of Panic \<Rightarrow> Panic | Ret s1 \<Rightarrow> Ret (s1, []))"

fun socket_run ::
    "(gid \<Rightarrow> nat \<Rightarrow> string option) \<Rightarrow> socket_op list \<Rightarrow> socket \<Rightarrow> (socket \<times> (gid \<times> fate) list) outcome" where
  "socket_run dials [] s = Ret (s, [])"
| "socket_run dials (x # xs) s =
     (case socket_step dials x s of
        Panic \<Rightarrow> Panic
      | Ret (s1, out) \<Rightarrow>
          (case socket_run dials xs s1 of Panic \<Rightarrow> Panic | Ret (s2, outs) \<Rightarrow> Ret (s2, out @ outs)))"

text \<open>A node that the socket has neither an address nor a transport of never gets a message from it.\<close>

definition stranger :: "gid \<Rightarrow> socket \<Rightarrow> bool" where
  "stranger i s \<longleftrightarrow> i |\<notin>| transports s \<and> fmlookup (addresses s) i = None"

lemma Send_stranger:
  assumes "stranger i s" "Send dials roll k s = Ret (s1, f)"
  shows "stranger i s1 \<and> (k = i \<longrightarrow> f \<in> {Discarded, NoAddress})"
  using assms by (auto simp: Send_def connect_def stranger_def split: if_splits outcome.splits option.splits)

lemma send_all_stranger:
  "stranger i s \<Longrightarrow> send_all dials roll ks s = Ret (s1, out) \<Longrightarrow>
     stranger i s1 \<and> (\<forall>f. (i, f) \<in> set out \<longrightarrow> f \<in> {Discarded, NoAddress})"
proof (induction ks arbitrary: s out)
  case (Cons k ks)
  then obtain s2 f out2 where "Send dials (roll k) k s = Ret (s2, f)" "send_all dials roll ks s2 = Ret (s1, out2)"
    "out = (k, f) # out2" by (auto split: outcome.splits)
  with Cons.IH [of s2 out2] Send_stranger [OF Cons.prems(1), of dials "roll k" k s2 f] show ?case by auto
qed simp

lemma fire_peers:
  "transports (fold (\<lambda>(d, k). fire k) due s) = transports s \<and> addresses (fold (\<lambda>(d, k). fire k) due s) = addresses s"
proof (induction due arbitrary: s)
  case (Cons dk due)
  then show ?case by (cases dk; cases "snd dk") auto
qed simp

lemma socket_step_stranger:
  assumes "stranger i s" "socket_step dials x s = Ret (s1, out)"
  shows "stranger i s1 \<and> (\<forall>f. (i, f) \<in> set out \<longrightarrow> f \<in> {Discarded, NoAddress})"
proof (cases x)
  case (SSend k roll)
  with assms(2) obtain f where "Send dials roll k s = Ret (s1, f)" "out = [(k, f)]" by (auto split: outcome.splits)
  with Send_stranger [OF assms(1), of dials roll k s1 f] show ?thesis by auto
next
  case SClose
  with assms show ?thesis by (auto simp: Socket_Close_def stranger_def split: outcome.splits if_splits)
next
  case (SElapse now)
  with assms show ?thesis by (auto simp: elapse_def stranger_def fire_peers)
qed (use assms send_all_stranger [OF assms(1)] in \<open>auto simp: Broadcast_all_def MulticastZone_def MulticastQuorum_def
    Drop_def Slow_def Flaky_def Crash_def Let_def stranger_def split: if_splits\<close>)

lemma socket_run_stranger:
  "stranger i s \<Longrightarrow> socket_run dials xs s = Ret (s1, out) \<Longrightarrow> (i, f) \<in> set out \<Longrightarrow> f \<in> {Discarded, NoAddress}"
proof (induction xs arbitrary: s out)
  case (Cons x xs)
  then obtain s2 out1 out2 where "socket_step dials x s = Ret (s2, out1)" "socket_run dials xs s2 = Ret (s1, out2)"
    "out = out1 @ out2" by (auto split: outcome.splits)
  with Cons socket_step_stranger [OF Cons.prems(1), of dials x s2 out1] show ?case by auto
qed simp

section \<open>How long a fault lasts\<close>

lemma fire_dropping:
  "get_or False (dropping (fold (\<lambda>(d, k). fire k) due s)) i \<longleftrightarrow>
     get_or False (dropping s) i \<and> EndDrop i \<notin> snd ` set due"
proof (induction due arbitrary: s)
  case (Cons dk due)
  then show ?case by (cases dk; cases "snd dk") auto
qed simp

lemma fire_crashed:
  "crashed (fold (\<lambda>(d, k). fire k) due s) \<longleftrightarrow> crashed s \<and> EndCrash \<notin> snd ` set due"
proof (induction due arbitrary: s)
  case (Cons dk due)
  then show ?case by (cases dk; cases "snd dk") auto
qed simp

text \<open>
  A \<open>Drop\<close> or \<open>Crash\<close> is in force until the first timer of its kind runs out, also one that an
  earlier call started: a call made while another is in force ends with the shorter rest of
  the two, and a crash for ever, with no time, ends with any earlier one.
\<close>

theorem fault_window:
  "(get_or False (dropping (elapse T (Drop now i t s))) i \<longleftrightarrow>
      T < now + t * second \<and> (\<forall>d. (d, EndDrop i) \<in> set (timers s) \<longrightarrow> T < d)) \<and>
   (crashed (elapse T (Crash now t s)) \<longleftrightarrow>
      (t > 0 \<longrightarrow> T < now + t * second) \<and> (\<forall>d. (d, EndCrash) \<in> set (timers s) \<longrightarrow> T < d))"
  by (force simp: elapse_def fire_dropping fire_crashed Drop_def Crash_def Let_def not_le)

text \<open>A drop for a hundred seconds, made while one for ten was in force, ends with that one.\<close>

theorem fault_window_witness:
  "\<not> get_or False (dropping (elapse (10 * second) (Drop (5 * second) ''1.2'' 100
      (Drop 0 ''1.2'' 10 (NewSocket ''1.1'' fmempty))))) ''1.2''"
  using fault_window [of "10 * second" "5 * second" "''1.2''" 100 "Drop 0 ''1.2'' 10 (NewSocket ''1.1'' fmempty)"]
  by (auto simp: Drop_def NewSocket_def)

end
