(* ===== verification/Https.thy ===== *)
theory Https
  imports Consensus
begin

text \<open>
  The REST interface: how a replica turns an HTTP request into a \<open>Request\<close> and a \<open>Reply\<close> into a
  response (\<open>http.go\<close>), and how the client library builds the request (\<open>rest\<close> in \<open>client.go\<close>).
  Headers are a map from names to lists of values, as in \<open>net/http\<close>. \<open>json.Unmarshal\<close> is
  an argument; a body that cannot be read is \<open>None\<close>. The server and its sockets are not modelled.
\<close>

section \<open>Requests and responses\<close>

record http_request =
  hHeader :: "(string, string list) gomap"
  hPath :: string
  hMethod :: string
  hBody :: "bytes option"

record http_response =
  status :: int
  wHeader :: "(string, string list) gomap"
  wBody :: bytes

definition HTTPClientID :: string where "HTTPClientID = ''Id''"

definition HTTPCommandID :: string where "HTTPCommandID = ''Cid''"

definition HTTPClientCounter :: string where "HTTPClientCounter = ''Count''"

text \<open>
  The bytes a header name may have, and its canonical form, which \<open>Get\<close> and \<open>Set\<close> of a \<open>Header\<close> use: capital
  letters at the start and after hyphens, small ones elsewhere. A name with another byte is left alone.
\<close>

definition lower_char :: "char \<Rightarrow> bool" where
  "lower_char c \<longleftrightarrow> 97 \<le> (of_char c :: nat) \<and> (of_char c :: nat) \<le> 122"

definition upper_char :: "char \<Rightarrow> bool" where
  "upper_char c \<longleftrightarrow> 65 \<le> (of_char c :: nat) \<and> (of_char c :: nat) \<le> 90"

definition token_char :: "char \<Rightarrow> bool" where
  "token_char c \<longleftrightarrow> lower_char c \<or> upper_char c \<or> 48 \<le> (of_char c :: nat) \<and> (of_char c :: nat) \<le> 57 \<or>
     (of_char c :: nat) \<in> {33, 35, 36, 37, 38, 39, 42, 43, 45, 46, 94, 95, 96, 124, 126}"

fun recase :: "bool \<Rightarrow> string \<Rightarrow> string" where
  "recase upper [] = []"
| "recase upper (c # cs) =
     (if upper \<and> lower_char c then char_of (of_char c - (32 :: nat))
      else if \<not> upper \<and> upper_char c then char_of (of_char c + (32 :: nat))
      else c) # recase ((of_char c :: nat) = 45) cs"

definition canonical_key :: "string \<Rightarrow> string" where
  "canonical_key s = (if list_all token_char s then recase True s else s)"

text \<open>\<open>Header.Get\<close> gives the first value, or the empty string.\<close>

definition header_get :: "(string, string list) gomap \<Rightarrow> string \<Rightarrow> string" where
  "header_get h k = (case fmlookup h (canonical_key k) of Some (v # vs) \<Rightarrow> v | _ \<Rightarrow> [])"

definition header_set :: "string \<Rightarrow> string \<Rightarrow> (string, string list) gomap \<Rightarrow> (string, string list) gomap" where
  "header_set k v h = fmupd (canonical_key k) [v] h"

lemma canonical_names [simp]:
  "canonical_key ''Id'' = ''Id''" "canonical_key ''Cid'' = ''Cid''" "canonical_key ''Count'' = ''Count''"
  "canonical_key ''Content-Type'' = ''Content-Type''" "canonical_key ''foo-BAR'' = ''Foo-Bar''"
  by code_simp+

lemma canonical_constants [simp]:
  "canonical_key HTTPClientID = HTTPClientID" "canonical_key HTTPCommandID = HTTPCommandID"
  "canonical_key HTTPClientCounter = HTTPClientCounter"
  by (simp_all add: HTTPClientID_def HTTPCommandID_def HTTPClientCounter_def)

lemma recase_char:
  "lower_char c \<Longrightarrow> upper_char (char_of (of_char c - (32 :: nat)))"
  "upper_char c \<Longrightarrow> lower_char (char_of (of_char c + (32 :: nat)))"
  by (auto simp: lower_char_def upper_char_def of_char_of)

lemma not_both: "lower_char c \<Longrightarrow> \<not> upper_char c" "lower_char c \<or> upper_char c \<Longrightarrow> (of_char c :: nat) \<noteq> 45"
  by (auto simp: lower_char_def upper_char_def)

lemma recase_token: "list_all token_char s \<Longrightarrow> list_all token_char (recase u s)"
  by (induction u s rule: recase.induct) (auto simp: token_char_def recase_char)

lemma recase_recase: "recase u (recase u s) = recase u s"
proof (induction u s rule: recase.induct)
  case (2 u c cs)
  then show ?case using recase_char [of c] not_both [of c] not_both [of "char_of (of_char c - (32 :: nat))"]
      not_both [of "char_of (of_char c + (32 :: nat))"] by (auto simp del: of_char_of)
qed simp

lemma canonical_canonical [simp]: "canonical_key (canonical_key s) = canonical_key s"
  by (simp add: canonical_key_def recase_token recase_recase)

text \<open>An \<open>int\<close> read by \<open>Atoi\<close>; on an error the code logs it and keeps the value.\<close>

definition parse_int :: "string \<Rightarrow> int" where
  "parse_int s = sint (fst (Atoi s))"

section \<open>The root handler\<close>

text \<open>One iteration over the headers.\<close>

definition root_header ::
    "(string, string list) gomap \<Rightarrow> string \<Rightarrow> Command \<times> (string, string) gomap \<Rightarrow>
     Command \<times> (string, string) gomap" where
  "root_header h k s =
     (let (cmd, props) = s
      in if k = HTTPClientID then (cmd\<lparr>ClientID := header_get h HTTPClientID\<rparr>, props)
         else if k = HTTPCommandID
         then (cmd\<lparr>CommandID := parse_int (header_get h HTTPCommandID)\<rparr>, props)
         else if k = HTTPClientCounter
         then (cmd\<lparr>Counter := parse_int (header_get h HTTPClientCounter)\<rparr>, props)
         else (cmd, fmupd k (header_get h k) props))"

text \<open>The error answers of the handler, before the request is queued.\<close>

datatype http_error = InvalidPath | CannotReadBody

text \<open>
  \<open>ord\<close> is the order of the headers, \<open>now\<close> the clock and \<open>ch\<close> the new reply channel. A path of at most
  one character takes the command from the JSON body.
\<close>

definition handleRoot_request ::
    "(bytes \<Rightarrow> Command \<Rightarrow> Command) \<Rightarrow> gid \<Rightarrow> int \<Rightarrow> nat \<Rightarrow> string list \<Rightarrow> http_request \<Rightarrow>
     http_error + Request" where
  "handleRoot_request unmarshal n now ch ord r =
     (let (cmd, props) = fold (root_header (hHeader r)) ord (zero_command, fmempty);
          result =
            (if length (hPath r) > 1
             then (case Atoi (drop 1 (hPath r)) of
                     (i, Some err) \<Rightarrow> Inl InvalidPath
                   | (i, None) \<Rightarrow>
                       let cmd = cmd\<lparr>Key := sint i\<rparr>
                       in if hMethod r = ''PUT'' \<or> hMethod r = ''POST''
                          then (case hBody r of
                                  None \<Rightarrow> Inl CannotReadBody
                                | Some b \<Rightarrow> Inr (cmd\<lparr>Value := Some b\<rparr>))
                          else Inr cmd)
             else (case hBody r of
                     None \<Rightarrow> Inl CannotReadBody
                   | Some b \<Rightarrow> Inr (unmarshal b cmd)))
      in case result of
           Inl err \<Rightarrow> Inl err
         | Inr cmd \<Rightarrow>
             Inr \<lparr> rCommand = cmd, rProperties = props, rTimestamp = now, rNodeID = n, rc = Some ch,
                   rError = None \<rparr>)"

definition string_bytes :: "string \<Rightarrow> bytes" where
  "string_bytes s = map of_char s"

definition http_error_response :: "int \<Rightarrow> string \<Rightarrow> http_response" where
  "http_error_response code msg =
     \<lparr> status = code, wHeader = fmempty, wBody = string_bytes (msg @ [char_of (10 :: nat)]) \<rparr>"

definition root_refusal :: "http_error \<Rightarrow> http_response" where
  "root_refusal e =
     http_error_response 400
       (case e of InvalidPath \<Rightarrow> ''invalid path'' | CannotReadBody \<Rightarrow> ''cannot read body'')"

text \<open>After the reply: \<open>ord\<close> is the order of its properties.\<close>

definition handleRoot_reply :: "string list \<Rightarrow> Reply \<Rightarrow> http_response" where
  "handleRoot_reply ord y =
     (case yErr y of
        Some e \<Rightarrow> http_error_response 500 e
      | None \<Rightarrow>
          \<lparr> status = 200,
            wHeader = fold (\<lambda>k. header_set k (get_or [] (yProperties y) k)) ord
              (header_set HTTPCommandID (print_int (CommandID (yCommand y)))
                (header_set HTTPClientID (ClientID (yCommand y)) fmempty)),
            wBody = content (yValue y) \<rparr>)"

section \<open>The client's request\<close>

text \<open>
  What \<open>rest\<close> sends: the base URL of the node with a path behind it, the method, the three headers
  and the body. \<open>bytes.NewBuffer\<close> of an empty value is an empty body.
\<close>

record rest_message =
  qBase :: string
  qPath :: string
  qMethod :: string
  qHeader :: "(string, string list) gomap"
  qBody :: bytes

definition rest_request :: "string \<Rightarrow> gid \<Rightarrow> int \<Rightarrow> Value \<Rightarrow> int \<Rightarrow> int \<Rightarrow> rest_message" where
  "rest_request base i key v cnt globalcounter =
     \<lparr> qBase = base, qPath = ''/'' @ print_int key,
       qMethod = (if v \<noteq> None then ''PUT'' else ''GET''),
       qHeader = header_set HTTPCommandID (print_int cnt)
         (header_set HTTPClientCounter (print_int globalcounter) (header_set HTTPClientID i fmempty)),
       qBody = content v \<rparr>"

text \<open>
  What the server's handler is given: the path behind the base, and besides the client's headers
  those that the HTTP library adds.
\<close>

definition wire :: "(string, string list) gomap \<Rightarrow> rest_message \<Rightarrow> http_request" where
  "wire extra q =
     \<lparr> hHeader = extra ++\<^sub>f qHeader q, hPath = qPath q, hMethod = qMethod q, hBody = Some (qBody q) \<rparr>"

section \<open>What the handler reads is what the client wrote\<close>

lemma header_names [simp]:
  "HTTPClientID \<noteq> HTTPCommandID" "HTTPClientID \<noteq> HTTPClientCounter"
  "HTTPCommandID \<noteq> HTTPClientID" "HTTPCommandID \<noteq> HTTPClientCounter"
  "HTTPClientCounter \<noteq> HTTPClientID" "HTTPClientCounter \<noteq> HTTPCommandID"
  by (simp_all add: HTTPClientID_def HTTPCommandID_def HTTPClientCounter_def)

lemma root_headers_command:
  "fst (fold (root_header h) ord (cmd, props)) =
     cmd\<lparr>ClientID := (if HTTPClientID \<in> set ord then header_get h HTTPClientID else ClientID cmd),
         CommandID := (if HTTPCommandID \<in> set ord then parse_int (header_get h HTTPCommandID) else CommandID cmd),
         Counter := (if HTTPClientCounter \<in> set ord then parse_int (header_get h HTTPClientCounter)
                     else Counter cmd)\<rparr>"
  by (induction ord arbitrary: cmd props) (auto simp: root_header_def)

lemma root_headers_properties:
  "fmlookup (snd (fold (root_header h) ord (cmd, props))) k =
     (if k \<in> set ord \<and> k \<notin> {HTTPClientID, HTTPCommandID, HTTPClientCounter}
      then Some (header_get h k) else fmlookup props k)"
  by (induction ord arbitrary: cmd props) (auto simp: root_header_def)

lemma parse_print_int: "- (2 ^ 63) \<le> i \<Longrightarrow> i < 2 ^ 63 \<Longrightarrow> parse_int (print_int i) = i"
  by (simp add: parse_int_def print_int_def Atoi_Itoa sint_sbintrunc' signed_take_bit_int_eq_self)

lemma header_get_rest:
  "header_get (extra ++\<^sub>f qHeader (rest_request base i key v cnt g)) HTTPClientID = i"
  "header_get (extra ++\<^sub>f qHeader (rest_request base i key v cnt g)) HTTPCommandID = print_int cnt"
  "header_get (extra ++\<^sub>f qHeader (rest_request base i key v cnt g)) HTTPClientCounter = print_int g"
  by (simp_all add: header_get_def rest_request_def header_set_def)

lemma header_names_rest:
  "HTTPClientID \<in> fmdom' (extra ++\<^sub>f qHeader (rest_request base i key v cnt g))"
  "HTTPCommandID \<in> fmdom' (extra ++\<^sub>f qHeader (rest_request base i key v cnt g))"
  "HTTPClientCounter \<in> fmdom' (extra ++\<^sub>f qHeader (rest_request base i key v cnt g))"
  by (simp_all add: rest_request_def header_set_def)

lemma handleRoot_key:
  assumes "fold (root_header (hHeader r)) ord (zero_command, fmempty) = (cmd, props)"
    and "hPath r = ''/'' @ p" "p \<noteq> []" "Atoi p = (k, None)"
    and "hMethod r = (if v \<noteq> None then ''PUT'' else ''GET'')" "hBody r = Some (content v)"
    and "Value cmd = None"
  shows "handleRoot_request unmarshal n now ch ord r =
    Inr \<lparr> rCommand = cmd\<lparr>Key := sint k, Value := v\<rparr>, rProperties = props, rTimestamp = now,
          rNodeID = n, rc = Some ch, rError = None \<rparr>"
  using assms by (cases v; cases cmd) (simp_all add: handleRoot_request_def)

lemma rest_read_back:
  assumes "range_order ord (hHeader (wire extra (rest_request base i key v cnt g)))"
    and "- (2 ^ 63) \<le> key" "key < 2 ^ 63" "- (2 ^ 63) \<le> cnt" "cnt < 2 ^ 63" "- (2 ^ 63) \<le> g" "g < 2 ^ 63"
  shows "\<exists>props. handleRoot_request unmarshal n now ch ord (wire extra (rest_request base i key v cnt g)) =
      Inr \<lparr> rCommand = \<lparr> Key = key, Value = v, ClientID = i, CommandID = cnt, Counter = g \<rparr>,
            rProperties = props, rTimestamp = now, rNodeID = n, rc = Some ch, rError = None \<rparr> \<and>
    (\<forall>k. k \<in> fmdom' props \<longleftrightarrow> k \<in> fmdom' extra \<and> k \<notin> {HTTPClientID, HTTPCommandID, HTTPClientCounter})"
proof -
  let ?q = "rest_request base i key v cnt g"
  let ?h = "extra ++\<^sub>f qHeader ?q"
  obtain cmd props where f: "fold (root_header ?h) ord (zero_command, fmempty) = (cmd, props)" by fastforce
  have ord: "set ord = fmdom' ?h" using assms(1) by (simp add: range_order_def wire_def)
  have mem: "HTTPClientID \<in> set ord" "HTTPCommandID \<in> set ord" "HTTPClientCounter \<in> set ord"
    unfolding ord by (rule header_names_rest)+
  have cmd: "cmd = zero_command\<lparr>ClientID := i, CommandID := cnt, Counter := g\<rparr>"
    using root_headers_command [of ?h ord zero_command fmempty] assms(4-7)
    by (simp add: f mem header_get_rest parse_print_int)
  have props: "k \<in> fmdom' props \<longleftrightarrow> k \<in> fmdom' extra \<and> k \<notin> {HTTPClientID, HTTPCommandID, HTTPClientCounter}" for k
  proof -
    have "fmdom' ?h = fmdom' extra \<union> {HTTPClientID, HTTPCommandID, HTTPClientCounter}"
      by (auto simp: rest_request_def header_set_def)
    moreover have "fmlookup props k = (if k \<in> fmdom' ?h \<and> k \<notin> {HTTPClientID, HTTPCommandID, HTTPClientCounter}
        then Some (header_get ?h k) else None)"
      using root_headers_properties [of ?h ord zero_command fmempty k] by (simp only: f ord snd_conv fmempty_lookup)
    ultimately show ?thesis by (auto simp: fmlookup_dom'_iff split: if_splits)
  qed
  have "handleRoot_request unmarshal n now ch ord (wire extra ?q) =
    Inr \<lparr> rCommand = cmd\<lparr>Key := sint (word_of_int key :: gint), Value := v\<rparr>, rProperties = props,
          rTimestamp = now, rNodeID = n, rc = Some ch, rError = None \<rparr>"
  proof (rule handleRoot_key)
    show "fold (root_header (hHeader (wire extra ?q))) ord (zero_command, fmempty) = (cmd, props)"
      using f by (simp add: wire_def)
    show "print_int key \<noteq> []" by (simp add: print_int_def Itoa_def)
    show "Atoi (print_int key) = (word_of_int key, None)" by (simp add: print_int_def Atoi_Itoa)
    show "Value cmd = None" by (simp add: cmd zero_command_def)
  qed (simp_all add: wire_def rest_request_def)
  moreover have "sint (word_of_int key :: gint) = key"
    using parse_print_int [OF assms(2,3)] by (simp add: parse_int_def print_int_def Atoi_Itoa)
  ultimately show ?thesis using props by (simp add: cmd zero_command_def)
qed

text \<open>
  The slot a request asks for is the counter of the client's header, and its client the node the
  message went to, whatever the other numbers are.
\<close>

lemma plain_headers:
  "range_order [''Cid'', ''Count'', ''Id''] (hHeader (wire fmempty (rest_request base i key v cnt g)))"
  by (auto simp: range_order_def wire_def rest_request_def header_set_def HTTPClientID_def
      HTTPCommandID_def HTTPClientCounter_def)

lemma rest_slot:
  assumes "range_order ord (hHeader (wire extra (rest_request base i key v cnt g)))"
    and "- (2 ^ 63) \<le> g" "g < 2 ^ 63"
    and "handleRoot_request unmarshal n now ch ord (wire extra (rest_request base i key v cnt g)) = Inr r"
  shows "Counter (rCommand r) = g \<and> ClientID (rCommand r) = i \<and> rc r = Some ch"
proof -
  let ?q = "rest_request base i key v cnt g"
  let ?h = "extra ++\<^sub>f qHeader ?q"
  obtain cmd props where f: "fold (root_header ?h) ord (zero_command, fmempty) = (cmd, props)" by fastforce
  have ord: "set ord = fmdom' ?h" using assms(1) by (simp add: range_order_def wire_def)
  have "HTTPClientCounter \<in> set ord" "HTTPClientID \<in> set ord" unfolding ord by (rule header_names_rest)+
  then have "Counter cmd = g \<and> ClientID cmd = i \<and> Value cmd = Value zero_command"
    using root_headers_command [of ?h ord zero_command fmempty] assms(2,3)
    by (simp add: f header_get_rest parse_print_int)
  then have cmd: "Counter cmd = g" "ClientID cmd = i" "Value cmd = None" by (simp_all add: zero_command_def)
  have "print_int key \<noteq> []" by (simp add: print_int_def Itoa_def)
  moreover have "Atoi (print_int key) = (word_of_int key, None)" by (simp add: print_int_def Atoi_Itoa)
  ultimately have "handleRoot_request unmarshal n now ch ord (wire extra ?q) =
    Inr \<lparr> rCommand = cmd\<lparr>Key := sint (word_of_int key :: gint), Value := v\<rparr>, rProperties = props,
          rTimestamp = now, rNodeID = n, rc = Some ch, rError = None \<rparr>"
    using f cmd by (intro handleRoot_key) (simp_all add: wire_def rest_request_def)
  with assms(4) cmd show ?thesis by auto
qed

text \<open>
  C22: the command a replica proposes for a client's REST call is the one the client meant: key,
  value (a read for no value, and the empty value is a write), client, command number and
  counter, for all numbers of 64 bits, whatever other headers are sent; those become properties.
\<close>

theorem rest_roundtrip:
  assumes "range_order ord (hHeader (wire extra (rest_request base i key v cnt g)))"
    and "- (2 ^ 63) \<le> key" "key < 2 ^ 63" "- (2 ^ 63) \<le> cnt" "cnt < 2 ^ 63" "- (2 ^ 63) \<le> g" "g < 2 ^ 63"
  shows "\<exists>props. handleRoot_request unmarshal n now ch ord (wire extra (rest_request base i key v cnt g)) =
      Inr \<lparr> rCommand = \<lparr> Key = key, Value = v, ClientID = i, CommandID = cnt, Counter = g \<rparr>,
            rProperties = props, rTimestamp = now, rNodeID = n, rc = Some ch, rError = None \<rparr> \<and>
    (\<forall>k. k \<in> fmdom' props \<longleftrightarrow> k \<in> fmdom' extra \<and> k \<notin> {HTTPClientID, HTTPCommandID, HTTPClientCounter})"
  using assms by (rule rest_read_back)

theorem rest_roundtrip_witness:
  "\<exists>props. handleRoot_request (\<lambda>b c. c) ''1.1'' 0 7 [''Cid'', ''Count'', ''Id'']
     (wire fmempty (rest_request ''http://127.0.0.1:8080'' ''1.2'' (- 5) (Some []) 3 4)) =
   Inr \<lparr> rCommand = \<lparr> Key = - 5, Value = Some [], ClientID = ''1.2'', CommandID = 3, Counter = 4 \<rparr>,
         rProperties = props, rTimestamp = 0, rNodeID = ''1.1'', rc = Some 7, rError = None \<rparr>"
proof -
  have "range_order [''Cid'', ''Count'', ''Id'']
      (hHeader (wire fmempty (rest_request ''http://127.0.0.1:8080'' ''1.2'' (- 5) (Some []) 3 4)))"
    by (auto simp: range_order_def wire_def rest_request_def header_set_def HTTPClientID_def
        HTTPCommandID_def HTTPClientCounter_def)
  from rest_roundtrip [OF this, of "\<lambda>b c. c" "''1.1''" 0 7] show ?thesis by auto
qed

end
