(* ===== verification/Nodes.thy ===== *)
theory Nodes
  imports Sockets Https Containers Gobs
begin

text \<open>
  A node (\<open>node.go\<close>): the message channel between the goroutine that receives and the one that
  handles, the table of handler functions, the requests forwarded to other nodes, and the
  registration of handlers by \<open>NewReplica\<close> (\<open>consensus/replica.go\<close>). One step of a goroutine is one operation; an operation on a
  channel that is full or nil is \<open>Blocks\<close>, a nil pointer \<open>Panics\<close>, \<open>log.Fatalf\<close> is \<open>Fatal\<close>. The
  handler functions are known by a number; calling one is the last thing a step reports. What \<open>Run\<close>
  starts is in \<open>Processes\<close>, the HTTP server in \<open>Programs\<close>.
\<close>

section \<open>State\<close>

text \<open>
  What travels between nodes; \<open>POther\<close> are the other types a handler may be registered for, and \<open>PNil\<close>
  is the nil interface, of which \<open>reflect\<close> has no type.
\<close>

datatype packet =
    PRequest Request
  | PReply Reply
  | PMessage Message
  | POther string
  | PNil

fun type_name :: "packet \<Rightarrow> string" where
  "type_name (PRequest r) = ''BigBFT.Request''"
| "type_name (PReply y) = ''BigBFT.Reply''"
| "type_name (PMessage (MPropose m)) = ''consensus.Propose''"
| "type_name (PMessage (MVote v)) = ''consensus.Vote''"
| "type_name (POther t) = t"
| "type_name PNil = []"

text \<open>What \<open>reflect\<close> says of a value that is to be registered as a handler.\<close>

record func =
  isFunc :: bool
  params :: "string list"
  code :: nat

record node =
  nid :: gid
  MessageChan :: "packet list"
  chan_cap :: nat
  handles :: "(string, func) gomap"
  forwards :: "(string, Request) gomap"
  reply_chans :: "(nat, Reply list) gomap"
  pending_sends :: "(nat \<times> gid) list"

text \<open>
  \<open>reply_chans\<close> are the reply channels made so far with what they hold, one element at most, and
  \<open>pending_sends\<close> the goroutines of \<open>recv\<close> that wait on one of them.
\<close>

text \<open>
  \<open>make\<close> panics for a negative size. A channel without a buffer hands its message over to the goroutine
  of \<open>handle\<close>, which waits for it between its turns: it is a channel for one message, which waits for
  the turn to begin.
\<close>

definition chan_room :: "int \<Rightarrow> nat" where
  "chan_room n = max 1 (nat n)"

definition NewNode :: "Config \<Rightarrow> gid \<Rightarrow> node outcome" where
  "NewNode cfg i =
     (if ChanBufferSize cfg < 0 then Panic
      else Ret \<lparr> nid = i, MessageChan = [], chan_cap = chan_room (ChanBufferSize cfg), handles = fmempty,
                 forwards = fmempty, reply_chans = fmempty, pending_sends = [] \<rparr>)"

lemma NewNode_Ret:
  assumes "NewNode cfg i = Ret n"
  shows "nid n = i" "MessageChan n = []" "chan_cap n = chan_room (ChanBufferSize cfg)" "handles n = fmempty"
    "forwards n = fmempty" "reply_chans n = fmempty" "pending_sends n = []" "0 \<le> ChanBufferSize cfg"
proof -
  have c: "0 \<le> ChanBufferSize cfg" using assms by (cases "ChanBufferSize cfg < 0") (simp_all add: NewNode_def)
  then have "n = \<lparr> nid = i, MessageChan = [], chan_cap = chan_room (ChanBufferSize cfg), handles = fmempty,
      forwards = fmempty, reply_chans = fmempty, pending_sends = [] \<rparr>"
    using assms by (simp add: NewNode_def)
  with c show "nid n = i" "MessageChan n = []" "chan_cap n = chan_room (ChanBufferSize cfg)" "handles n = fmempty"
    "forwards n = fmempty" "reply_chans n = fmempty" "pending_sends n = []" "0 \<le> ChanBufferSize cfg"
    by simp_all
qed

section \<open>Operations\<close>

definition node_ID :: "node \<Rightarrow> gid" where
  "node_ID n = nid n"

definition Register :: "string \<Rightarrow> func \<Rightarrow> node \<Rightarrow> node outcome" where
  "Register t f n =
     (if \<not> isFunc f \<or> length (params f) \<noteq> 1 \<or> params f ! 0 \<noteq> t then Panic
      else Ret (n\<lparr>handles := fmupd t f (handles n)\<rparr>))"

definition push_message :: "packet \<Rightarrow> node \<Rightarrow> node sync" where
  "push_message m n =
     (if length (MessageChan n) < chan_cap n then Done (n\<lparr>MessageChan := MessageChan n @ [m]\<rparr>)
      else Blocks)"

definition node_Retry :: "Request \<Rightarrow> node \<Rightarrow> node sync" where
  "node_Retry r n = push_message (PRequest r) n"

text \<open>\<open>Request.Reply\<close>: a send on the request's channel.\<close>

definition Request_Reply :: "Request \<Rightarrow> Reply \<Rightarrow> node \<Rightarrow> node sync" where
  "Request_Reply r y n =
     (case rc r of
        None \<Rightarrow> Blocks
      | Some c \<Rightarrow>
          (case fmlookup (reply_chans n) c of
             None \<Rightarrow> Blocks
           | Some ys \<Rightarrow>
               if length ys < 1 then Done (n\<lparr>reply_chans := fmupd c (ys @ [y]) (reply_chans n)\<rparr>)
               else Blocks))"

definition make_chan :: "nat \<Rightarrow> node \<Rightarrow> node" where
  "make_chan c n = n\<lparr>reply_chans := fmupd c [] (reply_chans n)\<rparr>"

text \<open>One turn of the loop of \<open>recv\<close>, \<open>c\<close> being the channel it makes for a request.\<close>

definition recv_step :: "nat \<Rightarrow> packet \<Rightarrow> node \<Rightarrow> node sync" where
  "recv_step c m n =
     (case m of
        PRequest r \<Rightarrow>
          let r1 = r\<lparr>rc := Some c\<rparr>; n1 = make_chan c n;
              n2 = n1\<lparr>pending_sends := pending_sends n1 @ [(c, rNodeID r1)]\<rparr>
          in push_message (PRequest r1) n2
      | PReply y \<Rightarrow>
          (case fmlookup (forwards n) (Command_String (yCommand y)) of
             None \<Rightarrow> Panics
           | Some r \<Rightarrow> Request_Reply r y n)
      | _ \<Rightarrow> push_message m n)"

text \<open>The goroutine \<open>recv\<close> started for a request: it takes the reply and sends it to the origin.\<close>

definition reply_step :: "nat \<Rightarrow> node \<Rightarrow> (node \<times> gid \<times> Reply) sync" where
  "reply_step c n =
     (case map_of (pending_sends n) c of
        None \<Rightarrow> Blocks
      | Some i \<Rightarrow>
          (case fmlookup (reply_chans n) c of
             Some (y # ys) \<Rightarrow>
               Done (n\<lparr>reply_chans := fmupd c ys (reply_chans n),
                       pending_sends := filter (\<lambda>w. fst w \<noteq> c) (pending_sends n)\<rparr>, i, y)
           | _ \<Rightarrow> Blocks))"

text \<open>One turn of the loop of \<open>handle\<close>: the function called and its argument.\<close>

definition handle_step :: "node \<Rightarrow> (node \<times> func \<times> packet) sync" where
  "handle_step n =
     (case MessageChan n of
        [] \<Rightarrow> Blocks
      | m # ms \<Rightarrow>
          if m = PNil then Panics
          else (case fmlookup (handles n) (type_name m) of
                  None \<Rightarrow> Fatal
                | Some f \<Rightarrow> Done (n\<lparr>MessageChan := ms\<rparr>, f, m)))"

text \<open>\<open>Forward\<close>, with what it sends.\<close>

definition Forward :: "gid \<Rightarrow> Request \<Rightarrow> node \<Rightarrow> node \<times> gid \<times> packet" where
  "Forward i r n =
     (let r1 = r\<lparr>rNodeID := nid n\<rparr>
      in (n\<lparr>forwards := fmupd (Command_String (rCommand r1)) r1 (forwards n)\<rparr>, i, PRequest r1))"

text \<open>What \<open>NewReplica\<close> registers.\<close>

definition register_all :: "(string \<times> func) list \<Rightarrow> node \<Rightarrow> node outcome" where
  "register_all fs n =
     fold (\<lambda>(t, f) r. case r of Panic \<Rightarrow> Panic | Ret n \<Rightarrow> Register t f n) fs (Ret n)"

definition NewReplica :: "Config \<Rightarrow> gid \<Rightarrow> node outcome" where
  "NewReplica cfg i =
     (case NewNode cfg i of
        Panic \<Rightarrow> Panic
      | Ret n \<Rightarrow>
          register_all
            [(''BigBFT.Request'', \<lparr> isFunc = True, params = [''BigBFT.Request''], code = 0 \<rparr>),
             (''consensus.Propose'', \<lparr> isFunc = True, params = [''consensus.Propose''], code = 1 \<rparr>),
             (''consensus.Vote'', \<lparr> isFunc = True, params = [''consensus.Vote''], code = 2 \<rparr>)] n)"

text \<open>The table that \<open>NewReplica\<close> fills.\<close>

definition replica_handles :: "(string, func) gomap" where
  "replica_handles =
     fmupd ''consensus.Vote'' \<lparr> isFunc = True, params = [''consensus.Vote''], code = 2 \<rparr>
       (fmupd ''consensus.Propose'' \<lparr> isFunc = True, params = [''consensus.Propose''], code = 1 \<rparr>
         (fmupd ''BigBFT.Request'' \<lparr> isFunc = True, params = [''BigBFT.Request''], code = 0 \<rparr> fmempty))"

lemma NewReplica_eq:
  "NewReplica cfg i =
     (case NewNode cfg i of Panic \<Rightarrow> Panic | Ret n \<Rightarrow> Ret (n\<lparr>handles := replica_handles\<rparr>))"
proof (cases "NewNode cfg i")
  case (Ret n)
  then show ?thesis
    using NewNode_Ret(4) [OF Ret] by (simp add: NewReplica_def register_all_def Register_def replica_handles_def)
qed (simp add: NewReplica_def)

lemma NewReplica_Ret:
  assumes "NewReplica cfg i = Ret n"
  shows "nid n = i" "MessageChan n = []" "chan_cap n = chan_room (ChanBufferSize cfg)" "handles n = replica_handles"
    "forwards n = fmempty" "reply_chans n = fmempty" "pending_sends n = []" "0 \<le> ChanBufferSize cfg"
proof -
  obtain n0 where n0: "NewNode cfg i = Ret n0" "n = n0\<lparr>handles := replica_handles\<rparr>"
    using assms by (cases "NewNode cfg i") (simp_all add: NewReplica_eq)
  note fields = NewNode_Ret [OF n0(1)]
  show "nid n = i" "MessageChan n = []" "chan_cap n = chan_room (ChanBufferSize cfg)" "handles n = replica_handles"
    "forwards n = fmempty" "reply_chans n = fmempty" "pending_sends n = []" "0 \<le> ChanBufferSize cfg"
    using fields by (simp_all add: n0(2))
qed

lemma NewReplica_possible:
  assumes "0 \<le> ChanBufferSize cfg"
  obtains n where "NewReplica cfg i = Ret n"
  using assms that by (simp add: NewReplica_eq NewNode_def)

section \<open>Sequences of operations\<close>

text \<open>
  The goroutines of a node interleave; a run is the list of the steps they make, in the order in
  which they happen. \<open>OAnswer\<close> is a handler function answering a request.
\<close>

datatype node_op =
    ORegister string func
  | ORecv nat packet
  | OHandle
  | OAnswer Request Reply
  | OReply nat
  | ORetry Request
  | OForward gid Request

datatype node_out = Quiet | Called func packet | Sent gid packet

definition quietly :: "node sync \<Rightarrow> (node \<times> node_out) sync" where
  "quietly r = sbind r (\<lambda>n. Done (n, Quiet))"

fun node_step :: "node_op \<Rightarrow> node \<Rightarrow> (node \<times> node_out) sync" where
  "node_step (ORegister t f) n = (case Register t f n of Panic \<Rightarrow> Panics | Ret n1 \<Rightarrow> Done (n1, Quiet))"
| "node_step (ORecv c m) n = quietly (recv_step c m n)"
| "node_step OHandle n = sbind (handle_step n) (\<lambda>(n1, f, m). Done (n1, Called f m))"
| "node_step (OAnswer r y) n = quietly (Request_Reply r y n)"
| "node_step (OReply c) n = sbind (reply_step c n) (\<lambda>(n1, i, y). Done (n1, Sent i (PReply y)))"
| "node_step (ORetry r) n = quietly (node_Retry r n)"
| "node_step (OForward i r) n = (let (n1, j, m) = Forward i r n in Done (n1, Sent j m))"

fun run_node :: "node_op list \<Rightarrow> node \<Rightarrow> (node \<times> node_out list) sync" where
  "run_node [] n = Done (n, [])"
| "run_node (x # xs) n =
     sbind (node_step x n) (\<lambda>(n1, y). sbind (run_node xs n1) (\<lambda>(n2, ys). Done (n2, y # ys)))"

lemma sbind_Done [simp]: "sbind m f = Done y \<longleftrightarrow> (\<exists>x. m = Done x \<and> f x = Done y)"
  by (cases m) auto

lemma sbind_split: "P (sbind m f) \<longleftrightarrow> (\<forall>x. m = Done x \<longrightarrow> P (f x)) \<and> (m = Blocks \<longrightarrow> P Blocks) \<and>
    (m = Fatal \<longrightarrow> P Fatal) \<and> (m = Panics \<longrightarrow> P Panics)"
  by (cases m) auto

text \<open>What the operations do to the fields, when they are done.\<close>

lemma push_message_Done [simp]:
  "push_message m n = Done n' \<longleftrightarrow>
     length (MessageChan n) < chan_cap n \<and> n' = n\<lparr>MessageChan := MessageChan n @ [m]\<rparr>"
  by (auto simp: push_message_def)

lemma Request_Reply_Done [simp]:
  "Request_Reply r y n = Done n' \<longleftrightarrow>
     (\<exists>c. rc r = Some c \<and> fmlookup (reply_chans n) c = Some [] \<and>
          n' = n\<lparr>reply_chans := fmupd c [y] (reply_chans n)\<rparr>)"
  by (auto simp: Request_Reply_def split: option.splits)

lemma handle_step_Done [simp]:
  "handle_step n = Done (n', f, m) \<longleftrightarrow>
     (\<exists>ms. MessageChan n = m # ms \<and> m \<noteq> PNil \<and> fmlookup (handles n) (type_name m) = Some f \<and>
           n' = n\<lparr>MessageChan := ms\<rparr>)"
  by (auto simp: handle_step_def split: list.splits option.splits)

lemma reply_step_Done [simp]:
  "reply_step c n = Done (n', i, y) \<longleftrightarrow>
     map_of (pending_sends n) c = Some i \<and>
     (\<exists>ys. fmlookup (reply_chans n) c = Some (y # ys) \<and>
       n' = n\<lparr>reply_chans := fmupd c ys (reply_chans n),
              pending_sends := filter (\<lambda>w. fst w \<noteq> c) (pending_sends n)\<rparr>)"
  by (auto simp: reply_step_def split: list.splits option.splits)

fun received_as :: "nat \<Rightarrow> packet \<Rightarrow> packet list" where
  "received_as c (PRequest r) = [PRequest (r\<lparr>rc := Some c\<rparr>)]"
| "received_as c (PReply y) = []"
| "received_as c (PMessage m) = [PMessage m]"
| "received_as c (POther t) = [POther t]"
| "received_as c PNil = [PNil]"

lemma recv_step_Done:
  assumes "recv_step c m n = Done n'"
  shows "handles n' = handles n" "forwards n' = forwards n" "nid n' = nid n" "chan_cap n' = chan_cap n"
    "MessageChan n' = MessageChan n @ received_as c m"
    "length (MessageChan n) \<le> chan_cap n \<Longrightarrow> length (MessageChan n') \<le> chan_cap n"
    "pending_sends n' = pending_sends n @ (case m of PRequest r \<Rightarrow> [(c, rNodeID r)] | _ \<Rightarrow> [])"
  using assms by (auto simp: recv_step_def make_chan_def split: packet.splits option.splits)

section \<open>Handlers are called with what they take, in the order of arrival\<close>

definition well_registered :: "node \<Rightarrow> bool" where
  "well_registered n \<longleftrightarrow> (\<forall>t f. fmlookup (handles n) t = Some f \<longrightarrow> isFunc f \<and> params f = [t])"

lemma Register_ok: "Register t f n = Ret n' \<Longrightarrow> well_registered n \<Longrightarrow> well_registered n'"
  by (auto simp: Register_def well_registered_def length_Suc_conv split: if_splits)

lemma register_all_ok: "register_all fs n = Ret n' \<Longrightarrow> well_registered n \<Longrightarrow> well_registered n'"
proof -
  have "fold (\<lambda>(t, f) r. case r of Panic \<Rightarrow> Panic | Ret n \<Rightarrow> Register t f n) fs Panic = Panic" for fs
    by (induction fs) auto
  then have "fold (\<lambda>(t, f) r. case r of Panic \<Rightarrow> Panic | Ret n \<Rightarrow> Register t f n) fs (Ret n) = Ret n' \<Longrightarrow>
      well_registered n \<Longrightarrow> well_registered n'"
  proof (induction fs arbitrary: n)
    case (Cons x fs)
    then show ?case by (cases x; cases "Register (fst x) (snd x) n") (auto dest: Register_ok)
  qed simp
  then show "register_all fs n = Ret n' \<Longrightarrow> well_registered n \<Longrightarrow> well_registered n'"
    by (simp add: register_all_def)
qed

text \<open>What the steps of a run put into the message channel, and what is taken out.\<close>

fun pushed :: "node_op list \<Rightarrow> packet list" where
  "pushed [] = []"
| "pushed (ORecv c m # xs) = received_as c m @ pushed xs"
| "pushed (ORetry r # xs) = PRequest r # pushed xs"
| "pushed (x # xs) = pushed xs"

fun called :: "node_out list \<Rightarrow> packet list" where
  "called [] = []"
| "called (Called f m # ys) = m # called ys"
| "called (y # ys) = called ys"

lemma node_step_effect:
  assumes "node_step x n = Done (n1, y)" and "well_registered n" and "length (MessageChan n) \<le> chan_cap n"
  shows "well_registered n1" "length (MessageChan n1) \<le> chan_cap n1"
    "called [y] @ MessageChan n1 = MessageChan n @ pushed [x]"
    "y = Called f m \<Longrightarrow> isFunc f \<and> params f = [type_name m]" "chan_cap n1 = chan_cap n"
proof -
  have "chan_cap n1 = chan_cap n \<and> well_registered n1 \<and> length (MessageChan n1) \<le> chan_cap n1 \<and>
      called [y] @ MessageChan n1 = MessageChan n @ pushed [x] \<and>
      (\<forall>f m. y = Called f m \<longrightarrow> isFunc f \<and> params f = [type_name m])"
  proof (cases x)
    case (ORegister t f)
    with assms show ?thesis
      using Register_ok [of t f n n1] by (auto simp: Register_def split: if_splits)
  next
    case (ORecv c m)
    with assms(1) have "recv_step c m n = Done n1" "y = Quiet" by (simp_all add: quietly_def)
    with recv_step_Done [OF this(1)] assms ORecv show ?thesis by (simp add: well_registered_def)
  next
    case OHandle
    with assms show ?thesis by (auto simp: well_registered_def)
  next
    case (OAnswer r y)
    with assms show ?thesis by (auto simp: well_registered_def quietly_def)
  next
    case (OReply c)
    with assms show ?thesis by (auto simp: well_registered_def)
  next
    case (ORetry r)
    with assms show ?thesis by (auto simp: well_registered_def quietly_def node_Retry_def)
  next
    case (OForward i r)
    with assms show ?thesis by (auto simp: well_registered_def Forward_def Let_def)
  qed
  then show "well_registered n1" "length (MessageChan n1) \<le> chan_cap n1"
    "called [y] @ MessageChan n1 = MessageChan n @ pushed [x]"
    "y = Called f m \<Longrightarrow> isFunc f \<and> params f = [type_name m]" "chan_cap n1 = chan_cap n" by blast+
qed

lemma called_Cons: "called (y # ys) = called [y] @ called ys"
  by (cases y) simp_all

lemma pushed_Cons: "pushed (x # xs) = pushed [x] @ pushed xs"
  by (cases x) simp_all

lemma run_node_effect:
  "run_node xs n = Done (n', ys) \<Longrightarrow> well_registered n \<Longrightarrow> length (MessageChan n) \<le> chan_cap n \<Longrightarrow>
     chan_cap n' = chan_cap n \<and> length (MessageChan n') \<le> chan_cap n' \<and> called ys @ MessageChan n' = MessageChan n @ pushed xs \<and>
     (\<forall>f m. Called f m \<in> set ys \<longrightarrow> isFunc f \<and> params f = [type_name m])"
proof (induction xs arbitrary: n ys)
  case (Cons x xs)
  then obtain n1 y zs where step: "node_step x n = Done (n1, y)" and rest: "run_node xs n1 = Done (n', zs)"
    and ys: "ys = y # zs" by auto
  note e = node_step_effect [OF step Cons.prems(2,3)]
  note IH = Cons.IH [OF rest e(1,2)]
  have "called ys @ MessageChan n' = called [y] @ MessageChan n1 @ pushed xs"
    using IH by (simp add: ys called_Cons [of y zs] del: called.simps)
  also have "\<dots> = MessageChan n @ pushed (x # xs)"
    using e(3) by (simp add: pushed_Cons [of x xs] del: called.simps pushed.simps flip: append_assoc)
  finally show ?case using IH e(4,5) by (auto simp: ys simp del: called.simps pushed.simps)
qed simp

text \<open>
  C21: whatever the goroutines of a node do in whatever order, a handler function is only called
  with a message of the type of its one parameter, so the reflective call never panics; the
  messages are handled in the order in which they came, none twice and none left out; and the
  channel never holds more of them than the configuration says, one if it has no buffer.
\<close>

theorem handlers_well_typed:
  assumes "NewNode cfg i = Ret n0" and "run_node xs n0 = Done (n, ys)"
  shows "(Called f m \<in> set ys \<longrightarrow> isFunc f \<and> params f = [type_name m]) \<and>
    called ys @ MessageChan n = pushed xs \<and> int (length (MessageChan n)) \<le> max 1 (ChanBufferSize cfg)"
  using run_node_effect [OF assms(2)] NewNode_Ret [OF assms(1)]
  by (auto simp: well_registered_def chan_room_def)

text \<open>A node with the default configuration.\<close>

definition new_node :: "gid \<Rightarrow> node" where
  "new_node i =
     \<lparr> nid = i, MessageChan = [], chan_cap = 1024, handles = fmempty, forwards = fmempty, reply_chans = fmempty,
       pending_sends = [] \<rparr>"

lemma NewNode_default: "NewNode MakeDefaultConfig i = Ret (new_node i)"
  by (simp add: NewNode_def new_node_def MakeDefaultConfig_def chan_room_def)

theorem handlers_well_typed_witness:
  "\<exists>n ys. run_node [ORegister ''T'' \<lparr> isFunc = True, params = [''T''], code = 0 \<rparr>, ORecv 0 (POther ''T''), OHandle]
       (new_node ''1.1'') = Done (n, ys) \<and> called ys = [POther ''T''] \<and> MessageChan n = []"
proof -
  let ?xs = "[ORegister ''T'' \<lparr> isFunc = True, params = [''T''], code = 0 \<rparr>, ORecv 0 (POther ''T''), OHandle]"
  obtain n ys where run: "run_node ?xs (new_node ''1.1'') = Done (n, ys)"
    and empty: "MessageChan n = []"
    by (simp add: Register_def quietly_def recv_step_def new_node_def)
  have "called ys @ MessageChan n = [POther ''T'']" using handlers_well_typed [OF NewNode_default run] by simp
  with run empty show ?thesis by (intro exI [of _ n] exI [of _ ys]) simp
qed

section \<open>Forwarded requests\<close>

fun gob_packet :: "packet \<Rightarrow> packet" where
  "gob_packet (PRequest r) = PRequest (gob_request r)"
| "gob_packet (PReply y) = PReply (gob_reply y)"
| "gob_packet (PMessage m) = PMessage (gob_message m)"
| "gob_packet (POther t) = POther t"
| "gob_packet PNil = PNil"

text \<open>The key under which a forwarded request is kept leaves out the counter.\<close>

definition forward_key :: "Request \<Rightarrow> string" where
  "forward_key r = Command_String (rCommand r)"

definition forwards_key :: "string \<Rightarrow> node_op \<Rightarrow> bool" where
  "forwards_key k x \<longleftrightarrow> (\<exists>i r. x = OForward i r \<and> forward_key r = k)"

lemma node_step_forwards:
  "node_step x n = Done (n1, y) \<Longrightarrow> \<not> forwards_key k x \<Longrightarrow> fmlookup (forwards n1) k = fmlookup (forwards n) k"
proof (cases x)
  case (ORecv c m)
  moreover assume "node_step x n = Done (n1, y)"
  ultimately have "recv_step c m n = Done n1" by (simp add: quietly_def)
  then show ?thesis by (simp add: recv_step_Done)
qed (auto simp: Register_def quietly_def node_Retry_def Forward_def Let_def forwards_key_def forward_key_def
    split: if_splits outcome.splits)

lemma run_node_forwards:
  "run_node xs n = Done (n', ys) \<Longrightarrow> \<forall>x \<in> set xs. \<not> forwards_key k x \<Longrightarrow>
     fmlookup (forwards n') k = fmlookup (forwards n) k"
proof (induction xs arbitrary: n ys)
  case (Cons x xs)
  then obtain n1 y zs where "node_step x n = Done (n1, y)" "run_node xs n1 = Done (n', zs)" by auto
  with Cons node_step_forwards show ?case by fastforce
qed simp

lemma node_step_pending:
  "node_step x n = Done (n1, y) \<Longrightarrow> x \<noteq> OReply c \<Longrightarrow> map_of (pending_sends n) c = Some i \<Longrightarrow>
     map_of (pending_sends n1) c = Some i"
proof (cases x)
  case (ORecv d m)
  moreover assume "node_step x n = Done (n1, y)" "map_of (pending_sends n) c = Some i"
  ultimately have "recv_step d m n = Done n1" by (simp add: quietly_def)
  with \<open>map_of (pending_sends n) c = Some i\<close> show ?thesis
    by (simp add: recv_step_Done map_add_def)
next
  case (OReply d)
  have other: "c \<noteq> d \<Longrightarrow> map_of (filter (\<lambda>w. fst w \<noteq> d) ws) c = map_of ws c" for ws :: "(nat \<times> gid) list"
    by (induction ws) auto
  assume "node_step x n = Done (n1, y)" "x \<noteq> OReply c" "map_of (pending_sends n) c = Some i"
  with OReply other [of "pending_sends n"] show ?thesis by auto
qed (auto simp: Register_def quietly_def node_Retry_def Forward_def Let_def split: if_splits outcome.splits)

lemma run_node_pending:
  "run_node xs n = Done (n', ys) \<Longrightarrow> OReply c \<notin> set xs \<Longrightarrow> map_of (pending_sends n) c = Some i \<Longrightarrow>
     map_of (pending_sends n') c = Some i"
proof (induction xs arbitrary: n ys)
  case (Cons x xs)
  then obtain n1 y zs where "node_step x n = Done (n1, y)" "run_node xs n1 = Done (n', zs)" by auto
  with Cons node_step_pending show ?case by fastforce
qed simp

text \<open>
  When node \<open>A\<close> forwards a request to \<open>B\<close> and \<open>B\<close> answers the request it received with a reply
  for its command, the goroutine waiting at \<open>B\<close> sends the reply to \<open>A\<close>, and \<open>A\<close> puts it into the
  channel of the original request, whatever the two nodes do in between except forwarding another
  command that prints the same or using the two reply channels. But a forwarded write of the empty
  value comes back as a read, which \<open>A\<close> cannot match: it panics.
\<close>

theorem forwarded_reply_returns:
  assumes fwd: "Forward b r A = (A1, i, m)" and ch: "rc r = Some ch"
    and recv: "recv_step c (gob_packet m) B = Done B1" and fresh: "map_of (pending_sends B) c = None"
    and B: "run_node xs B1 = Done (B2, ys)" "OReply c \<notin> set xs" "fmlookup (reply_chans B2) c = Some []"
    and A: "run_node us A1 = Done (A2, vs)" "\<forall>x \<in> set us. \<not> forwards_key (forward_key r) x"
      "fmlookup (reply_chans A2) ch = Some []"
    and y: "yCommand y = gob_command (rCommand r)"
  shows "(\<exists>r2 B3 B4. last (MessageChan B1) = PRequest r2 \<and> rCommand r2 = yCommand y \<and>
       Request_Reply r2 y B2 = Done B3 \<and> reply_step c B3 = Done (B4, nid A, y)) \<and>
    (Value (rCommand r) \<noteq> Some [] \<longrightarrow>
       (\<exists>A3. recv_step d (PReply (gob_reply y)) A2 = Done A3 \<and>
             fmlookup (reply_chans A3) ch = Some [gob_reply y])) \<and>
    (Value (rCommand r) = Some [] \<longrightarrow> fmlookup (forwards A) (Command_String (yCommand y)) = None \<longrightarrow>
       (\<forall>x \<in> set us. \<not> forwards_key (Command_String (yCommand y)) x) \<longrightarrow>
       recv_step d (PReply (gob_reply y)) A2 = Panics)"
proof (intro conjI impI)
  let ?r1 = "r\<lparr>rNodeID := nid A\<rparr>" and ?r2 = "(gob_request (r\<lparr>rNodeID := nid A\<rparr>))\<lparr>rc := Some c\<rparr>"
  have m: "m = PRequest ?r1" and fA: "fmlookup (forwards A1) (forward_key r) = Some ?r1"
    using fwd by (auto simp: Forward_def Let_def forward_key_def)
  have "MessageChan B1 = MessageChan B @ [PRequest ?r2]"
    and p1: "map_of (pending_sends B1) c = Some (nid A)"
    using recv_step_Done [OF recv] fresh by (simp_all add: m map_add_def)
  moreover have "map_of (pending_sends B2) c = Some (nid A)" by (rule run_node_pending [OF B(1,2) p1])
  ultimately show "\<exists>r2 B3 B4. last (MessageChan B1) = PRequest r2 \<and> rCommand r2 = yCommand y \<and>
       Request_Reply r2 y B2 = Done B3 \<and> reply_step c B3 = Done (B4, nid A, y)"
    using B(3) y by (intro exI [of _ ?r2]) simp
  have fA2: "fmlookup (forwards A2) (forward_key r) = Some ?r1"
    using run_node_forwards [OF A(1,2)] fA by simp
  {
    assume "Value (rCommand r) \<noteq> Some []"
    then have "Command_String (yCommand (gob_reply y)) = forward_key r"
      by (simp add: y gob_reply_def forward_key_def gob_command_same)
    with fA2 ch A(3) show "\<exists>A3. recv_step d (PReply (gob_reply y)) A2 = Done A3 \<and>
        fmlookup (reply_chans A3) ch = Some [gob_reply y]"
      by (simp add: recv_step_def)
  next
    assume empty: "Value (rCommand r) = Some []"
      and none: "fmlookup (forwards A) (Command_String (yCommand y)) = None"
        "\<forall>x \<in> set us. \<not> forwards_key (Command_String (yCommand y)) x"
    have "forward_key r \<noteq> Command_String (yCommand y)"
      using empty by (simp add: y forward_key_def Command_String_def gob_value_def)
    then have "fmlookup (forwards A1) (Command_String (yCommand y)) = None"
      using fwd none(1) by (auto simp: Forward_def Let_def forward_key_def)
    then have "fmlookup (forwards A2) (Command_String (yCommand y)) = None"
      using run_node_forwards [OF A(1) none(2)] by simp
    then show "recv_step d (PReply (gob_reply y)) A2 = Panics"
      by (simp add: recv_step_def gob_reply_def y)
  }
qed

definition sample_request :: Request where
  "sample_request = zero_request\<lparr>rCommand := example_command 5 (Some [6]), rc := Some 7\<rparr>"

theorem forwarded_reply_returns_witness:
  "\<exists>A1 m A3 y. Forward ''1.2'' sample_request (make_chan 7 (new_node ''1.1'')) = (A1, ''1.2'', m) \<and>
     recv_step 0 (PReply (gob_reply y)) A1 = Done A3 \<and>
     fmlookup (reply_chans A3) 7 = Some [gob_reply y] \<and> yCommand y = example_command 5 (Some [6])"
proof -
  let ?A = "make_chan 7 (new_node ''1.1'')" and ?B = "new_node ''1.2''"
  let ?y = "\<lparr> yCommand = example_command 5 (Some [6]), yValue = None, yProperties = fmempty, yTimestamp = 0,
              yErr = None \<rparr>"
  obtain A1 m where fwd: "Forward ''1.2'' sample_request ?A = (A1, ''1.2'', m)"
    and A1: "reply_chans A1 = reply_chans ?A" and m: "m = PRequest (sample_request\<lparr>rNodeID := nid ?A\<rparr>)"
    by (simp add: Forward_def Let_def)
  obtain B1 where B1: "recv_step 3 (gob_packet m) ?B = Done B1" and c: "fmlookup (reply_chans B1) 3 = Some []"
    by (simp add: m recv_step_def make_chan_def new_node_def)
  have "run_node [] A1 = Done (A1, [])" "run_node [] B1 = Done (B1, [])" by simp_all
  from forwarded_reply_returns [OF fwd _ B1 _ this(2) _ c this(1), of 7 ?y 0]
  show ?thesis
    using fwd by (fastforce simp: sample_request_def example_command_def gob_command_def gob_value_def A1
        make_chan_def new_node_def)
qed

text \<open>
  C32: one message from a peer stops a replica's node. A reply for a command that the node has not
  forwarded makes \<open>recv\<close> panic, and a message of a type without a handler ends the program when
  its turn comes. Nothing in the code forwards requests, so every reply is such a message.
\<close>

theorem one_message_stops_a_node:
  assumes "NewReplica cfg i = Ret n0" and run: "run_node xs n0 = Done (n, ys)"
    and fwd: "\<forall>x \<in> set xs. \<not> forwards_key (Command_String (yCommand y)) x"
    and reg: "\<forall>x \<in> set xs. \<forall>f. x \<noteq> ORegister t f"
    and t: "t \<notin> {''BigBFT.Request'', ''consensus.Propose'', ''consensus.Vote''}"
  shows "node_step (ORecv c (PReply y)) n = Panics \<and>
    (MessageChan n = [] \<longrightarrow> run_node [ORecv c (POther t), OHandle] n = Fatal)"
proof (intro conjI impI)
  have n0: "forwards n0 = fmempty" "fmlookup (handles n0) t = None"
      "MessageChan n0 = []" "chan_cap n0 = chan_room (ChanBufferSize cfg)" "well_registered n0"
    using NewReplica_Ret [OF assms(1)] t by (auto simp: replica_handles_def well_registered_def)
  have "fmlookup (forwards n) (Command_String (yCommand y)) = None"
    using run_node_forwards [OF run fwd] n0(1) by simp
  then show "node_step (ORecv c (PReply y)) n = Panics"
    by (simp add: recv_step_def quietly_def)
  have keep: "fmlookup (handles n2) t = fmlookup (handles n1) t"
    if "node_step x n1 = Done (n2, z)" "\<forall>f. x \<noteq> ORegister t f" for x n1 n2 z
  proof (cases x)
    case (ORecv d m)
    with that(1) have "recv_step d m n1 = Done n2" by (simp add: quietly_def)
    then show ?thesis by (simp add: recv_step_Done)
  qed (use that in \<open>auto simp: Register_def quietly_def node_Retry_def Forward_def Let_def
      split: if_splits outcome.splits\<close>)
  have "fmlookup (handles n2) t = fmlookup (handles n1) t"
    if "run_node us n1 = Done (n2, zs)" "\<forall>x \<in> set us. \<forall>f. x \<noteq> ORegister t f" for us n1 n2 zs
    using that
  proof (induction us arbitrary: n1 zs)
    case (Cons x us)
    then obtain n3 z zs' where "node_step x n1 = Done (n3, z)" "run_node us n3 = Done (n2, zs')" by auto
    with keep [of x n1 n3 z] Cons.IH [of n3 zs'] Cons.prems(2) show ?case by simp
  qed simp
  from this [OF run reg] have none: "fmlookup (handles n) t = None" by (simp add: n0)
  assume "MessageChan n = []"
  moreover have "0 < chan_cap n"
    using run_node_effect [OF run n0(5)] n0(3,4) by (simp add: chan_room_def)
  ultimately show "run_node [ORecv c (POther t), OHandle] n = Fatal"
    using none by (simp add: recv_step_def quietly_def push_message_def handle_step_def)
qed

theorem one_message_stops_a_node_witness:
  "\<exists>n. NewReplica MakeDefaultConfig ''1.1'' = Ret n \<and>
     node_step (ORecv 0 (PReply \<lparr> yCommand = zero_command, yValue = None, yProperties = fmempty, yTimestamp = 0,
        yErr = None \<rparr>)) n = Panics \<and> run_node [ORecv 0 (POther ''BigBFT.Read''), OHandle] n = Fatal"
proof -
  obtain n where n: "NewReplica MakeDefaultConfig ''1.1'' = Ret n" "MessageChan n = []"
    by (simp add: NewReplica_eq NewNode_default new_node_def)
  moreover have "run_node [] n = Done (n, [])" by simp
  ultimately show ?thesis
    using one_message_stops_a_node [OF n(1), of "[]" n "[]" "\<lparr> yCommand = zero_command, yValue = None,
        yProperties = fmempty, yTimestamp = 0, yErr = None \<rparr>" "''BigBFT.Read''" 0]
    by simp
qed

end
