(* ===== verification/Masters.thy ===== *)
theory Masters
  imports Quorums Containers Strconv
begin

text \<open>
  The master (\<open>master/master.go\<close>) hands out the configuration: it collects the registrations of
  \<open>n\<close> nodes and numbers their ports in the order they come, then gives each of them the result. A
  client gets the configuration as it is when it asks. Its sockets are not modelled; the address
  of a node is that of its connection. The other end is \<open>ConnectToMaster\<close> of \<open>util.go\<close>, which decodes
  the answer over the process's own configuration.
\<close>

record Register_msg =
  mClient :: bool
  mID :: gid
  mAddr :: string

section \<open>Collecting the nodes\<close>

record Master =
  mn :: nat
  mport :: int
  mhttp :: int
  seen :: nat
  maddrs :: "(gid, string) gomap"
  mhttps :: "(gid, string) gomap"
  mconfig :: Config

definition new_master :: "nat \<Rightarrow> int \<Rightarrow> int \<Rightarrow> float64 \<Rightarrow> bool \<Rightarrow> Master" where
  "new_master n port http threshold thrifty =
     (let c = MakeDefaultConfig\<lparr>cThreshold := threshold, Thrifty := thrifty\<rparr>
      in if n = 0
         then \<lparr> mn = n, mport = port, mhttp = http, seen = 0, maddrs = fmempty, mhttps = fmempty,
                mconfig = c\<lparr>Addrs := fmempty, HTTPAddrs := fmempty\<rparr> \<rparr>
         else \<lparr> mn = n, mport = port, mhttp = http, seen = 0, maddrs = fmempty, mhttps = fmempty,
                mconfig = c \<rparr>)"

text \<open>One iteration of the first loop, with what follows the last one.\<close>

definition register_node :: "Register_msg \<Rightarrow> Master \<Rightarrow> Master" where
  "register_node msg m =
     (if seen m < mn m
      then let i = int (seen m);
               m1 = m\<lparr>maddrs := fmupd (mID msg) (mAddr msg @ '':'' @ Itoa (word_of_int (mport m + i + 1))) (maddrs m),
                      mhttps := fmupd (mID msg) (''http://'' @ mAddr msg @ '':'' @
                        Itoa (word_of_int (mhttp m + i + 1))) (mhttps m),
                      seen := seen m + 1\<rparr>
           in if seen m1 = mn m
              then m1\<lparr>mconfig := (mconfig m1)\<lparr>Addrs := maddrs m1, HTTPAddrs := mhttps m1\<rparr>\<rparr>
              else m1
      else m)"

text \<open>
  A connection: a node waits until all have come (\<open>None\<close>), a client is answered at once. A node too
  many waits for ever, as nobody receives its message.
\<close>

definition client_config :: "Master \<Rightarrow> Config" where
  "client_config m = mconfig m"

definition node_config :: "Master \<Rightarrow> Config option" where
  "node_config m = (if seen m = mn m then Some (mconfig m) else None)"

definition host_of :: "string \<Rightarrow> string" where
  "host_of remote = hd (Split CHR '':'' remote)"

text \<open>What the goroutine of a connection does with a message that it has decoded.\<close>

definition accept_node :: "string \<Rightarrow> Register_msg \<Rightarrow> Master \<Rightarrow> Master" where
  "accept_node remote msg m =
     (if mClient msg then m else register_node (msg\<lparr>mAddr := host_of remote\<rparr>) m)"

definition master_reply :: "Master \<Rightarrow> Register_msg \<Rightarrow> Config option" where
  "master_reply m msg = (if mClient msg then Some (client_config m) else node_config m)"

text \<open>
  The loop over the connections: an error of accepting one, or of decoding what it sends (\<open>None\<close>), is a
  panic, in the loop or in a goroutine, which ends the program in either case.
\<close>

datatype master_event = AcceptFails | Connects string "Register_msg option"

fun master_run :: "master_event list \<Rightarrow> Master \<Rightarrow> Master sync" where
  "master_run [] m = Done m"
| "master_run (AcceptFails # es) m = Panics"
| "master_run (Connects remote None # es) m = Panics"
| "master_run (Connects remote (Some msg) # es) m = master_run es (accept_node remote msg m)"

definition master_main :: "bool \<Rightarrow> nat \<Rightarrow> int \<Rightarrow> int \<Rightarrow> float64 \<Rightarrow> bool \<Rightarrow> master_event list \<Rightarrow> Master sync" where
  "master_main listens n port http threshold thrifty es =
     (if \<not> listens then Fatal else master_run es (new_master n port http threshold thrifty))"

lemma bad_connection_stops_master:
  "Connects remote None \<in> set es \<Longrightarrow> master_run es m = Panics"
  by (induction es m rule: master_run.induct) auto

section \<open>The configuration handed out\<close>

lemma register_node_simps [simp]:
  "mn (register_node msg m) = mn m" "mport (register_node msg m) = mport m"
  "mhttp (register_node msg m) = mhttp m"
  "seen (register_node msg m) = (if seen m < mn m then seen m + 1 else seen m)"
  by (simp_all add: register_node_def Let_def)

lemma register_nodes_mn [simp]: "mn (fold register_node ms m) = mn m"
  by (induction ms arbitrary: m) simp_all

lemma register_node_early: "seen m + 1 < mn m \<Longrightarrow> mconfig (register_node msg m) = mconfig m"
  by (simp add: register_node_def Let_def)

lemma register_nodes_seen:
  "seen m + length ms \<le> mn m \<Longrightarrow> seen (fold register_node ms m) = seen m + length ms"
proof (induction ms arbitrary: m)
  case (Cons msg ms)
  from Cons.IH [of "register_node msg m"] Cons.prems show ?case by simp
qed simp

lemma register_nodes_addrs:
  assumes "seen m + length ms \<le> mn m" "distinct (map mID ms)" "k < length ms"
  shows "fmlookup (maddrs (fold register_node ms m)) (mID (ms ! k)) =
    Some (mAddr (ms ! k) @ '':'' @ Itoa (word_of_int (mport m + int (seen m + k) + 1)))"
  using assms
proof (induction ms arbitrary: m k)
  case (Cons msg ms)
  let ?m = "register_node msg m"
  have keep: "fmlookup (maddrs (fold register_node ns m')) i = fmlookup (maddrs m') i"
    if "i \<notin> set (map mID ns)" for i m' ns
    using that by (induction ns arbitrary: m') (auto simp: register_node_def Let_def)
  have m: "seen ?m = seen m + 1" "mn ?m = mn m" "mport ?m = mport m"
    "fmlookup (maddrs ?m) (mID msg) = Some (mAddr msg @ '':'' @ Itoa (word_of_int (mport m + int (seen m) + 1)))"
    using Cons.prems(1) by (simp_all add: register_node_def Let_def)
  show ?case
  proof (cases k)
    case 0
    then show ?thesis using keep [of "mID msg" ms ?m] Cons.prems(2) m(4) by simp
  next
    case (Suc j)
    then show ?thesis using Cons.IH [of ?m j] Cons.prems m by (simp add: algebra_simps)
  qed
qed simp

lemma register_nodes_complete:
  assumes "seen m < mn m" "seen m + length ms = mn m"
  shows "mconfig (fold register_node ms m) =
    (mconfig m)\<lparr>Addrs := maddrs (fold register_node ms m), HTTPAddrs := mhttps (fold register_node ms m)\<rparr>"
  using assms
proof (induction ms arbitrary: m)
  case (Cons msg ms)
  show ?case
  proof (cases ms)
    case Nil
    then show ?thesis using Cons.prems by (simp add: register_node_def Let_def)
  next
    case (Cons a as)
    then show ?thesis
      using Cons.IH [of "register_node msg m"] Cons.prems register_node_early [of m msg] by simp
  qed
qed simp

text \<open>
  When as many nodes have registered as the master was started for, all under names of their
  own, each gets the same configuration, in which the \<open>k\<close>-th to register has its host and the port
  \<open>k\<close> above the master's; before that none gets any, and a client that asks is given one without
  addresses.
\<close>

theorem master_numbers_nodes:
  assumes "length ms \<le> n" and "distinct (map mID ms)" and "0 < n"
  shows "(case node_config (fold register_node ms (new_master n port http threshold thrifty)) of
      None \<Rightarrow> length ms < n \<and>
        Addrs (client_config (fold register_node ms (new_master n port http threshold thrifty))) = fmempty
    | Some c \<Rightarrow> length ms = n \<and> (\<forall>k. k < n \<longrightarrow>
        fmlookup (Addrs c) (mID (ms ! k)) = Some (mAddr (ms ! k) @ '':'' @ Itoa (word_of_int (port + int k + 1)))))"
proof -
  let ?init = "new_master n port http threshold thrifty" and ?m = "fold register_node ms (new_master n port http threshold thrifty)"
  have init: "seen ?init = 0" "mn ?init = n" "mport ?init = port" "Addrs (mconfig ?init) = fmempty"
    by (simp_all add: new_master_def MakeDefaultConfig_def Let_def)
  have seen: "seen ?m = length ms" using register_nodes_seen [of ?init ms] assms(1) init by simp
  show ?thesis
  proof (cases "length ms = n")
    case True
    then have "mconfig ?m = (mconfig ?init)\<lparr>Addrs := maddrs ?m, HTTPAddrs := mhttps ?m\<rparr>"
      using register_nodes_complete [of ?init ms] init assms(3) by simp
    with True seen register_nodes_addrs [of ?init ms] init assms(2) show ?thesis
      by (simp add: node_config_def)
  next
    case False
    have keep: "seen m + length ns < mn m \<Longrightarrow> mconfig (fold register_node ns m) = mconfig m" for ns m
      by (induction ns arbitrary: m) (simp_all add: register_node_early)
    from False seen keep [of ?init ms] init assms(1) show ?thesis
      by (simp add: node_config_def client_config_def)
  qed
qed

theorem master_numbers_nodes_witness:
  "\<exists>c. node_config (fold register_node
       [\<lparr> mClient = False, mID = ''1.1'', mAddr = ''a'' \<rparr>, \<lparr> mClient = False, mID = ''1.2'', mAddr = ''a'' \<rparr>]
       (new_master 2 1735 8080 3 False)) = Some c \<and>
     fmlookup (Addrs c) ''1.2'' = Some (''a:'' @ Itoa 1737)"
proof -
  let ?ms = "[\<lparr> mClient = False, mID = ''1.1'', mAddr = ''a'' \<rparr>, \<lparr> mClient = False, mID = ''1.2'', mAddr = ''a'' \<rparr>]"
  have "length ?ms \<le> 2" "distinct (map mID ?ms)" "0 < (2 :: nat)" by simp_all
  from master_numbers_nodes [OF this, of 1735 8080 3 False] show ?thesis
    by (auto split: option.splits dest: spec [of _ 1])
qed

section \<open>Connecting to the master\<close>

text \<open>
  What decoding does to a value that is there already: a field that was zero is not sent and keeps what
  it has, and maps are merged. The counts are not exported.
\<close>

definition keep :: "'a :: zero \<Rightarrow> 'a \<Rightarrow> 'a" where
  "keep old new = (if new = 0 then old else new)"

definition keep_string :: "string \<Rightarrow> string \<Rightarrow> string" where
  "keep_string old new = (if new = [] then old else new)"

definition gob_Bconfig :: "Bconfig \<Rightarrow> Bconfig \<Rightarrow> Bconfig" where
  "gob_Bconfig d c =
     \<lparr> bT = keep (bT d) (bT c), bN = keep (bN d) (bN c), bK = keep (bK d) (bK c), bW = keep (bW d) (bW c),
       Throttle = keep (Throttle d) (Throttle c), Concurrency = keep (Concurrency d) (Concurrency c),
       Distribution = keep_string (Distribution d) (Distribution c),
       LinearizabilityCheck = (LinearizabilityCheck d \<or> LinearizabilityCheck c),
       Conflicts = keep (Conflicts d) (Conflicts c), bMin = keep (bMin d) (bMin c), Mu = keep (Mu d) (Mu c),
       Sigma = keep (Sigma d) (Sigma c), Move = (Move d \<or> Move c), Speed = keep (Speed d) (Speed c),
       ZipfianS = keep (ZipfianS d) (ZipfianS c), ZipfianV = keep (ZipfianV d) (ZipfianV c),
       Lambda = keep (Lambda d) (Lambda c), bSize = keep (bSize d) (bSize c) \<rparr>"

definition gob_Config :: "Config \<Rightarrow> Config \<Rightarrow> Config" where
  "gob_Config d c =
     d\<lparr>Addrs := fmadd (Addrs d) (Addrs c), HTTPAddrs := fmadd (HTTPAddrs d) (HTTPAddrs c),
       cPolicy := keep_string (cPolicy d) (cPolicy c), cThreshold := keep (cThreshold d) (cThreshold c),
       Thrifty := (Thrifty d \<or> Thrifty c), BufferSize := keep (BufferSize d) (BufferSize c),
       ChanBufferSize := keep (ChanBufferSize d) (ChanBufferSize c),
       MultiVersion := (MultiVersion d \<or> MultiVersion c),
       cBenchmark := gob_Bconfig (cBenchmark d) (cBenchmark c)\<rparr>"

text \<open>
  \<open>dial\<close> gives what is at the other end, a function from the message to the configuration it answers,
  if any; a failed dial or decoding is fatal, \<open>None\<close>.
\<close>

definition ConnectToMaster ::
    "(string \<Rightarrow> (Register_msg \<Rightarrow> Config option) option) \<Rightarrow> string \<Rightarrow> bool \<Rightarrow> gid \<Rightarrow> Config \<Rightarrow> Config option" where
  "ConnectToMaster dial addr client i config =
     (case dial addr of
        None \<Rightarrow> None
      | Some master \<Rightarrow>
          let msg = \<lparr> mClient = client, mID = i, mAddr = [] \<rparr>
          in map_option (gob_Config config) (master msg))"

lemma accept_nodes:
  "fold (\<lambda>(i, remote). accept_node remote \<lparr> mClient = False, mID = i, mAddr = [] \<rparr>) ps m =
     fold register_node (map (\<lambda>(i, remote). \<lparr> mClient = False, mID = i, mAddr = host_of remote \<rparr>) ps) m"
  by (induction ps arbitrary: m) (auto simp: accept_node_def)

lemma ACKs_nonneg: "0 \<le> qsize (fold (\<lambda>i q. ACK q i) is NewQuorum)"
proof -
  have "0 \<le> qsize q \<Longrightarrow> 0 \<le> qsize (fold (\<lambda>i q. ACK q i) is q)" for q
    by (induction "is" arbitrary: q) (simp_all add: ACK_def)
  then show ?thesis by (simp add: NewQuorum_def)
qed

text \<open>
  C37: When the nodes a master was started for have connected to it, the configuration that each of them
  gets has the addresses of all, and still says that there are no nodes: the counts are not part of the
  message and nothing counts the addresses afterwards, as \<open>Load\<close> does. Then everything is a majority,
  and a replica with such a configuration would commit a command with the first vote, or none.
\<close>

theorem connected_nodes_count_none:
  assumes "length ps = n" "distinct (map fst ps)" "0 < n"
    and "m = fold (\<lambda>(i, remote). accept_node remote \<lparr> mClient = False, mID = i, mAddr = [] \<rparr>) ps
               (new_master n port http threshold thrifty)"
    and "dial addr = Some (master_reply m)"
  shows "\<exists>c. ConnectToMaster dial addr False i MakeDefaultConfig = Some c \<and>
    (\<forall>k < n. fmlookup (Addrs c) (fst (ps ! k)) =
       Some (host_of (snd (ps ! k)) @ '':'' @ Itoa (word_of_int (port + int k + 1)))) \<and>
    Config_N c = 0 \<and> Config_Z c = 0 \<and> Majority c (fold (\<lambda>i q. ACK q i) is NewQuorum)"
proof -
  let ?ms = "map (\<lambda>(i, remote). \<lparr> mClient = False, mID = i, mAddr = host_of remote \<rparr>) ps"
  let ?init = "new_master n port http threshold thrifty"
  have m: "m = fold register_node ?ms ?init" by (simp add: assms(4) accept_nodes)
  have init: "seen ?init = 0" "mn ?init = n" "mport ?init = port" by (simp_all add: new_master_def Let_def)
  have ids: "distinct (map mID ?ms)" using assms(2) by (simp add: comp_def split_beta)
  have seen: "seen m = n" using register_nodes_seen [of ?init ?ms] init assms(1) by (simp add: m)
  have conf: "mconfig m = (mconfig ?init)\<lparr>Addrs := maddrs m, HTTPAddrs := mhttps m\<rparr>"
    using register_nodes_complete [of ?init ?ms] init assms(1,3) by (simp add: m)
  define c where "c = gob_Config MakeDefaultConfig (mconfig m)"
  have "mn m = n" using init by (simp add: m)
  then have connected: "ConnectToMaster dial addr False i MakeDefaultConfig = Some c"
    using assms(5) seen by (simp add: ConnectToMaster_def master_reply_def node_config_def c_def)
  have "fmlookup (Addrs c) (fst (ps ! k)) =
      Some (host_of (snd (ps ! k)) @ '':'' @ Itoa (word_of_int (port + int k + 1)))" if "k < n" for k
  proof -
    have "fmlookup (maddrs m) (fst (ps ! k)) =
        Some (host_of (snd (ps ! k)) @ '':'' @ Itoa (word_of_int (port + int k + 1)))"
      using register_nodes_addrs [of ?init ?ms k] init ids assms(1) that by (simp add: m split_beta)
    then show ?thesis by (simp add: c_def gob_Config_def conf MakeDefaultConfig_def)
  qed
  moreover have "cn c = 0" "cz c = 0" by (simp_all add: c_def gob_Config_def MakeDefaultConfig_def)
  ultimately show ?thesis
    using connected ACKs_nonneg by (auto simp: Config_N_def Config_Z_def Majority_def go_div_def)
qed

theorem connected_nodes_count_none_witness:
  "\<exists>m c. m = fold (\<lambda>(i, remote). accept_node remote \<lparr> mClient = False, mID = i, mAddr = [] \<rparr>)
        [(''1.1'', ''h:50''), (''1.2'', ''h:51'')] (new_master 2 1735 8080 3 False) \<and>
     ConnectToMaster (\<lambda>addr. Some (master_reply m)) ''m'' False ''1.1'' MakeDefaultConfig = Some c \<and>
     Majority c NewQuorum"
proof -
  let ?ps = "[(''1.1'', ''h:50''), (''1.2'', ''h:51'')]"
  define m where "m = fold (\<lambda>(i, remote). accept_node remote \<lparr> mClient = False, mID = i, mAddr = [] \<rparr>) ?ps
      (new_master 2 1735 8080 3 False)"
  have ps: "length ?ps = 2" "distinct (map fst ?ps)" "0 < (2 :: nat)" by simp_all
  obtain c where "ConnectToMaster (\<lambda>addr. Some (master_reply m)) ''m'' False ''1.1'' MakeDefaultConfig = Some c"
    "Majority c (fold (\<lambda>i q. ACK q i) [] NewQuorum)"
    using connected_nodes_count_none [OF ps m_def, of "\<lambda>addr. Some (master_reply m)" "''m''" "''1.1''" "[]"] by blast
  with m_def show ?thesis by auto
qed

end
