(* ===== verification/Messages.thy ===== *)
theory Messages
  imports Nodes Masters "HOL-Library.List_Lexorder" "HOL-Library.Char_ord"
begin

text \<open>
  The messages that the protocol does not use (\<open>message.go\<close>) and how all of them are printed
  (\<open>message.go\<close>, \<open>consensus/msg.go\<close>), by the rules of \<open>fmt\<close>: a value with a method \<open>String\<close> is printed
  by it, also within a slice or a map, and a map in the order of its keys. Which types \<open>encoding/gob\<close> can
  carry as an interface value, and which of those a replica has a handler for. The text of a command is
  the key under which a node remembers what it has forwarded: what it tells apart.
\<close>

section \<open>Types\<close>

record Read_msg =
  dCommandID :: int
  dKey :: int

record ReadReply =
  drCommandID :: int
  drValue :: Value

record Transaction =
  tCommands :: "Command list"
  tTimestamp :: int
  tc :: "nat option"

record TransactionReply =
  trOK :: bool
  trCommands :: "Command list"
  trTimestamp :: int
  trErr :: "string option"

text \<open>A send on the channel of the transaction: a channel is its capacity and what it holds.\<close>

definition Transaction_Reply ::
    "Transaction \<Rightarrow> TransactionReply \<Rightarrow> (nat, nat \<times> TransactionReply list) gomap \<Rightarrow>
     (nat, nat \<times> TransactionReply list) gomap sync" where
  "Transaction_Reply t r chans =
     (case tc t of
        None \<Rightarrow> Blocks
      | Some c \<Rightarrow>
          (case fmlookup chans c of
             None \<Rightarrow> Blocks
           | Some (n, rs) \<Rightarrow> if length rs < n then Done (fmupd c (n, rs @ [r]) chans) else Blocks))"

section \<open>Printing\<close>

fun joined :: "string list \<Rightarrow> string" where
  "joined [] = []"
| "joined [s] = s"
| "joined (s # t # ss) = s @ '' '' @ joined (t # ss)"

definition print_bool :: "bool \<Rightarrow> string" where
  "print_bool b = (if b then ''true'' else ''false'')"

definition print_map :: "('k :: linorder \<Rightarrow> string) \<Rightarrow> ('v \<Rightarrow> string) \<Rightarrow> ('k, 'v) gomap \<Rightarrow> string" where
  "print_map key val m =
     ''map['' @ joined (List.map (\<lambda>k. key k @ '':'' @ val (the (fmlookup m k))) (sorted_list_of_set (fmdom' m))) @ '']''"

definition Request_String :: "Request \<Rightarrow> string" where
  "Request_String r = ''Request {cmd='' @ Command_String (rCommand r) @ '' nid='' @ rNodeID r @ ''}''"

definition Reply_String :: "Reply \<Rightarrow> string" where
  "Reply_String r =
     ''Reply {cmd='' @ Command_String (yCommand r) @ '' value='' @ print_hex (content (yValue r)) @ '' prop='' @
     print_map (\<lambda>k. k) (\<lambda>v. v) (yProperties r) @ ''}''"

definition Read_String :: "Read_msg \<Rightarrow> string" where
  "Read_String r = ''Read {cid='' @ print_int (dCommandID r) @ '', key='' @ print_int (dKey r) @ ''}''"

definition ReadReply_String :: "ReadReply \<Rightarrow> string" where
  "ReadReply_String r =
     ''ReadReply {cid='' @ print_int (drCommandID r) @ '', val='' @ print_hex (content (drValue r)) @ ''}''"

definition Transaction_String :: "Transaction \<Rightarrow> string" where
  "Transaction_String t = ''Transaction {cmds=['' @ joined (List.map Command_String (tCommands t)) @ '']}''"

definition CommandBallot_String :: "CommandBallot \<Rightarrow> string" where
  "CommandBallot_String cb = ''cmd='' @ Command_String (cbCommand cb) @ '' s='' @ print_int (cbSlot cb)"

definition Propose_String :: "Propose_msg \<Rightarrow> string" where
  "Propose_String m =
     ''Propose {b='' @ Ballot_String (pBallot m) @ '' Command='' @ Command_String (pCommand m) @ '' slot='' @
     print_int (pSlot m) @ '' Leader='' @ print_bool (pLeader m) @ ''}''"

definition Vote_String :: "Vote_msg \<Rightarrow> string" where
  "Vote_String m = ''Vote {L='' @ print_map print_int CommandBallot_String (vL m) @ ''}''"

section \<open>What the transports can carry\<close>

text \<open>The types that the two \<open>init\<close> functions register.\<close>

definition gob_registered :: "string list" where
  "gob_registered =
     [''BigBFT.Request'', ''BigBFT.Reply'', ''BigBFT.Read'', ''BigBFT.ReadReply'', ''BigBFT.Transaction'',
      ''BigBFT.TransactionReply'', ''BigBFT.Register'', ''BigBFT.Config'']"

definition gob_registered_consensus :: "string list" where
  "gob_registered_consensus = [''consensus.Propose'', ''consensus.Vote'']"

text \<open>A replica sends only what can be carried, and is sent only by itself what it can handle.\<close>

lemma replica_messages_registered:
  "type_name (PRequest r) \<in> set gob_registered" "type_name (PReply y) \<in> set gob_registered"
  "type_name (PMessage m) \<in> set gob_registered_consensus"
  by (simp_all add: gob_registered_def gob_registered_consensus_def) (cases m; simp)

text \<open>These can be carried, but end a replica that gets one.\<close>

lemma registered_without_handler:
  assumes "NewReplica cfg i = Ret n"
  shows "set (gob_registered @ gob_registered_consensus) - fmdom' (handles n) - {''BigBFT.Reply''} =
    {''BigBFT.Read'', ''BigBFT.ReadReply'', ''BigBFT.Transaction'', ''BigBFT.TransactionReply'',
     ''BigBFT.Register'', ''BigBFT.Config''}"
proof -
  have "fmdom' (handles n) = {''BigBFT.Request'', ''consensus.Propose'', ''consensus.Vote''}"
    using NewReplica_Ret(4) [OF assms] by (auto simp: replica_handles_def)
  then show ?thesis by (simp add: gob_registered_def gob_registered_consensus_def insert_Diff_if)
qed

section \<open>The text of a command\<close>

lemma split_first:
  "x \<notin> set xs \<Longrightarrow> x \<notin> set ys \<Longrightarrow> xs @ x # a = ys @ x # b \<longleftrightarrow> xs = ys \<and> a = b"
proof (induction xs arbitrary: ys)
  case (Cons u us)
  then show ?case by (cases ys) auto
qed (metis append_Nil hd_append2 list.sel(1) list.sel(3) list.set_sel(1))

lemma split_final:
  assumes "x \<notin> set a" "x \<notin> set b"
  shows "xs @ x # a = ys @ x # b \<longleftrightarrow> xs = ys \<and> a = b"
proof -
  have "xs @ x # a = ys @ x # b \<longleftrightarrow> rev a @ x # rev xs = rev b @ x # rev ys"
    by (metis append.assoc append_Cons append_Nil rev.simps(2) rev_append rev_rev_ident)
  with split_first [of x "rev a" "rev b"] assms show ?thesis by auto
qed

lemma digits_not_blank: "c \<in> set (Itoa i) \<Longrightarrow> c = CHR ''-'' \<or> is_digit c"
  by (auto simp: Itoa_def dest: digits_are_digits split: if_splits)

lemma print_int_plain [simp]: "CHR '' '' \<notin> set (print_int i)" "CHR ''}'' \<notin> set (print_int i)"
  using digits_not_blank [of "CHR '' ''"] digits_not_blank [of "CHR ''}''"]
  by (auto simp: print_int_def is_digit_def)

lemma print_int_inject:
  "- (2 ^ 63) \<le> i \<Longrightarrow> i < 2 ^ 63 \<Longrightarrow> - (2 ^ 63) \<le> j \<Longrightarrow> j < 2 ^ 63 \<Longrightarrow> print_int i = print_int j \<longleftrightarrow> i = j"
  by (metis parse_print_int)

lemma hex_digit_code: "d < 16 \<Longrightarrow> of_char (hex_digit d) = (if d < 10 then 48 + d else 87 + d)"
  by (simp add: hex_digit_def)

lemma hex_digit_inject: "d < 16 \<Longrightarrow> e < 16 \<Longrightarrow> hex_digit d = hex_digit e \<longleftrightarrow> d = e"
proof
  assume d: "d < 16" "e < 16" "hex_digit d = hex_digit e"
  then have "(of_char (hex_digit d) :: nat) = of_char (hex_digit e)" by simp
  with d(1,2) show "d = e" by (simp only: hex_digit_code split: if_splits)
qed simp

lemma hex_digit_plain: "d < 16 \<Longrightarrow> hex_digit d \<noteq> CHR '' ''"
proof
  assume d: "d < 16" "hex_digit d = CHR '' ''"
  then have "(of_char (hex_digit d) :: nat) = 32" by simp
  with d(1) show False by (simp only: hex_digit_code split: if_splits)
qed

lemma byte_halves: "unat (b :: 8 word) div 16 < 16" "unat b mod 16 < 16"
  using unsigned_less [of b, where 'a = nat] by (simp_all add: less_mult_imp_div_less)

lemma print_hex_plain [simp]: "CHR '' '' \<notin> set (print_hex v)"
  using hex_digit_plain [THEN not_sym] byte_halves by (induction v) auto

lemma print_hex_inject: "print_hex v = print_hex w \<longleftrightarrow> v = w"
proof (induction v arbitrary: w)
  case Nil
  then show ?case by (cases w) simp_all
next
  case (Cons b v)
  show ?case
  proof (cases w)
    case (Cons c u)
    have "unat b = unat c" if "unat b div 16 = unat c div 16" "unat b mod 16 = unat c mod 16"
      by (metis that div_mult_mod_eq)
    then show ?thesis
      using Cons.IH [of u] Cons hex_digit_inject byte_halves by (auto simp: word_unat_eq_iff)
  qed simp
qed

lemma print_int64: "int64 i \<Longrightarrow> int64 j \<Longrightarrow> print_int i = print_int j \<longleftrightarrow> i = j"
  unfolding int64_def by (rule print_int_inject) simp_all

text \<open>The two parts of the text that follow the key and, for a write, the value.\<close>

lemma command_tail:
  assumes "int64 m" "int64 n" "CHR '' '' \<notin> set a"
  shows "i @ CHR '' '' # ''cid='' @ print_int m @ a = j @ CHR '' '' # ''cid='' @ print_int n @ a \<longleftrightarrow> i = j \<and> m = n"
proof -
  have "CHR '' '' \<notin> set (''cid='' @ print_int k @ a)" for k using assms(3) by simp
  then show ?thesis
    using split_final [of "CHR '' ''" "''cid='' @ print_int m @ a" "''cid='' @ print_int n @ a" i j] assms(1,2)
    by (simp add: print_int64)
qed

lemma command_key:
  assumes "int64 k" "int64 m"
  shows "print_int k @ CHR '' '' # s = print_int m @ CHR '' '' # t \<longleftrightarrow> k = m \<and> s = t"
  using split_first [of "CHR '' ''" "print_int k" "print_int m" s t] assms by (simp add: print_int64)

lemma command_value:
  "print_hex v @ CHR '' '' # s = print_hex w @ CHR '' '' # t \<longleftrightarrow> v = w \<and> s = t"
  using split_first [of "CHR '' ''" "print_hex v" "print_hex w" s t] by (simp add: print_hex_inject)

definition machine_command :: "Command \<Rightarrow> bool" where
  "machine_command c \<longleftrightarrow> int64 (Key c) \<and> int64 (CommandID c)"

text \<open>
  The text of a command tells apart key, value, client and command number, the nil value from the
  empty one, and nothing else: two commands have the same text exactly if they differ in the counter at
  most, whatever bytes are in the client's name.
\<close>

theorem Command_String_identifies:
  assumes "machine_command c" "machine_command d"
  shows "Command_String c = Command_String d \<longleftrightarrow> c\<lparr>Counter := 0\<rparr> = d\<lparr>Counter := 0\<rparr>"
proof -
  have fields: "c\<lparr>Counter := 0\<rparr> = d\<lparr>Counter := 0\<rparr> \<longleftrightarrow>
      Key c = Key d \<and> Value c = Value d \<and> ClientID c = ClientID d \<and> CommandID c = CommandID d"
    by (cases c; cases d) simp
  have r: "int64 (Key c)" "int64 (Key d)" "int64 (CommandID c)" "int64 (CommandID d)"
    using assms by (simp_all add: machine_command_def)
  note parts = command_key [OF r(1,2)] command_value command_tail [OF r(3,4), of "[]", simplified]
    command_tail [OF r(3,4), of "''}''", simplified]
  show ?thesis
    by (cases "Value c"; cases "Value d") (auto simp: fields Command_String_def parts)
qed

theorem Command_String_identifies_witness:
  "Command_String \<lparr> Key = 5, Value = Some [], ClientID = '' cid=1'', CommandID = 1, Counter = 7 \<rparr> \<noteq>
   Command_String \<lparr> Key = 5, Value = Some [], ClientID = [], CommandID = 1, Counter = 7 \<rparr>"
  using Command_String_identifies [of "\<lparr> Key = 5, Value = Some [], ClientID = '' cid=1'', CommandID = 1, Counter = 7 \<rparr>"
      "\<lparr> Key = 5, Value = Some [], ClientID = [], CommandID = 1, Counter = 7 \<rparr>"]
  by (simp add: machine_command_def int64_def)

text \<open>
  So a node that forwards two commands which differ in the counter only remembers the second alone, and
  the reply to the first goes to the channel of the second.
\<close>

lemma Command_String_counter: "Command_String (c\<lparr>Counter := k\<rparr>) = Command_String c"
  by (cases "Value c") (simp_all add: Command_String_def)

lemma forwards_collide:
  assumes "(rCommand r)\<lparr>Counter := 0\<rparr> = (rCommand q)\<lparr>Counter := 0\<rparr>" and "yCommand y = rCommand r"
  shows "recv_step c (PReply y) (fst (Forward j q (fst (Forward i r n)))) =
    Request_Reply (q\<lparr>rNodeID := nid n\<rparr>) y (fst (Forward j q (fst (Forward i r n))))"
proof -
  have "Command_String (rCommand r) = Command_String (rCommand q)"
    by (metis assms(1) Command_String_counter)
  then show ?thesis by (simp add: Forward_def recv_step_def Let_def assms(2))
qed

end
