(* ===== verification/JsonConfigs.thy ===== *)
theory JsonConfigs
  imports Configs "HOL-Library.Countable"
begin

text \<open>
  The configuration as JSON (\<open>Load\<close> and \<open>Save\<close> in \<open>config.go\<close> with \<open>encoding/json\<close>): a configuration is written as an
  object of its exported fields under the names of their tags, or their own, and read over the
  configuration there is, which keeps what the object does not have and merges maps. The text of a JSON value is
  left to two functions, of which all that is used is that reading gives back what was printed; a number is
  the text of its literal, and those of floats are left to two functions in the same way.
\<close>

section \<open>Values\<close>

datatype json =
    JNull
  | JBool bool
  | JNum string
  | JStr string
  | JArr "json list"
  | JObj "(string \<times> json) list"

instance json :: countable
  by countable_datatype

text \<open>JSON replaces bytes that are not UTF-8, so the strings are taken to be ASCII.\<close>

definition ascii :: "string \<Rightarrow> bool" where
  "ascii s \<longleftrightarrow> list_all (\<lambda>c. (of_char c :: nat) < 128) s"

fun ascii_json :: "json \<Rightarrow> bool" where
  "ascii_json (JNum s) = ascii s"
| "ascii_json (JStr s) = ascii s"
| "ascii_json (JArr js) = list_all ascii_json js"
| "ascii_json (JObj kvs) = list_all (\<lambda>kv. ascii (fst kv) \<and> ascii_json (snd kv)) kvs"
| "ascii_json j = True"

definition json_text :: "(json \<Rightarrow> bytes) \<Rightarrow> (bytes \<Rightarrow> json option) \<Rightarrow> bool" where
  "json_text print parse \<longleftrightarrow> (\<forall>j. ascii_json j \<longrightarrow> parse (print j) = Some j)"

section \<open>Writing\<close>

definition json_int :: "int \<Rightarrow> json" where
  "json_int i = JNum (Itoa (word_of_int i))"

text \<open>A nil map is null. \<open>ord\<close> is the order of the keys, which \<open>encoding/json\<close> sorts.\<close>

definition json_addrs :: "bool \<Rightarrow> gid list \<Rightarrow> (gid, string) gomap \<Rightarrow> json" where
  "json_addrs isnil ord m = (if isnil then JNull else JObj (map (\<lambda>i. (i, JStr (get_or [] m i))) ord))"

definition bconfig_json :: "(float64 \<Rightarrow> string) \<Rightarrow> Bconfig \<Rightarrow> json" where
  "bconfig_json fmt b =
     JObj [(''T'', json_int (bT b)),
       (''N'', json_int (bN b)),
       (''K'', json_int (bK b)),
       (''W'', JNum (fmt (bW b))),
       (''Throttle'', json_int (Throttle b)),
       (''Concurrency'', json_int (Concurrency b)),
       (''Distribution'', JStr (Distribution b)),
       (''LinearizabilityCheck'', JBool (LinearizabilityCheck b)),
       (''Conflicts'', json_int (Conflicts b)),
       (''Min'', json_int (bMin b)),
       (''Mu'', JNum (fmt (Mu b))),
       (''Sigma'', JNum (fmt (Sigma b))),
       (''Move'', JBool (Move b)),
       (''Speed'', json_int (Speed b)),
       (''ZipfianS'', JNum (fmt (ZipfianS b))),
       (''ZipfianV'', JNum (fmt (ZipfianV b))),
       (''Lambda'', JNum (fmt (Lambda b))),
       (''Size'', json_int (bSize b))]"

text \<open>\<open>nils\<close> says which of the two maps is nil, \<open>ord\<close> is the order of their keys.\<close>

definition config_json ::
    "(float64 \<Rightarrow> string) \<Rightarrow> bool \<times> bool \<Rightarrow> gid list \<times> gid list \<Rightarrow> Config \<Rightarrow> json" where
  "config_json fmt nils ord c =
     JObj [(''address'', json_addrs (fst nils) (fst ord) (Addrs c)),
       (''http_address'', json_addrs (snd nils) (snd ord) (HTTPAddrs c)),
       (''policy'', JStr (cPolicy c)),
       (''threshold'', JNum (fmt (cThreshold c))),
       (''thrifty'', JBool (Thrifty c)),
       (''buffer_size'', json_int (BufferSize c)),
       (''chan_buffer_size'', json_int (ChanBufferSize c)),
       (''multiversion'', JBool (MultiVersion c)),
       (''benchmark'', bconfig_json fmt (cBenchmark c))]"

section \<open>Reading\<close>

text \<open>
  A value is read over another: null changes nothing but empties a map; a value of another type, and a
  number that does not fit, is an error.
\<close>

fun read_bool :: "bool \<Rightarrow> json \<Rightarrow> bool option" where
  "read_bool old JNull = Some old"
| "read_bool old (JBool b) = Some b"
| "read_bool old j = None"

fun read_string :: "string \<Rightarrow> json \<Rightarrow> string option" where
  "read_string old JNull = Some old"
| "read_string old (JStr s) = Some s"
| "read_string old j = None"

fun read_int :: "int \<Rightarrow> json \<Rightarrow> int option" where
  "read_int old JNull = Some old"
| "read_int old (JNum s) = (case Atoi s of (w, None) \<Rightarrow> Some (sint w) | (w, Some e) \<Rightarrow> None)"
| "read_int old j = None"

fun read_float :: "(string \<Rightarrow> float64 option) \<Rightarrow> float64 \<Rightarrow> json \<Rightarrow> float64 option" where
  "read_float rd old JNull = Some old"
| "read_float rd old (JNum s) = rd s"
| "read_float rd old j = None"

fun read_fields :: "(string \<Rightarrow> (json \<Rightarrow> 'a \<Rightarrow> 'a option) option) \<Rightarrow> (string \<times> json) list \<Rightarrow> 'a \<Rightarrow> 'a option" where
  "read_fields table [] x = Some x"
| "read_fields table ((k, j) # kvs) x =
     (case table k of
        None \<Rightarrow> read_fields table kvs x
      | Some f \<Rightarrow> (case f j x of None \<Rightarrow> None | Some y \<Rightarrow> read_fields table kvs y))"

fun read_addrs :: "(gid, string) gomap \<Rightarrow> json \<Rightarrow> (gid, string) gomap option" where
  "read_addrs old JNull = Some fmempty"
| "read_addrs old (JObj kvs) =
     read_fields (\<lambda>k. Some (\<lambda>j m. map_option (\<lambda>v. fmupd k v m) (read_string [] j))) kvs old"
| "read_addrs old j = None"

text \<open>The names of fields are compared without regard to case.\<close>

definition fold_case :: "string \<Rightarrow> string" where
  "fold_case s = map (\<lambda>c. if 65 \<le> (of_char c :: nat) \<and> (of_char c :: nat) \<le> 90 then char_of (of_char c + (32 :: nat)) else c) s"

definition bconfig_fields :: "(string \<Rightarrow> float64 option) \<Rightarrow> (string \<times> (json \<Rightarrow> Bconfig \<Rightarrow> Bconfig option)) list" where
  "bconfig_fields rd =
     [(''t'', \<lambda>j b. map_option (\<lambda>x. b\<lparr>bT := x\<rparr>) (read_int (bT b) j)),
      (''n'', \<lambda>j b. map_option (\<lambda>x. b\<lparr>bN := x\<rparr>) (read_int (bN b) j)),
      (''k'', \<lambda>j b. map_option (\<lambda>x. b\<lparr>bK := x\<rparr>) (read_int (bK b) j)),
      (''w'', \<lambda>j b. map_option (\<lambda>x. b\<lparr>bW := x\<rparr>) (read_float rd (bW b) j)),
      (''throttle'', \<lambda>j b. map_option (\<lambda>x. b\<lparr>Throttle := x\<rparr>) (read_int (Throttle b) j)),
      (''concurrency'', \<lambda>j b. map_option (\<lambda>x. b\<lparr>Concurrency := x\<rparr>) (read_int (Concurrency b) j)),
      (''distribution'', \<lambda>j b. map_option (\<lambda>x. b\<lparr>Distribution := x\<rparr>) (read_string (Distribution b) j)),
      (''linearizabilitycheck'', \<lambda>j b. map_option (\<lambda>x. b\<lparr>LinearizabilityCheck := x\<rparr>) (read_bool (LinearizabilityCheck b) j)),
      (''conflicts'', \<lambda>j b. map_option (\<lambda>x. b\<lparr>Conflicts := x\<rparr>) (read_int (Conflicts b) j)),
      (''min'', \<lambda>j b. map_option (\<lambda>x. b\<lparr>bMin := x\<rparr>) (read_int (bMin b) j)),
      (''mu'', \<lambda>j b. map_option (\<lambda>x. b\<lparr>Mu := x\<rparr>) (read_float rd (Mu b) j)),
      (''sigma'', \<lambda>j b. map_option (\<lambda>x. b\<lparr>Sigma := x\<rparr>) (read_float rd (Sigma b) j)),
      (''move'', \<lambda>j b. map_option (\<lambda>x. b\<lparr>Move := x\<rparr>) (read_bool (Move b) j)),
      (''speed'', \<lambda>j b. map_option (\<lambda>x. b\<lparr>Speed := x\<rparr>) (read_int (Speed b) j)),
      (''zipfians'', \<lambda>j b. map_option (\<lambda>x. b\<lparr>ZipfianS := x\<rparr>) (read_float rd (ZipfianS b) j)),
      (''zipfianv'', \<lambda>j b. map_option (\<lambda>x. b\<lparr>ZipfianV := x\<rparr>) (read_float rd (ZipfianV b) j)),
      (''lambda'', \<lambda>j b. map_option (\<lambda>x. b\<lparr>Lambda := x\<rparr>) (read_float rd (Lambda b) j)),
      (''size'', \<lambda>j b. map_option (\<lambda>x. b\<lparr>bSize := x\<rparr>) (read_int (bSize b) j))]"

fun read_bconfig :: "(string \<Rightarrow> float64 option) \<Rightarrow> Bconfig \<Rightarrow> json \<Rightarrow> Bconfig option" where
  "read_bconfig rd old JNull = Some old"
| "read_bconfig rd old (JObj kvs) = read_fields (\<lambda>k. map_of (bconfig_fields rd) (fold_case k)) kvs old"
| "read_bconfig rd old j = None"

definition config_fields :: "(string \<Rightarrow> float64 option) \<Rightarrow> (string \<times> (json \<Rightarrow> Config \<Rightarrow> Config option)) list" where
  "config_fields rd =
     [(''address'', \<lambda>j c. map_option (\<lambda>x. c\<lparr>Addrs := x\<rparr>) (read_addrs (Addrs c) j)),
      (''http_address'', \<lambda>j c. map_option (\<lambda>x. c\<lparr>HTTPAddrs := x\<rparr>) (read_addrs (HTTPAddrs c) j)),
      (''policy'', \<lambda>j c. map_option (\<lambda>x. c\<lparr>cPolicy := x\<rparr>) (read_string (cPolicy c) j)),
      (''threshold'', \<lambda>j c. map_option (\<lambda>x. c\<lparr>cThreshold := x\<rparr>) (read_float rd (cThreshold c) j)),
      (''thrifty'', \<lambda>j c. map_option (\<lambda>x. c\<lparr>Thrifty := x\<rparr>) (read_bool (Thrifty c) j)),
      (''buffer_size'', \<lambda>j c. map_option (\<lambda>x. c\<lparr>BufferSize := x\<rparr>) (read_int (BufferSize c) j)),
      (''chan_buffer_size'', \<lambda>j c. map_option (\<lambda>x. c\<lparr>ChanBufferSize := x\<rparr>) (read_int (ChanBufferSize c) j)),
      (''multiversion'', \<lambda>j c. map_option (\<lambda>x. c\<lparr>MultiVersion := x\<rparr>) (read_bool (MultiVersion c) j)),
      (''benchmark'', \<lambda>j c. map_option (\<lambda>x. c\<lparr>cBenchmark := x\<rparr>) (read_bconfig rd (cBenchmark c) j))]"

fun read_config :: "(string \<Rightarrow> float64 option) \<Rightarrow> Config \<Rightarrow> json \<Rightarrow> Config option" where
  "read_config rd old JNull = Some old"
| "read_config rd old (JObj kvs) = read_fields (\<lambda>k. map_of (config_fields rd) (fold_case k)) kvs old"
| "read_config rd old j = None"

definition json_encode ::
    "(json \<Rightarrow> bytes) \<Rightarrow> (float64 \<Rightarrow> string) \<Rightarrow> bool \<times> bool \<Rightarrow> gid list \<times> gid list \<Rightarrow> Config \<Rightarrow> string + bytes" where
  "json_encode print fmt nils ord c = Inr (print (config_json fmt nils ord c))"

definition json_decode ::
    "(bytes \<Rightarrow> json option) \<Rightarrow> (string \<Rightarrow> float64 option) \<Rightarrow> bytes \<Rightarrow> Config \<Rightarrow> Config option" where
  "json_decode parse rd b d = (case parse b of None \<Rightarrow> None | Some j \<Rightarrow> read_config rd d j)"

section \<open>What is read is what was written\<close>

text \<open>
  A configuration that JSON can carry: numbers of 64 bits, floats whose text is read back (as \<open>strconv\<close>
  promises for all of them), ASCII strings, and nil maps are empty.
\<close>

definition int64s :: "int list \<Rightarrow> bool" where
  "int64s xs \<longleftrightarrow> (\<forall>x \<in> set xs. - (2 ^ 63) \<le> x \<and> x < 2 ^ 63)"

definition floats_ok :: "(float64 \<Rightarrow> string) \<Rightarrow> (string \<Rightarrow> float64 option) \<Rightarrow> float64 list \<Rightarrow> bool" where
  "floats_ok fmt rd xs \<longleftrightarrow> (\<forall>x \<in> set xs. rd (fmt x) = Some x \<and> ascii (fmt x))"

definition bconfig_ok :: "(float64 \<Rightarrow> string) \<Rightarrow> (string \<Rightarrow> float64 option) \<Rightarrow> Bconfig \<Rightarrow> bool" where
  "bconfig_ok fmt rd b \<longleftrightarrow>
     int64s [bT b, bN b, bK b, Throttle b, Concurrency b, Conflicts b, bMin b, Speed b, bSize b] \<and>
     floats_ok fmt rd [bW b, Mu b, Sigma b, ZipfianS b, ZipfianV b, Lambda b] \<and> ascii (Distribution b)"

definition addrs_ok :: "bool \<Rightarrow> (gid, string) gomap \<Rightarrow> bool" where
  "addrs_ok isnil m \<longleftrightarrow> (isnil \<longrightarrow> m = fmempty) \<and> (\<forall>i a. fmlookup m i = Some a \<longrightarrow> ascii i \<and> ascii a)"

definition config_ok ::
    "(float64 \<Rightarrow> string) \<Rightarrow> (string \<Rightarrow> float64 option) \<Rightarrow> bool \<times> bool \<Rightarrow> Config \<Rightarrow> bool" where
  "config_ok fmt rd nils c \<longleftrightarrow>
     addrs_ok (fst nils) (Addrs c) \<and> addrs_ok (snd nils) (HTTPAddrs c) \<and> int64s [BufferSize c, ChanBufferSize c] \<and>
     floats_ok fmt rd [cThreshold c] \<and> ascii (cPolicy c) \<and> bconfig_ok fmt rd (cBenchmark c)"

definition merged :: "bool \<Rightarrow> (gid, string) gomap \<Rightarrow> (gid, string) gomap \<Rightarrow> (gid, string) gomap" where
  "merged isnil old new = (if isnil then fmempty else old ++\<^sub>f new)"

lemma fold_case_names [simp]:
  "fold_case ''Concurrency'' = ''concurrency''"
  "fold_case ''Conflicts'' = ''conflicts''"
  "fold_case ''Distribution'' = ''distribution''"
  "fold_case ''K'' = ''k''"
  "fold_case ''Lambda'' = ''lambda''"
  "fold_case ''LinearizabilityCheck'' = ''linearizabilitycheck''"
  "fold_case ''Min'' = ''min''"
  "fold_case ''Move'' = ''move''"
  "fold_case ''Mu'' = ''mu''"
  "fold_case ''N'' = ''n''"
  "fold_case ''Sigma'' = ''sigma''"
  "fold_case ''Size'' = ''size''"
  "fold_case ''Speed'' = ''speed''"
  "fold_case ''T'' = ''t''"
  "fold_case ''Throttle'' = ''throttle''"
  "fold_case ''W'' = ''w''"
  "fold_case ''ZipfianS'' = ''zipfians''"
  "fold_case ''ZipfianV'' = ''zipfianv''"
  "fold_case ''address'' = ''address''"
  "fold_case ''benchmark'' = ''benchmark''"
  "fold_case ''buffer_size'' = ''buffer_size''"
  "fold_case ''chan_buffer_size'' = ''chan_buffer_size''"
  "fold_case ''http_address'' = ''http_address''"
  "fold_case ''multiversion'' = ''multiversion''"
  "fold_case ''policy'' = ''policy''"
  "fold_case ''threshold'' = ''threshold''"
  "fold_case ''thrifty'' = ''thrifty''"
  by code_simp+

lemma read_json_int: "int64s [i] \<Longrightarrow> read_int old (json_int i) = Some i"
  by (simp add: json_int_def Atoi_Itoa int64s_def sint_sbintrunc' signed_take_bit_int_eq_self)

lemma int64s_Cons: "int64s (x # xs) \<longleftrightarrow> int64s [x] \<and> int64s xs"
  by (auto simp: int64s_def)

lemma read_written_bconfig:
  assumes "bconfig_ok fmt rd b"
  shows "read_bconfig rd d (bconfig_json fmt b) = Some b"
proof -
  have i: "int64s [bT b]" "int64s [bN b]" "int64s [bK b]" "int64s [Throttle b]" "int64s [Concurrency b]" "int64s [Conflicts b]" "int64s [bMin b]" "int64s [Speed b]" "int64s [bSize b]"
    using assms unfolding bconfig_ok_def by (simp_all add: int64s_def)
  have r: "rd (fmt (bW b)) = Some (bW b)" "rd (fmt (Mu b)) = Some (Mu b)" "rd (fmt (Sigma b)) = Some (Sigma b)" "rd (fmt (ZipfianS b)) = Some (ZipfianS b)" "rd (fmt (ZipfianV b)) = Some (ZipfianV b)" "rd (fmt (Lambda b)) = Some (Lambda b)"
    using assms unfolding bconfig_ok_def by (simp_all add: floats_ok_def)
  show ?thesis
    by (simp add: bconfig_json_def bconfig_fields_def i r read_json_int)
qed

lemma read_written_addrs:
  assumes "addrs_ok isnil m" "\<not> isnil \<longrightarrow> range_order ord m"
  shows "read_addrs d (json_addrs isnil ord m) = Some (merged isnil d m)"
proof (cases isnil)
  case False
  let ?f = "\<lambda>k. Some (\<lambda>j m. map_option (\<lambda>v. fmupd k v m) (read_string [] j))"
  have fold: "\<exists>e. read_fields ?f (map (\<lambda>i. (i, JStr (get_or [] m i))) ks) x = Some e \<and>
      (\<forall>k. fmlookup e k = (if k \<in> set ks then Some (get_or [] m k) else fmlookup x k))" for ks x
  proof (induction ks arbitrary: x)
    case (Cons k ks)
    from Cons.IH [of "fmupd k (get_or [] m k) x"] show ?case by auto
  qed simp
  obtain e where e: "read_fields ?f (map (\<lambda>i. (i, JStr (get_or [] m i))) ord) d = Some e"
    "\<forall>k. fmlookup e k = (if k \<in> set ord then Some (get_or [] m k) else fmlookup d k)" using fold by blast
  have "set ord = fmdom' m" using assms(2) False by (simp add: range_order_def)
  then have "e = d ++\<^sub>f m"
    using e(2) by (intro fmap_ext) (auto simp: fmlookup_dom'_iff fmlookup_dom_iff get_or_def split: option.split)
  then show ?thesis using e(1) False by (simp add: json_addrs_def merged_def)
qed (simp add: json_addrs_def merged_def)

lemma read_written_config:
  assumes "config_ok fmt rd nils c"
    and "\<not> fst nils \<longrightarrow> range_order (fst ord) (Addrs c)" "\<not> snd nils \<longrightarrow> range_order (snd ord) (HTTPAddrs c)"
  shows "read_config rd d (config_json fmt nils ord c) =
    Some (c\<lparr>Addrs := merged (fst nils) (Addrs d) (Addrs c), HTTPAddrs := merged (snd nils) (HTTPAddrs d) (HTTPAddrs c),
            cn := cn d, cz := cz d, npz := npz d\<rparr>)"
proof -
  note ok = assms(1) [unfolded config_ok_def]
  have i: "int64s [BufferSize c]" "int64s [ChanBufferSize c]" and r: "rd (fmt (cThreshold c)) = Some (cThreshold c)"
    using ok by (simp_all add: int64s_def floats_ok_def)
  have a: "read_addrs m (json_addrs (fst nils) (fst ord) (Addrs c)) = Some (merged (fst nils) m (Addrs c))"
    "read_addrs m (json_addrs (snd nils) (snd ord) (HTTPAddrs c)) = Some (merged (snd nils) m (HTTPAddrs c))" for m
    using ok read_written_addrs assms(2,3) by blast+
  have b: "read_bconfig rd x (bconfig_json fmt (cBenchmark c)) = Some (cBenchmark c)" for x
    using ok by (intro read_written_bconfig) blast
  show ?thesis by (simp add: config_json_def config_fields_def i r a b read_json_int)
qed

lemma ascii_simps [simp]:
  "ascii []" "ascii (c # cs) \<longleftrightarrow> (of_char c :: nat) < 128 \<and> ascii cs" "ascii (xs @ ys) \<longleftrightarrow> ascii xs \<and> ascii ys"
  by (simp_all add: ascii_def)

lemma ascii_digits: "ascii (digits n)"
proof (induction n rule: digits.induct)
  case (1 n)
  have "n mod 10 < 80" using mod_less_divisor [of 10 n] by linarith
  with 1 show ?case by (subst digits.simps) (simp add: digit_char_def)
qed

lemma ascii_json_int [simp]: "ascii_json (json_int i)"
  by (simp add: json_int_def Itoa_def ascii_digits)

lemma ascii_addrs: "addrs_ok isnil m \<Longrightarrow> \<not> isnil \<longrightarrow> range_order ord m \<Longrightarrow> ascii_json (json_addrs isnil ord m)"
  by (auto simp: json_addrs_def addrs_ok_def range_order_def list_all_iff fmlookup_dom'_iff get_or_def split: option.split)

lemma ascii_bconfig: "bconfig_ok fmt rd b \<Longrightarrow> ascii_json (bconfig_json fmt b)"
  by (simp add: bconfig_json_def bconfig_ok_def floats_ok_def)

lemma config_json_ascii:
  assumes "config_ok fmt rd nils c"
    and "\<not> fst nils \<longrightarrow> range_order (fst ord) (Addrs c)" "\<not> snd nils \<longrightarrow> range_order (snd ord) (HTTPAddrs c)"
  shows "ascii_json (config_json fmt nils ord c)"
  using assms by (simp add: config_json_def config_ok_def floats_ok_def ascii_addrs ascii_bconfig [of fmt rd])

section \<open>Saving and loading\<close>

text \<open>\<open>Load\<close> changes nothing but the counts.\<close>

lemma Load_fields:
  "Config_Load ord c = c\<lparr>cn := cn (Config_Load ord c), cz := cz (Config_Load ord c), npz := npz (Config_Load ord c)\<rparr>"
proof -
  have "\<exists>n z m. fold count_node ord c = c\<lparr>cn := n, cz := z, npz := m\<rparr>" for c
  proof (induction ord arbitrary: c)
    case Nil
    have "fold count_node [] c = c\<lparr>cn := cn c, cz := cz c, npz := npz c\<rparr>" by simp
    then show ?case by blast
  next
    case (Cons i ord)
    from Cons.IH [of "count_node i c"] obtain n z m where
      "fold count_node ord (count_node i c) = (count_node i c)\<lparr>cn := n, cz := z, npz := m\<rparr>" by blast
    then have "fold count_node (i # ord) c = (count_node i c)\<lparr>cn := n, cz := z, npz := m\<rparr>" by simp
    also have "\<dots> = c\<lparr>cn := n, cz := z, npz := m\<rparr>" by (simp add: count_node_def)
    finally show ?case by blast
  qed
  from this [of "c\<lparr>npz := fmempty\<rparr>"] obtain n z m where
    "fold count_node ord (c\<lparr>npz := fmempty\<rparr>) = c\<lparr>cn := n, cz := z, npz := m\<rparr>" by auto
  then show ?thesis by (simp add: Config_Load_def Let_def)
qed

lemma Load_counts_zones:
  assumes "range_order ord (Addrs c)"
  shows "cz (Config_Load ord c) = int (card (Zone ` fmdom' (Addrs c))) \<and>
    (\<forall>z. get_or 0 (npz (Config_Load ord c)) z = int (card {i \<in> fmdom' (Addrs c). Zone i = z}))"
proof -
  have ord: "distinct ord" "set ord = fmdom' (Addrs c)"
    using assms by (simp_all add: range_order_def)
  then show ?thesis
    by (simp add: Config_Load_def Let_def fold_count_node_npz fold_count_node_dom len_map_def distinct_filter_card
        flip: ord(2))
qed

text \<open>
  C38: A saved configuration loads again, over any configuration there is: every setting of it and of its
  benchmark is the one saved, and the addresses are those that were there before, under those saved, or none
  if the saved map was nil. The counts of nodes are not in the file: the number of zones and the nodes
  in each are counted anew, but the addresses are added to the number of nodes there was, which doubles when
  a configuration is loaded twice. This is for ASCII strings and numbers of 64 bits, with a printer
  and parser of JSON values that are each other's inverses.
\<close>

theorem Config_roundtrip:
  assumes "json_text print parse" and "config_ok fmt rd nils c"
    and "\<not> fst nils \<longrightarrow> range_order (fst ord) (Addrs c)" "\<not> snd nils \<longrightarrow> range_order (snd ord) (HTTPAddrs c)"
    and "Config_Save None (json_encode print fmt nils ord) c = (None, b)"
    and "\<forall>e. json_decode parse rd b d = Some e \<longrightarrow> range_order (meet e) (Addrs e)"
  shows "\<exists>e. Config_Load_file (Some b) (json_decode parse rd) meet d = Some e \<and>
    e = c\<lparr>Addrs := merged (fst nils) (Addrs d) (Addrs c), HTTPAddrs := merged (snd nils) (HTTPAddrs d) (HTTPAddrs c),
          cn := cn d + int (len_map (Addrs e)), cz := int (card (Zone ` fmdom' (Addrs e))), npz := npz e\<rparr> \<and>
    (\<forall>z. get_or 0 (npz e) z = int (card {i \<in> fmdom' (Addrs e). Zone i = z}))"
proof -
  let ?a = "merged (fst nils) (Addrs d) (Addrs c)" and ?h = "merged (snd nils) (HTTPAddrs d) (HTTPAddrs c)"
  define e0 where "e0 = c\<lparr>Addrs := ?a, HTTPAddrs := ?h, cn := cn d, cz := cz d, npz := npz d\<rparr>"
  have b: "b = print (config_json fmt nils ord c)" using assms(5) by (simp add: Config_Save_def json_encode_def)
  have "parse b = Some (config_json fmt nils ord c)"
    using assms(1) config_json_ascii [OF assms(2-4)] by (simp add: json_text_def b)
  then have e0: "json_decode parse rd b d = Some e0"
    using read_written_config [OF assms(2-4), of d] by (simp add: json_decode_def e0_def)
  then have load: "Config_Load_file (Some b) (json_decode parse rd) meet d = Some (Config_Load (meet e0) e0)"
    by (simp add: Config_Load_file_def)
  let ?e = "Config_Load (meet e0) e0"
  have meet: "range_order (meet e0) (Addrs e0)" using assms(6) e0 by blast
  have addrs: "Addrs ?e = ?a" by (subst Load_fields) (simp add: e0_def)
  have "cn ?e = cn d + int (len_map ?a)"
    using range_order_length [OF meet] by (simp add: Config_Load_def Let_def fold_count_node_n) (simp add: e0_def)
  moreover have "cz ?e = int (card (Zone ` fmdom' ?a)) \<and>
      (\<forall>z. get_or 0 (npz ?e) z = int (card {i \<in> fmdom' ?a. Zone i = z}))"
    using Load_counts_zones [OF meet] by (simp add: e0_def)
  ultimately have "?e = c\<lparr>Addrs := ?a, HTTPAddrs := ?h, cn := cn d + int (len_map (Addrs ?e)),
        cz := int (card (Zone ` fmdom' (Addrs ?e))), npz := npz ?e\<rparr>"
    by (subst Load_fields) (simp add: addrs, simp add: e0_def)
  with load addrs \<open>cz ?e = _ \<and> _\<close> show ?thesis by (intro exI [of _ ?e]) simp
qed

text \<open>
  Loading over a configuration that was loaded before. Any encoding of JSON values will do for their text, here
  the number of a value, and any of the floats of the default configuration.
\<close>

definition number_text :: "json \<Rightarrow> bytes" where
  "number_text j = replicate (to_nat j) 0"

definition text_number :: "bytes \<Rightarrow> json option" where
  "text_number b = Some (from_nat (length b))"

definition some_floats :: "(string \<times> float64) list" where
  "some_floats = [(''3'', 3), (''1'', 1), (''0'', 0), (''60'', 60), (''2'', 2)]"

definition float_text :: "float64 \<Rightarrow> string" where
  "float_text x = (case find (\<lambda>p. snd p = x) some_floats of Some p \<Rightarrow> fst p | None \<Rightarrow> ''0.01'')"

definition text_float :: "string \<Rightarrow> float64 option" where
  "text_float s = Some (case map_of some_floats s of Some x \<Rightarrow> x | None \<Rightarrow> fround (1 / 100))"

definition loaded_before :: Config where
  "loaded_before = MakeDefaultConfig\<lparr>Addrs := fmupd ''1.1'' ''x'' (fmupd ''1.2'' ''y'' fmempty), cn := 2, cz := 1\<rparr>"

lemma text_float_text: "x \<in> {0, 1, 2, 3, 60, fround (1 / 100)} \<Longrightarrow> text_float (float_text x) = Some x \<and> ascii (float_text x)"
  by (auto simp: text_float_def float_text_def some_floats_def split: if_splits)

lemma two_zones_ok: "config_ok float_text text_float (False, True) two_zones"
proof -
  have "floats_ok float_text text_float [bW DefaultBConfig, Mu DefaultBConfig, Sigma DefaultBConfig, ZipfianS DefaultBConfig,
      ZipfianV DefaultBConfig, Lambda DefaultBConfig]" "floats_ok float_text text_float [3]"
    using text_float_text by (simp_all add: floats_ok_def DefaultBConfig_def)
  then show ?thesis
    by (simp add: config_ok_def bconfig_ok_def two_zones_def MakeDefaultConfig_def addrs_ok_def int64s_def)
      (auto simp: DefaultBConfig_def)
qed

theorem Config_roundtrip_witness:
  "\<exists>b e. Config_Save None (json_encode number_text float_text (False, True) ([''1.1'', ''2.1''], [])) two_zones = (None, b) \<and>
     Config_Load_file (Some b) (json_decode text_number text_float) (\<lambda>e. [''1.1'', ''1.2'', ''2.1'']) loaded_before = Some e \<and>
     cn e = 5 \<and> cz e = 2 \<and> fmlookup (Addrs e) ''1.1'' = Some ''a'' \<and> fmlookup (Addrs e) ''1.2'' = Some ''y''"
proof -
  have law: "json_text number_text text_number" by (simp add: json_text_def number_text_def text_number_def)
  have ords: "\<not> fst (False, True) \<longrightarrow> range_order (fst ([''1.1'', ''2.1''], [])) (Addrs two_zones)"
    "\<not> snd (False, True) \<longrightarrow> range_order (snd ([''1.1'', ''2.1''], [])) (HTTPAddrs two_zones)"
    by (auto simp: range_order_def two_zones_def)
  obtain b where b: "Config_Save None (json_encode number_text float_text (False, True) ([''1.1'', ''2.1''], [])) two_zones = (None, b)"
    by (simp add: Config_Save_def json_encode_def)
  then have "b = number_text (config_json float_text (False, True) ([''1.1'', ''2.1''], []) two_zones)"
    by (simp add: Config_Save_def json_encode_def)
  then have "json_decode text_number text_float b loaded_before = Some e \<longrightarrow>
      Addrs e = merged False (Addrs loaded_before) (Addrs two_zones)" for e
    using read_written_config [OF two_zones_ok ords, of loaded_before] by (auto simp: json_decode_def text_number_def number_text_def)
  then have meet: "\<forall>e. json_decode text_number text_float b loaded_before = Some e \<longrightarrow> range_order [''1.1'', ''1.2'', ''2.1''] (Addrs e)"
    by (auto simp: merged_def loaded_before_def two_zones_def range_order_def)
  obtain e where e: "Config_Load_file (Some b) (json_decode text_number text_float) (\<lambda>e. [''1.1'', ''1.2'', ''2.1'']) loaded_before = Some e"
    "e = two_zones\<lparr>Addrs := merged False (Addrs loaded_before) (Addrs two_zones),
        HTTPAddrs := merged True (HTTPAddrs loaded_before) (HTTPAddrs two_zones),
        cn := cn loaded_before + int (len_map (Addrs e)), cz := int (card (Zone ` fmdom' (Addrs e))), npz := npz e\<rparr>"
    using Config_roundtrip [OF law two_zones_ok ords b meet] by auto
  define A where "A = merged False (Addrs loaded_before) (Addrs two_zones)"
  have A: "A = fmupd ''1.1'' ''a'' (fmupd ''1.2'' ''y'' (fmupd ''2.1'' ''b'' fmempty))"
    unfolding A_def by (intro fmap_ext) (auto simp: merged_def loaded_before_def two_zones_def)
  have "Addrs e = A" "cn e = 2 + int (len_map (Addrs e))" "cz e = int (card (Zone ` fmdom' (Addrs e)))"
    using arg_cong [OF e(2), of Addrs] arg_cong [OF e(2), of cn] arg_cong [OF e(2), of cz]
    by (simp_all add: A_def loaded_before_def)
  moreover have "len_map A = 3" by (simp add: A len_map_def)
  moreover have "Zone ''1.1'' = 1" "Zone ''1.2'' = 1" "Zone ''2.1'' = 2"
    by (simp_all add: Zone_def Contains_def parse_simps)
  then have "Zone ` fmdom' A = {1, 2}" by (auto simp: A)
  ultimately show ?thesis using b e(1) by (intro exI [of _ b] exI [of _ e]) (simp add: A)
qed

end
