(* ===== verification/Services.thy ===== *)
theory Services
  imports Consensus_Order
begin

text \<open>
  What a replica promises its clients. A \<open>Service\<close> has the requests that wait in a slot, the next
  slot to be applied and the database. It may accept a request, forget waiting requests, apply any
  command in the next slot, and answer the request that waits there when it applies its command.
  The handlers of \<open>consensus.go\<close> implement this machine, whatever messages they are fed; what a
  client can rely on, and what it cannot, is proved of the machine.
\<close>

section \<open>The abstract service\<close>

record Service =
  waits :: "(int \<times> Request) set"
  next_slot :: int
  store :: database

definition accept :: "Request \<Rightarrow> Service \<Rightarrow> Service" where
  "accept r a =
     a\<lparr>waits := insert (Counter (rCommand r), r) {w \<in> waits a. fst w \<noteq> Counter (rCommand r)}\<rparr>"

definition apply_next :: "Command \<Rightarrow> Service \<Rightarrow> Service" where
  "apply_next c a =
     \<lparr> waits = {w \<in> waits a. fst w \<noteq> next_slot a}, next_slot = next_slot a + 1,
       store = snd (Execute (store a) c) \<rparr>"

definition answer_to :: "Request \<Rightarrow> database \<Rightarrow> Reply" where
  "answer_to r d =
     \<lparr> yCommand = rCommand r, yValue = fst (Execute d (rCommand r)), yProperties = fmempty,
       yTimestamp = 0, yErr = None \<rparr>"

text \<open>\<open>serves a rs evs b\<close>: accepting the requests \<open>rs\<close>, the service goes from \<open>a\<close> to \<open>b\<close> with these events.\<close>

inductive serves :: "Service \<Rightarrow> Request list \<Rightarrow> Event list \<Rightarrow> Service \<Rightarrow> bool" where
  forgets: "W \<subseteq> waits a \<Longrightarrow> serves a [] [] (a\<lparr>waits := W\<rparr>)"
| accepts: "serves a [r] [] (accept r a)"
| applies: "serves a [] [Applied (next_slot a) c] (apply_next c a)"
| answers: "(next_slot a, r) \<in> waits a \<Longrightarrow>
     serves a [] [Applied (next_slot a) (rCommand r), SendReply r (answer_to r (store a))]
       (apply_next (rCommand r) a)"
| seq: "serves a rs evs b \<Longrightarrow> serves b rs' evs' c \<Longrightarrow> serves a (rs @ rs') (evs @ evs') c"

lemma serves_refl: "serves a [] [] a"
  using forgets [of "waits a" a] by simp

section \<open>The replica as a service\<close>

definition waiting_in :: "(int, entry) gomap \<Rightarrow> (int \<times> Request) set" where
  "waiting_in L = {(s, r). \<exists>e. fmlookup L s = Some e \<and> request e = Some r}"

definition service :: "Consensus \<Rightarrow> Service" where
  "service p = \<lparr> waits = waiting_in (log p), next_slot = execute p, store = db p \<rparr>"

fun visible :: "Event list \<Rightarrow> Event list" where
  "visible [] = []"
| "visible (Broadcast m # evs) = visible evs"
| "visible (Applied s c # evs) = Applied s c # visible evs"
| "visible (SendReply r y # evs) = SendReply r y # visible evs"

fun requests_of :: "Input list \<Rightarrow> Request list" where
  "requests_of [] = []"
| "requests_of (InRequest r # is) = r # requests_of is"
| "requests_of (InPropose m ord1 ord2 # is) = requests_of is"
| "requests_of (InVote v ord # is) = requests_of is"

lemma visible_append [simp]: "visible (xs @ ys) = visible xs @ visible ys"
  by (induction xs rule: visible.induct) simp_all

lemma visible_reply_events [simp]: "visible (reply_events e v) = reply_events e v"
  by (simp add: reply_events_def split: option.splits)

text \<open>A waiting entry is in the slot its request asks for, and holds the request's command.\<close>

definition own_slot :: "int \<Rightarrow> entry \<Rightarrow> bool" where
  "own_slot s e \<longleftrightarrow> (\<forall>r. request e = Some r \<longrightarrow> ecommand e = rCommand r \<and> Counter (rCommand r) = s)"

definition own_slots :: "Consensus \<Rightarrow> bool" where
  "own_slots p \<longleftrightarrow> (\<forall>s e. fmlookup (log p) s = Some e \<longrightarrow> own_slot s e)"

lemma own_slotsD: "own_slots p \<Longrightarrow> fmlookup (log p) s = Some e \<Longrightarrow> own_slot s e"
  by (simp add: own_slots_def)

definition serving :: "Consensus \<Rightarrow> Request list \<Rightarrow> Event list \<Rightarrow> Consensus \<Rightarrow> bool" where
  "serving p rs evs p' \<longleftrightarrow>
     (own_slots p \<longrightarrow> own_slots p' \<and> serves (service p) rs (visible evs) (service p'))"

lemma serving_seq:
  "serving p rs evs p1 \<Longrightarrow> serving p1 rs' evs' p2 \<Longrightarrow> serving p (rs @ rs') (evs @ evs') p2"
  by (auto simp: serving_def intro: serves.seq)

lemmas serving_then = serving_seq [where rs = "[]" and rs' = "[]", simplified]

text \<open>Handler code that changes no request and no command of the log, and applies nothing.\<close>

definition keeps_requests :: "(int, entry) gomap \<Rightarrow> (int, entry) gomap \<Rightarrow> bool" where
  "keeps_requests L L' \<longleftrightarrow>
     (\<forall>s e'. fmlookup L' s = Some e' \<longrightarrow> request e' = None \<or>
        (\<exists>e. fmlookup L s = Some e \<and> request e' = request e \<and> ecommand e' = ecommand e))"

lemma keeps_requests_refl [simp]: "keeps_requests L L"
  by (simp add: keeps_requests_def)

lemma keeps_requests_upd:
  assumes "request e' = None \<or> (\<exists>e. fmlookup L s = Some e \<and> request e' = request e \<and> ecommand e' = ecommand e)"
  shows "keeps_requests L (fmupd s e' L)"
  using assms by (auto simp: keeps_requests_def)

lemma serving_quiet:
  assumes "keeps_requests (log p) (log p')" "execute p' = execute p" "db p' = db p" "visible evs = []"
  shows "serving p [] evs p'"
  unfolding serving_def
proof
  assume own: "own_slots p"
  have "own_slots p'" unfolding own_slots_def own_slot_def
  proof (intro allI impI)
    fix s e' r
    assume e': "fmlookup (log p') s = Some e'" "request e' = Some r"
    then obtain e where "fmlookup (log p) s = Some e" "request e = Some r" "ecommand e' = ecommand e"
      using assms(1) by (force simp: keeps_requests_def)
    with own_slotsD [OF own] show "ecommand e' = rCommand r \<and> Counter (rCommand r) = s"
      by (auto simp: own_slot_def)
  qed
  moreover have "waiting_in (log p') \<subseteq> waiting_in (log p)"
    using assms(1) by (force simp: keeps_requests_def waiting_in_def)
  then have "serves (service p) [] [] ((service p)\<lparr>waits := waiting_in (log p')\<rparr>)"
    by (intro serves.forgets) (simp add: service_def)
  ultimately show "own_slots p' \<and> serves (service p) [] (visible evs) (service p')"
    using assms(2-4) by (simp add: service_def)
qed

section \<open>The handlers implement the service\<close>

lemma service_exec_next: "service (exec_next e p) = apply_next (ecommand e) (service p)"
  by (auto simp: service_def apply_next_def waiting_in_def fmlookup_drop split: if_splits)

lemma own_slots_exec_next: "own_slots p \<Longrightarrow> own_slots (exec_next e p)"
  by (auto simp: own_slots_def fmlookup_drop split: if_splits)

lemma serving_exec_next:
  assumes e: "fmlookup (log p) (execute p) = Some e"
  shows "serving p [] (Applied (execute p) (ecommand e) #
      reply_events e (fst (Execute (db p) (ecommand e)))) (exec_next e p)"
  unfolding serving_def
proof
  assume own: "own_slots p"
  let ?evs = "Applied (execute p) (ecommand e) # reply_events e (fst (Execute (db p) (ecommand e)))"
  have "serves (service p) [] ?evs (apply_next (ecommand e) (service p))"
  proof (cases "request e \<noteq> None \<and> leader e")
    case True
    then obtain r where r: "request e = Some r" "leader e" by auto
    have c: "ecommand e = rCommand r" using own_slotsD [OF own e] r by (simp add: own_slot_def)
    have "(next_slot (service p), r) \<in> waits (service p)"
      using e r by (auto simp: service_def waiting_in_def)
    from serves.answers [OF this] show ?thesis
      using r by (simp add: c reply_events_def answer_to_def service_def)
  next
    case False
    then have "reply_events e v = []" for v by (auto simp: reply_events_def split: option.splits)
    then show ?thesis using serves.applies [of "service p" "ecommand e"] by (simp add: service_def)
  qed
  with own_slots_exec_next [OF own] show "own_slots (exec_next e p) \<and>
      serves (service p) [] (visible ?evs) (service (exec_next e p))"
    by (simp add: service_exec_next)
qed

lemma serving_exec: "serving p [] (snd (exec cfg p)) (fst (exec cfg p))"
proof (rule exec_rule [where Q = "\<lambda>p r. serving p [] (snd r) (fst r)"])
  fix p :: Consensus and e
  assume "fmlookup (log p) (execute p) = Some e"
  then show "serving p [] (snd (exec_reset e p, [Broadcast (MVote \<lparr> vSlot = execute p, vId = cid p, vL = l p \<rparr>)]))
      (fst (exec_reset e p, [Broadcast (MVote \<lparr> vSlot = execute p, vId = cid p, vL = l p \<rparr>)]))"
    by (intro serving_quiet) (simp_all add: keeps_requests_upd)
next
  fix p p' :: Consensus and e evs
  assume e: "fmlookup (log p) (execute p) = Some e"
    and IH: "serving (exec_next e p) [] (snd (p', evs)) (fst (p', evs))"
  from serving_then [OF serving_exec_next [OF e] IH]
  show "serving p [] (snd (p', Applied (execute p) (ecommand e) #
      reply_events e (fst (Execute (db p) (ecommand e))) @ evs))
    (fst (p', Applied (execute p) (ecommand e) # reply_events e (fst (Execute (db p) (ecommand e))) @ evs))"
    by simp
qed (simp_all add: serving_quiet)

lemma serving_exec_from:
  "keeps_requests (log p) (log p1) \<Longrightarrow> execute p1 = execute p \<Longrightarrow> db p1 = db p \<Longrightarrow>
     serving p [] (snd (exec cfg p1)) (fst (exec cfg p1))"
  using serving_then [OF serving_quiet [of p p1 "[]"] serving_exec [of p1 cfg]] by simp

lemma keeps_requests_mark_voted: "keeps_requests (log p) (log (mark_voted s p))"
  by (auto simp: mark_voted_def keeps_requests_upd split: option.splits)

lemma keeps_requests_trans:
  assumes "keeps_requests L L1" and "keeps_requests L1 L2"
  shows "keeps_requests L L2"
  unfolding keeps_requests_def
proof (intro allI impI)
  fix s e'
  assume "fmlookup L2 s = Some e'"
  then have "request e' = None \<or>
      (\<exists>e. fmlookup L1 s = Some e \<and> request e' = request e \<and> ecommand e' = ecommand e)"
    using assms(2) by (simp add: keeps_requests_def)
  then show "request e' = None \<or>
      (\<exists>e. fmlookup L s = Some e \<and> request e' = request e \<and> ecommand e' = ecommand e)"
    using assms(1) unfolding keeps_requests_def by metis
qed

lemma keeps_requests_fold_mark_voted: "keeps_requests (log p) (log (fold mark_voted ord p))"
proof (induction ord arbitrary: p)
  case (Cons s ord)
  from keeps_requests_trans [OF keeps_requests_mark_voted Cons.IH] show ?case by simp
qed simp

lemma keeps_requests_mark_phase: "keeps_requests (log p) (log (mark_phase cfg t ord p))"
  by (simp add: mark_phase_def keeps_requests_fold_mark_voted)

lemma keeps_requests_record_proposal: "keeps_requests (log p) (log (record_proposal m p))"
  by (auto simp: record_proposal_def Let_def new_entry_def split: option.splits intro!: keeps_requests_upd)

lemma serving_mark_exec: "serving p [] (snd (mark_exec cfg s p)) (fst (mark_exec cfg s p))"
  using keeps_requests_mark_voted [of p s]
  by (simp add: mark_exec_def serving_quiet serving_exec_from split: option.splits)

lemma serving_mark_exec_loop:
  "serving p [] (snd (mark_exec_loop cfg ord p)) (fst (mark_exec_loop cfg ord p))"
proof (induction ord arbitrary: p)
  case (Cons s ord)
  from serving_then [OF serving_mark_exec Cons.IH] show ?case by (simp add: Let_def split_beta)
qed (simp add: serving_quiet)

lemma serving_exec_phase:
  "serving p [] (snd (exec_phase cfg flag ord p)) (fst (exec_phase cfg flag ord p))"
  using serving_then [OF serving_quiet serving_mark_exec_loop,
      of p "p\<lparr>Member := Member_Reset (Member p)\<rparr>" "[]" cfg ord]
  by (simp add: exec_phase_def serving_quiet)

lemma serving_HandlePropose:
  "serving p [] (snd (HandlePropose cfg ord1 ord2 m p)) (fst (HandlePropose cfg ord1 ord2 m p))"
proof -
  define p2 where
    "p2 = mark_phase cfg (execute (record_proposal m p) + Total cfg) ord1 (record_proposal m p)"
  have "serving p [] [] p2"
    using keeps_requests_trans [OF keeps_requests_record_proposal keeps_requests_mark_phase]
    by (intro serving_quiet) (simp_all add: p2_def)
  moreover have "serving p2 [] (snd (vote_phase cfg t s p2)) (fst (vote_phase cfg t s p2))" for t s
    by (intro serving_quiet) (simp_all add: vote_phase_def)
  ultimately have "serving p [] (snd (vote_phase cfg t s p2)) (fst (vote_phase cfg t s p2))" for t s
    using serving_then by fastforce
  from serving_then [OF this serving_exec_phase] show ?thesis
    by (simp add: HandlePropose_def Let_def split_beta p2_def)
qed

lemma serving_vote_entry: "serving p [] (snd (vote_entry cfg s sc p)) (fst (vote_entry cfg s sc p))"
proof -
  define e0 where "e0 = (case fmlookup (log p) s of None \<Rightarrow> new_entry 0 (cbCommand sc) 0 | Some e \<Rightarrow> e)"
  have "keeps_requests (log p) (fmupd s e (log p))"
    if "request e = request e0" "ecommand e = ecommand e0" for e
    using that by (intro keeps_requests_upd) (auto simp: e0_def new_entry_def split: option.splits)
  then show ?thesis
    by (simp add: vote_entry_def Let_def serving_quiet serving_exec_from flip: e0_def)
qed

lemma serving_vote_loop: "serving p [] (snd (vote_loop cfg L ord p)) (fst (vote_loop cfg L ord p))"
proof (induction ord arbitrary: p)
  case (Cons s ord)
  define r where "r = (case fmlookup L s of None \<Rightarrow> (p, []) | Some sc \<Rightarrow> vote_entry cfg s sc p)"
  have "serving p [] (snd r) (fst r)"
    by (simp add: r_def serving_quiet serving_vote_entry split: option.splits)
  from serving_then [OF this Cons.IH] show ?case
    by (simp add: Let_def split_beta flip: r_def)
qed (simp add: serving_quiet)

lemma serving_HandleRequest: "serving p [r] (snd (HandleRequest r p)) (fst (HandleRequest r p))"
  unfolding serving_def
proof
  let ?p = "fst (HandleRequest r p)" and ?s = "Counter (rCommand r)"
  assume own: "own_slots p"
  obtain e where e: "log ?p = fmupd ?s e (log p)" "request e = Some r" "ecommand e = rCommand r"
    by (simp add: HandleRequest_def Propose_def Let_def)
  have "own_slots ?p"
    using own e by (auto simp: own_slots_def own_slot_def)
  moreover have "service ?p = accept r (service p)"
  proof -
    have "waiting_in (log ?p) = insert (?s, r) {w \<in> waiting_in (log p). fst w \<noteq> ?s}"
      using e(2) by (auto simp: waiting_in_def e(1) split: if_splits)
    moreover have "execute ?p = execute p" "db ?p = db p"
      by (simp_all add: HandleRequest_def Propose_def Let_def)
    ultimately show ?thesis by (simp add: service_def accept_def)
  qed
  moreover have "visible (snd (HandleRequest r p)) = []"
    by (simp add: HandleRequest_def Propose_def Let_def)
  ultimately show "own_slots ?p \<and> serves (service p) [r] (visible (snd (HandleRequest r p))) (service ?p)"
    by (simp add: serves.accepts)
qed

lemma serving_handle: "serving p (requests_of [i]) (snd (handle cfg i p)) (fst (handle cfg i p))"
  by (cases i) (simp_all add: serving_HandleRequest serving_HandlePropose HandleVote_def serving_vote_loop)

lemma serving_handle_all:
  "serving p (requests_of is) (snd (handle_all cfg is p)) (fst (handle_all cfg is p))"
proof (induction "is" arbitrary: p)
  case (Cons i "is")
  have "requests_of (i # is) = requests_of [i] @ requests_of is" by (cases i) simp_all
  with serving_seq [OF serving_handle Cons.IH] show ?case by (simp add: Let_def split_beta)
qed (simp add: serving_quiet)

lemma replica_serves:
  "serves \<lparr> waits = {}, next_slot = 0, store = NewDatabase cfg \<rparr> (requests_of is)
     (visible (snd (handle_all cfg is (NewConsensus cfg n))))
     (service (fst (handle_all cfg is (NewConsensus cfg n))))"
proof -
  have "own_slots (NewConsensus cfg n)" by (simp add: own_slots_def NewConsensus_def)
  moreover have "service (NewConsensus cfg n) = \<lparr> waits = {}, next_slot = 0, store = NewDatabase cfg \<rparr>"
    by (simp add: service_def NewConsensus_def waiting_in_def)
  ultimately show ?thesis
    using serving_handle_all [of "NewConsensus cfg n" "is" cfg] by (simp add: serving_def)
qed


end
