(* ===== verification/Clients.thy ===== *)
theory Clients
  imports Configs "HOL-Library.Sublist"
begin

text \<open>
  The client library (\<open>client.go\<close>): the round robin over the leaders, which nodes the quorum
  operations talk to and for how many answers they wait, the check of the histories, and the
  partitioning of the network. The HTTP exchange is the theory \<open>Https\<close>; here the answer of a node is an
  argument, \<open>None\<close> being an error. A wait for an answer that no goroutine will send is \<open>None\<close>.
\<close>

record HTTPClient =
  hAddrs :: "(gid, string) gomap"
  hHTTP :: "(gid, string) gomap"
  hID :: gid
  hN :: int
  hLocalN :: int
  hC :: int
  hCID :: int

text \<open>The package variables \<open>List\<close> and \<open>rr\<close>, shared by all clients of a process.\<close>

record client_globals =
  gList :: "gid list"
  grr :: nat

definition initial_globals :: client_globals where
  "initial_globals = \<lparr> gList = [], grr = 0 \<rparr>"

definition NewHTTPClient :: "Config \<Rightarrow> gid list \<Rightarrow> gid \<Rightarrow> client_globals \<Rightarrow> client_globals \<times> HTTPClient" where
  "NewHTTPClient cfg ord i g =
     (let n = len_map (Addrs cfg);
          g1 = g\<lparr>gList := fold (\<lambda>k ids. ids @ [NewID 1 (of_nat k)]) [1 ..< n + 1] (gList g)\<rparr>;
          c = \<lparr> hAddrs = Addrs cfg, hHTTP = HTTPAddrs cfg, hID = i, hN = int n, hLocalN = 0, hC = - 1,
                hCID = 0 \<rparr>
      in (g1, if i \<noteq> []
              then c\<lparr>hLocalN := fold (\<lambda>node k. if Zone node = Zone i then k + 1 else k) ord 0\<rparr>
              else c))"

section \<open>Round robin\<close>

text \<open>An index out of range and a remainder by zero panic.\<close>

definition Next :: "Config \<Rightarrow> gid list \<Rightarrow> client_globals \<Rightarrow> HTTPClient \<Rightarrow>
    (client_globals \<times> HTTPClient \<times> gid) outcome" where
  "Next cfg lst g c =
     (if grr g < length lst \<and> len_map (Addrs cfg) \<noteq> 0
      then Ret (g\<lparr>grr := (grr g + 1) mod len_map (Addrs cfg)\<rparr>,
                c\<lparr>hID := lst ! grr g, hC := hC c + 1\<rparr>, lst ! grr g)
      else Panic)"

text \<open>\<open>Put\<close> up to the call of \<open>RESTPut\<close>: the node it goes to, with the new command number.\<close>

definition Put_target :: "Config \<Rightarrow> client_globals \<Rightarrow> HTTPClient \<Rightarrow>
    (client_globals \<times> HTTPClient \<times> gid) outcome" where
  "Put_target cfg g c =
     (case Next cfg (gList g) g (c\<lparr>hCID := hCID c + 1\<rparr>) of
        Panic \<Rightarrow> Panic
      | Ret (g1, c1, i) \<Rightarrow> Ret (g1, c1\<lparr>hID := i\<rparr>, i))"

fun put_targets :: "Config \<Rightarrow> nat \<Rightarrow> client_globals \<Rightarrow> HTTPClient \<Rightarrow> gid list outcome" where
  "put_targets cfg 0 g c = Ret []"
| "put_targets cfg (Suc m) g c =
     (case Put_target cfg g c of
        Panic \<Rightarrow> Panic
      | Ret (g1, c1, i) \<Rightarrow>
          (case put_targets cfg m g1 c1 of Panic \<Rightarrow> Panic | Ret is \<Rightarrow> Ret (i # is)))"

text \<open>\<open>GetURL\<close>: with no node given, the first one met that is in the client's zone, or the last one met.\<close>

fun pick_node :: "gid \<Rightarrow> gid \<Rightarrow> gid list \<Rightarrow> gid" where
  "pick_node own i [] = i"
| "pick_node own i (j # js) = (if own = [] \<or> Zone j = Zone own then j else pick_node own j js)"

definition GetURL :: "gid list \<Rightarrow> HTTPClient \<Rightarrow> gid \<Rightarrow> int \<Rightarrow> string" where
  "GetURL ord c i key =
     (let i1 = (if i = [] then pick_node (hID c) i ord else i)
      in get_or [] (hHTTP c) i1 @ ''/'' @ Itoa (word_of_int key))"

lemma fold_snoc_map: "fold (\<lambda>k ids. ids @ [f k]) ks acc = acc @ map f ks"
  by (induction ks arbitrary: acc) simp_all

lemma NewHTTPClient_list:
  "gList (fst (NewHTTPClient cfg ord i g)) =
     gList g @ map (\<lambda>k. NewID 1 (of_nat k)) [1 ..< len_map (Addrs cfg) + 1]"
  "grr (fst (NewHTTPClient cfg ord i g)) = grr g"
  by (simp_all add: NewHTTPClient_def Let_def fold_snoc_map)

lemma put_targets_cycle:
  assumes "len_map (Addrs cfg) = n" "0 < n" "grr g < n" "n \<le> length (gList g)"
  shows "put_targets cfg m g c = Ret (map (\<lambda>k. gList g ! ((grr g + k) mod n)) [0 ..< m])"
  using assms(3,4)
proof (induction m arbitrary: g c)
  case (Suc m)
  let ?g = "g\<lparr>grr := (grr g + 1) mod n\<rparr>"
  have "put_targets cfg m ?g c' = Ret (map (\<lambda>k. gList g ! ((grr g + Suc k) mod n)) [0 ..< m])" for c'
    using Suc.IH [of ?g c'] Suc.prems assms(2) by (simp add: mod_simps)
  moreover have "map (\<lambda>k. gList g ! ((grr g + k) mod n)) [0 ..< Suc m] =
      gList g ! grr g # map (\<lambda>k. gList g ! ((grr g + Suc k) mod n)) [0 ..< m]"
    using Suc.prems(1) by (simp add: upt_conv_Cons map_Suc_upt [symmetric] del: upt_Suc)
  ultimately show ?case
    using Suc.prems assms(1,2) by (simp add: Put_target_def Next_def)
qed simp

text \<open>
  The \<open>Put\<close> calls of a process go to the nodes 1.1, 1.2, ..., 1.n in turn and start over, for
  as many clients as it makes, provided the configuration has at least one node.
\<close>

theorem puts_round_robin:
  assumes "0 < len_map (Addrs cfg)"
  shows "put_targets cfg m (fst (NewHTTPClient cfg ord i initial_globals)) c =
      Ret (map (\<lambda>k. NewID 1 (of_nat (k mod len_map (Addrs cfg) + 1))) [0 ..< m]) \<and>
    put_targets cfg m (fst (NewHTTPClient cfg ord' j (fst (NewHTTPClient cfg ord i initial_globals)))) c =
      Ret (map (\<lambda>k. NewID 1 (of_nat (k mod len_map (Addrs cfg) + 1))) [0 ..< m])"
proof -
  let ?n = "len_map (Addrs cfg)" and ?g1 = "fst (NewHTTPClient cfg ord i initial_globals)"
  let ?g2 = "fst (NewHTTPClient cfg ord' j ?g1)"
  let ?ids = "map (\<lambda>k. NewID 1 (of_nat k)) [1 ..< ?n + 1] :: gid list"
  have l: "gList ?g1 = ?ids" "gList ?g2 = ?ids @ ?ids" "grr ?g1 = 0" "grr ?g2 = 0"
    by (simp_all add: NewHTTPClient_list initial_globals_def del: upt_Suc)
  have "?ids ! (k mod ?n) = NewID 1 (of_nat (k mod ?n + 1))" for k
    using assms by (simp del: upt_Suc)
  then have "gList ?g1 ! (k mod ?n) = NewID 1 (of_nat (k mod ?n + 1))"
    "gList ?g2 ! (k mod ?n) = NewID 1 (of_nat (k mod ?n + 1))" for k
    using assms unfolding l(1,2) by (simp_all add: nth_append del: upt_Suc)
  with put_targets_cycle [of cfg ?n ?g1 m c] put_targets_cycle [of cfg ?n ?g2 m c] assms l
  show ?thesis by (simp del: upt_Suc)
qed

theorem puts_round_robin_witness:
  "put_targets (MakeDefaultConfig\<lparr>Addrs := fmupd ''1.1'' ''a'' (fmupd ''1.2'' ''b'' fmempty)\<rparr>) 3
     (fst (NewHTTPClient (MakeDefaultConfig\<lparr>Addrs := fmupd ''1.1'' ''a'' (fmupd ''1.2'' ''b'' fmempty)\<rparr>)
        [] [] initial_globals))
     \<lparr> hAddrs = fmempty, hHTTP = fmempty, hID = [], hN = 2, hLocalN = 0, hC = - 1, hCID = 0 \<rparr> = Ret [NewID 1 1, NewID 1 2, NewID 1 1]"
proof -
  let ?cfg = "MakeDefaultConfig\<lparr>Addrs := fmupd ''1.1'' ''a'' (fmupd ''1.2'' ''b'' fmempty)\<rparr>"
  have "len_map (Addrs ?cfg) = 2" by (simp add: len_map_def)
  with puts_round_robin [of ?cfg 3 "[]" "[]" "\<lparr> hAddrs = fmempty, hHTTP = fmempty, hID = [], hN = 2, hLocalN = 0, hC = - 1, hCID = 0 \<rparr>"] show ?thesis
    by (simp add: upt_rec numeral_3_eq_3 numeral_2_eq_2)
qed

section \<open>Quorum reads and writes\<close>

text \<open>
  The loops that start the goroutines: the nodes asked, and for the local read also the value of
  the counter \<open>i\<close> at the end.
\<close>

fun multi_targets :: "int \<Rightarrow> int \<Rightarrow> gid list \<Rightarrow> gid list" where
  "multi_targets n i [] = []"
| "multi_targets n i (x # xs) = x # (if i + 1 \<ge> n then [] else multi_targets n (i + 1) xs)"

fun quorum_put_targets :: "int \<Rightarrow> int \<Rightarrow> gid list \<Rightarrow> gid list" where
  "quorum_put_targets N i [] = []"
| "quorum_put_targets N i (x # xs) =
     (if i + 1 > go_div N 2 then [] else x # quorum_put_targets N (i + 1) xs)"

fun local_targets :: "gid \<Rightarrow> int \<Rightarrow> int \<Rightarrow> gid list \<Rightarrow> gid list \<times> int" where
  "local_targets own LocalN i [] = ([], i)"
| "local_targets own LocalN i (x # xs) =
     (if Zone own \<noteq> Zone x then local_targets own LocalN i xs
      else if i + 1 > go_div LocalN 2 then ([], i + 1)
      else let (ys, k) = local_targets own LocalN (i + 1) xs in (x # ys, k))"

text \<open>
  Waiting for \<open>m\<close> answers of the nodes asked: a node that fails sends none. The answers come in
  some order, here the one in which the nodes were asked.
\<close>

definition collect :: "(gid \<Rightarrow> 'a option) \<Rightarrow> gid list \<Rightarrow> nat \<Rightarrow> 'a list option" where
  "collect answer asked m =
     (let got = List.map_filter answer asked in if m \<le> length got then Some (take m got) else None)"

definition MultiGet :: "gid list \<Rightarrow> (gid \<Rightarrow> 'a option) \<Rightarrow> int \<Rightarrow> 'a list option" where
  "MultiGet ord answer n =
     (let asked = multi_targets n 0 ord in collect answer asked (length asked))"

definition QuorumGet :: "gid list \<Rightarrow> (gid \<Rightarrow> 'a option) \<Rightarrow> HTTPClient \<Rightarrow> 'a list option" where
  "QuorumGet ord answer c = MultiGet ord answer (go_div (hN c) 2 + 1)"

text \<open>The last loop runs for \<open>i\<close> down to 0, both included.\<close>

definition LocalQuorumGet :: "gid list \<Rightarrow> (gid \<Rightarrow> 'a option) \<Rightarrow> HTTPClient \<Rightarrow> 'a list option" where
  "LocalQuorumGet ord answer c =
     (let (asked, i) = local_targets (hID c) (hLocalN c) 0 ord in collect answer asked (nat (i + 1)))"

text \<open>The nodes a quorum write reaches; it waits for all of them.\<close>

definition QuorumPut :: "gid list \<Rightarrow> HTTPClient \<Rightarrow> gid list" where
  "QuorumPut ord c = quorum_put_targets (hN c) 0 ord"

lemma multi_targets_take:
  "multi_targets n i xs = take (if i + 1 \<ge> n then 1 else nat (n - i)) xs"
proof (induction xs arbitrary: i)
  case (Cons x xs)
  show ?case
  proof (cases "i + 1 \<ge> n")
    case False
    then have "nat (n - i) = Suc (if i + 1 + 1 \<ge> n then 1 else nat (n - (i + 1)))" by auto
    with Cons False show ?thesis by simp
  qed simp
qed simp

lemma quorum_put_targets_take:
  "0 \<le> i \<Longrightarrow> quorum_put_targets N i xs = take (nat (go_div N 2 - i)) xs"
proof (induction xs arbitrary: i)
  case (Cons x xs)
  show ?case
  proof (cases "i + 1 > go_div N 2")
    case False
    then have "nat (go_div N 2 - i) = Suc (nat (go_div N 2 - (i + 1)))" by simp
    with Cons False show ?thesis by simp
  qed (use Cons in simp)
qed simp

lemma local_targets_short:
  "0 \<le> i \<Longrightarrow> local_targets own L i xs = (ys, k) \<Longrightarrow> i + int (length ys) \<le> k"
  by (induction own L i xs arbitrary: ys k rule: local_targets.induct)
    (auto simp: Let_def split: if_splits prod.splits)

lemma halves_meet:
  assumes "finite U" "0 < card U" "even (card U)"
    and o: "distinct ord" "set ord = U" "distinct ord'" "set ord' = U"
  shows "set (take (card U div 2 + 1) ord) \<inter> set (take (card U div 2) ord') \<noteq> {}"
proof (rule overlap_by_card [OF assms(1)])
  let ?n = "card U"
  have len: "length ord = ?n" "length ord' = ?n" using o by (metis distinct_card)+
  show "set (take (?n div 2 + 1) ord) \<subseteq> U" "set (take (?n div 2) ord') \<subseteq> U"
    using o set_take_subset by fastforce+
  have "?n div 2 + 1 \<le> ?n" using assms(2,3) by presburger
  moreover have "?n div 2 + ?n div 2 = ?n" using assms(3) by presburger
  ultimately show "?n < card (set (take (?n div 2 + 1) ord)) + card (set (take (?n div 2) ord'))"
    using o len by (simp add: distinct_card distinct_take)
qed

lemma halves_miss:
  assumes "odd (length ord)" "distinct ord"
  shows "set (take (length ord div 2 + 1) ord) \<inter> set (take (length ord div 2) (rev ord)) = {}"
proof -
  let ?n = "length ord"
  have "?n - ?n div 2 = ?n div 2 + 1" using assms(1) by presburger
  then have "take (?n div 2) (rev ord) = rev (drop (?n div 2 + 1) ord)" by (simp only: take_rev)
  then show ?thesis
    using set_take_disj_set_drop_if_distinct [OF assms(2), of "?n div 2 + 1" "?n div 2 + 1"] by simp
qed

text \<open>
  C29: in a cluster of \<open>N\<close> nodes a quorum read asks \<open>N/2 + 1\<close> nodes and a quorum write \<open>N/2\<close>, in
  whatever order the loops meet the nodes. So a read that returns has asked a node of every
  write if \<open>N\<close> is even, and if \<open>N\<close> is odd there are orders in which it has asked none. The local
  read never returns at all: it waits for more answers than it asked nodes.
\<close>

theorem quorum_reads_and_writes:
  assumes "finite U" and "hN c = int (card U)" and "0 < card U"
  shows "(even (card U) \<longrightarrow>
      (\<forall>ord ord'. distinct ord \<and> set ord = U \<and> distinct ord' \<and> set ord' = U \<longrightarrow>
         set (multi_targets (go_div (hN c) 2 + 1) 0 ord) \<inter> set (QuorumPut ord' c) \<noteq> {})) \<and>
    (odd (card U) \<longrightarrow>
      (\<exists>ord ord'. distinct ord \<and> set ord = U \<and> distinct ord' \<and> set ord' = U \<and>
         set (multi_targets (go_div (hN c) 2 + 1) 0 ord) \<inter> set (QuorumPut ord' c) = {})) \<and>
    LocalQuorumGet ord2 answer c = None"
proof (intro conjI impI)
  let ?n = "card U"
  have h: "go_div (hN c) 2 = int (?n div 2)" by (simp add: assms(2) go_div_pos zdiv_int)
  have get: "multi_targets (go_div (hN c) 2 + 1) 0 ord = take (?n div 2 + 1) ord" for ord
    by (simp add: multi_targets_take h nat_add_distrib)
  have put: "QuorumPut ord c = take (?n div 2) ord" for ord
    by (simp add: QuorumPut_def quorum_put_targets_take h)
  show "\<forall>ord ord'. distinct ord \<and> set ord = U \<and> distinct ord' \<and> set ord' = U \<longrightarrow>
      set (multi_targets (go_div (hN c) 2 + 1) 0 ord) \<inter> set (QuorumPut ord' c) \<noteq> {}" if "even ?n"
    unfolding get put using halves_meet [OF assms(1,3) that] by blast
  show "\<exists>ord ord'. distinct ord \<and> set ord = U \<and> distinct ord' \<and> set ord' = U \<and>
      set (multi_targets (go_div (hN c) 2 + 1) 0 ord) \<inter> set (QuorumPut ord' c) = {}" if "odd ?n"
  proof -
    obtain ord where o: "distinct ord" "set ord = U" using finite_distinct_list [OF assms(1)] by blast
    then have "length ord = ?n" by (metis distinct_card)
    then have "set (take (?n div 2 + 1) ord) \<inter> set (take (?n div 2) (rev ord)) = {}"
      using halves_miss [of ord] o that by simp
    then show ?thesis using o by (intro exI [of _ ord] exI [of _ "rev ord"]) (simp add: get put)
  qed
  obtain asked i where t: "local_targets (hID c) (hLocalN c) 0 ord2 = (asked, i)" by fastforce
  have "length (List.map_filter answer asked) \<le> length asked"
    by (induction asked) (simp_all split: option.splits)
  then show "LocalQuorumGet ord2 answer c = None"
    using local_targets_short [OF _ t] by (simp add: LocalQuorumGet_def collect_def Let_def t)
qed

theorem quorum_reads_and_writes_witness:
  "\<exists>ord ord'. set (multi_targets 2 0 ord) \<inter> set (QuorumPut ord'
      \<lparr> hAddrs = fmempty, hHTTP = fmempty, hID = ''1.1'', hN = 3, hLocalN = 3, hC = - 1, hCID = 0 \<rparr>) = {} \<and>
    set ord = {''1.1'', ''1.2'', ''1.3''} \<and> set ord' = {''1.1'', ''1.2'', ''1.3''}"
proof -
  let ?c = "\<lparr> hAddrs = fmempty, hHTTP = fmempty, hID = ''1.1'', hN = 3, hLocalN = 3, hC = - 1, hCID = 0 \<rparr>"
  have "card {''1.1'', ''1.2'', ''1.3''} = 3" by simp
  then have "\<exists>ord ord'. distinct ord \<and> set ord = {''1.1'', ''1.2'', ''1.3''} \<and> distinct ord' \<and>
      set ord' = {''1.1'', ''1.2'', ''1.3''} \<and>
      set (multi_targets (go_div (hN ?c) 2 + 1) 0 ord) \<inter> set (QuorumPut ord' ?c) = {}"
    using quorum_reads_and_writes [of "{''1.1'', ''1.2'', ''1.3''}" ?c "[]" "\<lambda>i. None :: bytes option"]
    by simp
  moreover have "go_div (hN ?c) 2 + 1 = 2" by (simp add: go_div_pos)
  ultimately show ?thesis by metis
qed

section \<open>Checking that the histories agree\<close>

text \<open>
  \<open>h\<close> gives the history each node returned, empty when the call failed. The values found at one
  index are collected in a set of strings.
\<close>

definition longest :: "gid list \<Rightarrow> (gid \<Rightarrow> bytes list) \<Rightarrow> nat" where
  "longest ids h = fold (\<lambda>i n. if length (h i) > n then length (h i) else n) ids 0"

definition values_at :: "gid list \<Rightarrow> (gid \<Rightarrow> bytes list) \<Rightarrow> nat \<Rightarrow> bytes set" where
  "values_at ids h k = fold (\<lambda>i s. if length (h i) > k then insert (h i ! k) s else s) ids {}"

fun check_from :: "gid list \<Rightarrow> (gid \<Rightarrow> bytes list) \<Rightarrow> nat list \<Rightarrow> bool" where
  "check_from ids h [] = True"
| "check_from ids h (k # ks) = (if card (values_at ids h k) > 1 then False else check_from ids h ks)"

definition Consensus_check :: "gid list \<Rightarrow> (gid \<Rightarrow> bytes list) \<Rightarrow> bool" where
  "Consensus_check ids h = check_from ids h [0 ..< longest ids h]"

lemma longest_ge: "i \<in> set ids \<Longrightarrow> length (h i) \<le> longest ids h"
proof -
  have "n \<le> fold (\<lambda>i n. if length (h i) > n then length (h i) else n) ids n \<and>
      (\<forall>i \<in> set ids. length (h i) \<le> fold (\<lambda>i n. if length (h i) > n then length (h i) else n) ids n)" for n
  proof (induction ids arbitrary: n)
    case (Cons j ids)
    show ?case using Cons [of "if length (h j) > n then length (h j) else n"] by (auto split: if_splits)
  qed simp
  then show "i \<in> set ids \<Longrightarrow> length (h i) \<le> longest ids h" by (simp add: longest_def)
qed

lemma values_at_eq: "values_at ids h k = {h i ! k | i. i \<in> set ids \<and> k < length (h i)}"
proof -
  have "fold (\<lambda>i s. if length (h i) > k then insert (h i ! k) s else s) ids s =
      s \<union> {h i ! k | i. i \<in> set ids \<and> k < length (h i)}" for s
    by (induction ids arbitrary: s) auto
  then show ?thesis by (simp add: values_at_def)
qed

lemma values_at_finite: "finite (values_at ids h k)"
proof -
  have "values_at ids h k \<subseteq> (\<lambda>i. h i ! k) ` set ids" by (auto simp: values_at_eq)
  then show ?thesis by (rule finite_subset) simp
qed

lemma check_from_iff: "check_from ids h ks \<longleftrightarrow> (\<forall>k \<in> set ks. card (values_at ids h k) \<le> 1)"
  by (induction ks) auto

lemma Consensus_check_iff:
  "Consensus_check ids h \<longleftrightarrow>
     (\<forall>i j. i \<in> set ids \<and> j \<in> set ids \<longrightarrow> prefix (h i) (h j) \<or> prefix (h j) (h i))"
proof
  assume c: "Consensus_check ids h"
  have same: "h i ! k = h j ! k" if "i \<in> set ids" "j \<in> set ids" "k < length (h i)" "k < length (h j)" for i j k
  proof -
    have "k < longest ids h" using longest_ge [OF that(1), of h] that(3) by simp
    then have "card (values_at ids h k) \<le> 1" using c by (simp add: Consensus_check_def check_from_iff)
    moreover have "h i ! k \<in> values_at ids h k" "h j ! k \<in> values_at ids h k"
      using that by (auto simp: values_at_eq)
    ultimately show ?thesis using card_le_Suc0_iff_eq [OF values_at_finite] by auto
  qed
  have le: "prefix (h i) (h j)" if "i \<in> set ids" "j \<in> set ids" "length (h i) \<le> length (h j)" for i j
  proof -
    have "h i = take (length (h i)) (h j)"
      using that same [OF that(1,2)] by (intro nth_equalityI) simp_all
    then show ?thesis by (metis take_is_prefix)
  qed
  show "\<forall>i j. i \<in> set ids \<and> j \<in> set ids \<longrightarrow> prefix (h i) (h j) \<or> prefix (h j) (h i)"
    using le nat_le_linear by blast
next
  assume p: "\<forall>i j. i \<in> set ids \<and> j \<in> set ids \<longrightarrow> prefix (h i) (h j) \<or> prefix (h j) (h i)"
  have "x = y" if v: "x \<in> values_at ids h k" "y \<in> values_at ids h k" for k x y
  proof -
    obtain i j where ij: "i \<in> set ids" "k < length (h i)" "x = h i ! k"
        "j \<in> set ids" "k < length (h j)" "y = h j ! k"
      using v unfolding values_at_eq by blast
    with p have "prefix (h i) (h j) \<or> prefix (h j) (h i)" by blast
    with ij show ?thesis by (auto simp: prefix_def nth_append)
  qed
  then have "card (values_at ids h k) \<le> 1" for k
    using card_le_Suc0_iff_eq [OF values_at_finite] by simp
  then show "Consensus_check ids h" by (simp add: Consensus_check_def check_from_iff)
qed

text \<open>
  \<open>Consensus\<close> answers true exactly when the histories of any two nodes are prefixes of one
  another; a node that did not answer counts as an empty history.
\<close>

theorem Consensus_check_exact:
  "Consensus_check ids h \<longleftrightarrow>
     (\<forall>i j. i \<in> set ids \<and> j \<in> set ids \<longrightarrow> prefix (h i) (h j) \<or> prefix (h j) (h i))"
  by (rule Consensus_check_iff)

theorem Consensus_check_exact_witness:
  "Consensus_check [''1.1'', ''1.2''] (\<lambda>i. if i = ''1.1'' then [[1]] else [[1], [2]])"
  using Consensus_check_exact [of "[''1.1'', ''1.2'']" "\<lambda>i. if i = ''1.1'' then [[1]] else [[1], [2]]"]
  by auto

section \<open>Fault injection from the client\<close>

text \<open>The URLs of the administration calls; an unknown node has the empty address.\<close>

definition Crash_url :: "HTTPClient \<Rightarrow> gid \<Rightarrow> int \<Rightarrow> string" where
  "Crash_url c i t = get_or [] (hHTTP c) i @ ''/crash?t='' @ Itoa (word_of_int t)"

definition Drop_query :: "gid \<Rightarrow> int \<Rightarrow> string" where
  "Drop_query to t = ''id='' @ to @ ''&t='' @ Itoa (word_of_int t)"

definition Drop_url :: "HTTPClient \<Rightarrow> gid \<Rightarrow> gid \<Rightarrow> int \<Rightarrow> string" where
  "Drop_url c from to t = get_or [] (hHTTP c) from @ ''/drop?'' @ Drop_query to t"

text \<open>The calls of \<open>Drop\<close> that \<open>Partition\<close> makes: for the nodes outside the set, in the order met.\<close>

fun partition_loop :: "gid list \<Rightarrow> gid list \<Rightarrow> (gid \<times> gid) list" where
  "partition_loop members [] = []"
| "partition_loop members (from # ord) =
     (if from \<notin> set members then map (Pair from) members @ partition_loop members ord
      else partition_loop members ord)"

definition Partition :: "gid list \<Rightarrow> int \<Rightarrow> gid list \<Rightarrow> HTTPClient \<Rightarrow> string list" where
  "Partition ord t members c = map (\<lambda>(from, to). Drop_url c from to t) (partition_loop members ord)"

lemma partition_loop_set:
  "set (partition_loop members ord) = {(f, i). f \<in> set ord \<and> f \<notin> set members \<and> i \<in> set members}"
  by (induction ord) auto

end
