(* ===== verification/Replies.thy ===== *)
theory Replies
  imports Services Https Clients
begin

text \<open>
  What a client of a replica can rely on: an answer is the right one, for a command applied in the
  slot it asked for, and a request gets at most one. And what it cannot: a request for a slot that
  has been applied already is never answered, which is the fate of all reads but those of slot 0.
  The theorems are about the handlers of \<open>consensus.go\<close>, by rule induction over the abstract
  service; the last section joins them to the calls of \<open>client.go\<close> and the handler of \<open>http.go\<close>.
\<close>

section \<open>Facts about the service\<close>

fun reply_to :: "nat \<Rightarrow> Event \<Rightarrow> bool" where
  "reply_to c (SendReply r y) \<longleftrightarrow> rc r = Some c"
| "reply_to c (Applied s d) \<longleftrightarrow> False"
| "reply_to c (Broadcast m) \<longleftrightarrow> False"

definition asks :: "nat \<Rightarrow> Request \<Rightarrow> bool" where
  "asks c r \<longleftrightarrow> rc r = Some c"

definition in_own_slot :: "int \<times> Request \<Rightarrow> bool" where
  "in_own_slot w \<longleftrightarrow> fst w = Counter (rCommand (snd w))"

lemma visible_replies [simp]:
  "filter (reply_to c) (visible evs) = filter (reply_to c) evs" "applied (visible evs) = applied evs"
  by (induction evs rule: visible.induct) simp_all

lemma visible_SendReply [simp]: "SendReply r y \<in> set (visible evs) \<longleftrightarrow> SendReply r y \<in> set evs"
  by (induction evs rule: visible.induct) auto

lemma serves_requests: "serves a rs evs b \<Longrightarrow> snd ` waits b \<subseteq> snd ` waits a \<union> set rs"
proof (induction rule: serves.induct)
  case (seq a rs evs b rs' evs' c)
  from seq.IH show ?case unfolding set_append by blast
qed (auto simp: accept_def apply_next_def)

lemma serves_store:
  "serves a rs evs b \<Longrightarrow> store b = snd (run_all Execute (store a) (map snd (applied evs)))"
  by (induction rule: serves.induct)
    (simp_all add: accept_def apply_next_def run_all_append Let_def split_beta)

lemma serves_next: "serves a rs evs b \<Longrightarrow> next_slot a \<le> next_slot b"
  by (induction rule: serves.induct) (simp_all add: accept_def apply_next_def)

lemma serves_finite: "serves a rs evs b \<Longrightarrow> finite (waits a) \<Longrightarrow> finite (waits b)"
  by (induction rule: serves.induct) (auto simp: accept_def apply_next_def intro: finite_subset)

lemma serves_own: "serves a rs evs b \<Longrightarrow> \<forall>w \<in> waits a. in_own_slot w \<Longrightarrow> \<forall>w \<in> waits b. in_own_slot w"
  by (induction rule: serves.induct) (auto simp: accept_def apply_next_def in_own_slot_def)

text \<open>Every answer follows the application of its command, and has the value found before it.\<close>

definition answered ::
    "Request set \<Rightarrow> database \<Rightarrow> Event list \<Rightarrow> bool" where
  "answered R d evs \<longleftrightarrow>
     (\<forall>pre r y post. evs = pre @ SendReply r y # post \<longrightarrow> r \<in> R \<and>
        (\<exists>pre'. pre = pre' @ [Applied (Counter (rCommand r)) (rCommand r)] \<and>
           y = answer_to r (snd (run_all Execute d (map snd (applied pre'))))))"

lemma answered_append:
  assumes "answered R d evs" and "answered R' (snd (run_all Execute d (map snd (applied evs)))) evs'"
  shows "answered (R \<union> R') d (evs @ evs')"
  unfolding answered_def
proof (intro allI impI)
  fix pre r y post
  assume split: "evs @ evs' = pre @ SendReply r y # post"
  then consider (first) mid where "evs = pre @ SendReply r y # mid"
    | (second) pre2 where "pre = evs @ pre2" "evs' = pre2 @ SendReply r y # post"
    by (auto simp: append_eq_append_conv2 append_eq_Cons_conv)
  then show "r \<in> R \<union> R' \<and>
      (\<exists>pre'. pre = pre' @ [Applied (Counter (rCommand r)) (rCommand r)] \<and>
         y = answer_to r (snd (run_all Execute d (map snd (applied pre')))))"
  proof cases
    case first
    with assms(1) show ?thesis by (auto simp: answered_def)
  next
    case second
    from second(2) assms(2) obtain pre' where
      "r \<in> R'" "pre2 = pre' @ [Applied (Counter (rCommand r)) (rCommand r)]"
      "y = answer_to r (snd (run_all Execute (snd (run_all Execute d (map snd (applied evs))))
             (map snd (applied pre'))))"
      unfolding answered_def by blast
    with second(1) show ?thesis
      by (auto simp: run_all_append Let_def split_beta intro!: exI [of _ "evs @ pre'"])
  qed
qed

lemma answered_mono: "answered R d evs \<Longrightarrow> R \<subseteq> R' \<Longrightarrow> answered R' d evs"
  unfolding answered_def by blast

lemma serves_answered:
  "serves a rs evs b \<Longrightarrow> \<forall>w \<in> waits a. in_own_slot w \<Longrightarrow> answered (snd ` waits a \<union> set rs) (store a) evs"
proof (induction rule: serves.induct)
  case (answers a r)
  then have "next_slot a = Counter (rCommand r)" by (auto simp: in_own_slot_def)
  with answers show ?case
    by (auto simp: answered_def Cons_eq_append_conv image_iff intro!: bexI [of _ "(next_slot a, r)"])
next
  case (seq a rs evs b rs' evs' c)
  have "answered (snd ` waits b \<union> set rs') (store b) evs'"
    using seq serves_own [OF seq.hyps(1)] by blast
  moreover have "snd ` waits a \<union> set rs \<union> (snd ` waits b \<union> set rs') = snd ` waits a \<union> set (rs @ rs')"
    using serves_requests [OF seq.hyps(1)] by auto
  ultimately show ?case
    using answered_append [OF seq.IH(1) [OF seq.prems], of "snd ` waits b \<union> set rs'" evs']
      serves_store [OF seq.hyps(1)] by simp
qed (auto simp: answered_def Cons_eq_append_conv)

text \<open>The requests on one channel that may still be answered.\<close>

definition waiting_on :: "nat \<Rightarrow> Service \<Rightarrow> (int \<times> Request) set" where
  "waiting_on c a = {w \<in> waits a. asks c (snd w)}"

lemma serves_count:
  "serves a rs evs b \<Longrightarrow> finite (waits a) \<Longrightarrow>
     length (filter (reply_to c) evs) + card (waiting_on c b) \<le>
     card (waiting_on c a) + length (filter (asks c) rs)"
proof (induction rule: serves.induct)
  case (forgets W a)
  then show ?case by (auto simp: waiting_on_def intro!: card_mono)
next
  case (accepts a r)
  let ?W = "{w \<in> waiting_on c a. fst w \<noteq> Counter (rCommand r)}"
  have "waiting_on c (accept r a) = (if asks c r then insert (Counter (rCommand r), r) ?W else ?W)"
    by (auto simp: waiting_on_def accept_def)
  moreover have fin: "finite (waiting_on c a)" using accepts by (simp add: waiting_on_def)
  then have "card ?W \<le> card (waiting_on c a)" by (intro card_mono) auto
  moreover have "card (insert (Counter (rCommand r), r) ?W) \<le> Suc (card ?W)"
    using fin by (simp add: card_insert_if)
  ultimately show ?case by auto
next
  case (applies a d)
  then show ?case by (auto simp: waiting_on_def apply_next_def intro!: card_mono)
next
  case (answers a r)
  have fin: "finite (waiting_on c a)" using answers by (simp add: waiting_on_def)
  have sub: "waiting_on c (apply_next (rCommand r) a) \<subseteq> waiting_on c a - {(next_slot a, r)}"
    by (auto simp: waiting_on_def apply_next_def)
  then have "card (waiting_on c (apply_next (rCommand r) a)) \<le> card (waiting_on c a - {(next_slot a, r)})"
    using fin by (intro card_mono) auto
  moreover have "asks c r \<Longrightarrow> (next_slot a, r) \<in> waiting_on c a"
    using answers by (simp add: waiting_on_def)
  then have "asks c r \<Longrightarrow> Suc (card (waiting_on c a - {(next_slot a, r)})) = card (waiting_on c a)"
    using fin by (metis card_Suc_Diff1)
  moreover have "card (waiting_on c a - {(next_slot a, r)}) \<le> card (waiting_on c a)"
    using fin by (intro card_mono) auto
  ultimately show ?case by (cases "asks c r") (simp_all add: asks_def)
next
  case (seq a rs evs b rs' evs' d)
  then show ?case using serves_finite [OF seq.hyps(1)] by fastforce
qed

lemma serves_late:
  "serves a rs evs b \<Longrightarrow>
     \<forall>w \<in> waits a. asks c (snd w) \<longrightarrow> fst w < next_slot a \<Longrightarrow>
     \<forall>r \<in> set rs. asks c r \<longrightarrow> Counter (rCommand r) < next_slot a \<Longrightarrow>
     (\<forall>w \<in> waits b. asks c (snd w) \<longrightarrow> fst w < next_slot b) \<and> filter (reply_to c) evs = []"
proof (induction rule: serves.induct)
  case (seq a rs evs b rs' evs' d)
  have "next_slot a \<le> next_slot b" by (rule serves_next [OF seq.hyps(1)])
  with seq show ?case by fastforce
qed (auto simp: accept_def apply_next_def asks_def)

section \<open>Answers\<close>

lemma start_waits: "waits \<lparr> waits = {}, next_slot = 0, store = d \<rparr> = {}"
  by simp

lemma answers_right:
  assumes "handle_all cfg is (NewConsensus cfg n) = (p, evs)"
    and "visible evs = pre @ SendReply r y # post"
  shows "r \<in> set (requests_of is) \<and>
    (\<exists>pre'. pre = pre' @ [Applied (Counter (rCommand r)) (rCommand r)] \<and>
       y = answer_to r (snd (run_all Execute (NewDatabase cfg) (map snd (applied pre')))))"
proof -
  have "answered (set (requests_of is)) (NewDatabase cfg) (visible evs)"
    using serves_answered [OF replica_serves [of cfg "is" n]] assms(1) by simp
  with assms(2) show ?thesis unfolding answered_def by blast
qed

text \<open>
  C8: every answer a replica sends is to a request it was given and comes right after it applied
  the request's command, in the slot the request's counter names; its value is the one the key
  had after the commands applied before.
\<close>

theorem replies_are_right:
  assumes "handle_all cfg is (NewConsensus cfg n) = (p, evs)"
    and "visible evs = pre @ SendReply r y # post"
  shows "r \<in> set (requests_of is) \<and>
    (\<exists>pre'. pre = pre' @ [Applied (Counter (rCommand r)) (rCommand r)] \<and>
       y = answer_to r (snd (run_all Execute (NewDatabase cfg) (map snd (applied pre')))))"
  using assms by (rule answers_right)

text \<open>A replica of a single node: a request, one vote, and the answer.\<close>

definition solo :: Config where
  "solo = MakeDefaultConfig\<lparr>cn := 1\<rparr>"

definition solo_request :: Request where
  "solo_request = zero_request\<lparr>rCommand := example_command 5 (Some [6]), rc := Some 7\<rparr>"

definition solo_vote :: "Command \<Rightarrow> Vote_msg" where
  "solo_vote c =
     \<lparr> vSlot = 0, vId = ''1.2'', vL = fmupd 0 \<lparr> cbCommand = c, cbSlot = 0, cbId = ''1.2'' \<rparr> fmempty \<rparr>"

lemma solo_steps:
  assumes "Counter (rCommand r) = 0"
  shows "\<exists>p1 m p2. HandleRequest r (NewConsensus solo n) = (p1, [Broadcast m]) \<and>
    HandleVote solo [0] (solo_vote (rCommand r)) p1 =
      (p2, [Applied 0 (rCommand r), SendReply r (answer_to r (NewDatabase solo))]) \<and> execute p2 = 1"
proof -
  let ?c = "rCommand r"
  obtain p1 m where h: "HandleRequest r (NewConsensus solo n) = (p1, [Broadcast m])"
    and p1: "execute p1 = 0" "db p1 = NewDatabase solo"
      "log p1 = fmupd 0 \<lparr> eballot = Ballot_Next 0 n, commit = False, request = Some r,
         ecommand = ?c, equorum = NewQuorum, received = False, Voted = True, leader = True, eSlot = 0 \<rparr> fmempty"
    using assms by (simp add: HandleRequest_def Propose_def Let_def NewConsensus_def)
  define e where "e = \<lparr> eballot = Ballot_Next 0 n, commit = True, request = Some r,
         ecommand = ?c, equorum = ACK NewQuorum ''1.2'', received = True, Voted = True, leader = True, eSlot = 0 \<rparr>"
  define q where "q = p1\<lparr>log := fmupd 0 e fmempty\<rparr>"
  have "Majority solo (ACK NewQuorum ''1.2'')"
    using Size_ACKs [of "[''1.2'']"]
    by (simp add: Majority_def solo_def MakeDefaultConfig_def Size_def go_div_pos)
  then have "HandleVote solo [0] (solo_vote ?c) p1 = exec solo q"
    by (simp add: HandleVote_def vote_entry_def p1 q_def e_def Let_def split_beta solo_vote_def)
  moreover have "exec solo q = (exec_next e q, [Applied 0 ?c, SendReply r (answer_to r (NewDatabase solo))])"
  proof -
    have "exec solo (exec_next e q) = (exec_next e q, [])"
      by (rule exec_missing) (simp add: q_def p1 fmlookup_drop)
    moreover have "reply_events e v = [SendReply r \<lparr> yCommand = ?c, yValue = v,
        yProperties = fmempty, yTimestamp = 0, yErr = None \<rparr>]" for v
      by (simp add: reply_events_def e_def)
    ultimately show ?thesis
      by (subst exec_apply [of q e]) (simp_all add: q_def p1 e_def vote_owed_def answer_to_def)
  qed
  ultimately show ?thesis using h by (simp add: q_def p1)
qed

definition solo_inputs :: "Input list" where
  "solo_inputs = [InRequest solo_request, InVote (solo_vote (example_command 5 (Some [6]))) [0]]"

lemma solo_run:
  "\<exists>p m. handle_all solo solo_inputs (NewConsensus solo ''1.1'') =
       (p, [Broadcast m, Applied 0 (example_command 5 (Some [6])),
            SendReply solo_request (answer_to solo_request (NewDatabase solo))]) \<and> execute p = 1"
proof -
  have c: "rCommand solo_request = example_command 5 (Some [6])" "Counter (example_command 5 (Some [6])) = 0"
    by (simp_all add: solo_request_def example_command_def)
  then show ?thesis
    using solo_steps [of solo_request "''1.1''"] by (auto simp: solo_inputs_def split_beta)
qed

theorem replies_are_right_witness:
  "\<exists>y pre'. [Applied 0 (example_command 5 (Some [6]))] =
       pre' @ [Applied (Counter (rCommand solo_request)) (rCommand solo_request)] \<and>
     y = answer_to solo_request (snd (run_all Execute (NewDatabase solo) (map snd (applied pre'))))"
proof -
  obtain p m where run: "handle_all solo solo_inputs (NewConsensus solo ''1.1'') =
       (p, [Broadcast m, Applied 0 (example_command 5 (Some [6])),
            SendReply solo_request (answer_to solo_request (NewDatabase solo))])"
    using solo_run by blast
  from replies_are_right [OF this, of "[Applied 0 (example_command 5 (Some [6]))]" solo_request _ "[]"]
  show ?thesis by simp
qed

lemma reply_count:
  "length (filter (reply_to c) (snd (handle_all cfg is (NewConsensus cfg n)))) \<le>
     length (filter (asks c) (requests_of is))"
  using serves_count [OF replica_serves [of cfg "is" n], of c] by (simp add: waiting_on_def)

text \<open>
  The number of answers sent on a channel is at most the number of requests that came with
  it, so the channel of one element that each request brings never blocks the replica.
\<close>

theorem at_most_one_reply:
  "length (filter (reply_to c) (snd (handle_all cfg is (NewConsensus cfg n)))) \<le>
     length (filter (asks c) (requests_of is))"
  by (rule reply_count)

section \<open>Requests that are never answered\<close>

lemma late_request_hangs:
  assumes run: "handle_all cfg is (NewConsensus cfg n) = (p, evs)"
    and late: "Counter (rCommand r) < execute p" and ch: "rc r = Some ch"
    and fresh: "\<forall>r' \<in> set (requests_of is) \<union> set (requests_of js). rc r' \<noteq> Some ch"
  shows "filter (reply_to ch) (snd (handle_all cfg (InRequest r # js) p)) = []"
proof -
  have p: "p = fst (handle_all cfg is (NewConsensus cfg n))" using run by simp
  have own: "own_slots p"
    using serving_handle_all [of "NewConsensus cfg n" "is" cfg]
    by (simp add: serving_def p own_slots_def NewConsensus_def)
  have "snd ` waits (service p) \<subseteq> set (requests_of is)"
    using serves_requests [OF replica_serves [of cfg "is" n]] by (simp add: p)
  then have nobody: "\<forall>w \<in> waits (service p). \<not> asks ch (snd w)"
    using fresh by (auto simp: asks_def)
  have "serves (service p) (requests_of (InRequest r # js))
      (visible (snd (handle_all cfg (InRequest r # js) p))) (service (fst (handle_all cfg (InRequest r # js) p)))"
    using serving_handle_all [of p "InRequest r # js" cfg] own unfolding serving_def by blast
  from serves_late [OF this, of ch] show ?thesis
    using nobody fresh late by (auto simp: asks_def service_def simp del: handle_all.simps)
qed

section \<open>The client's calls\<close>

text \<open>\<open>rest\<close> sends to the node given, or one of the client's zone, whatever \<open>GetURL\<close> picks.\<close>

definition rest_call ::
    "gid list \<Rightarrow> HTTPClient \<Rightarrow> gid \<Rightarrow> int \<Rightarrow> Value \<Rightarrow> int \<Rightarrow> int \<Rightarrow> rest_message" where
  "rest_call ord c i key v cnt g =
     rest_request (get_or [] (hHTTP c) (if i = [] then pick_node (hID c) i ord else i)) i key v cnt g"

definition RESTGet :: "gid list \<Rightarrow> HTTPClient \<Rightarrow> gid \<Rightarrow> int \<Rightarrow> rest_message" where
  "RESTGet ord c i key = rest_call ord c i key None (hCID c) 0"

definition RESTPut :: "gid list \<Rightarrow> HTTPClient \<Rightarrow> gid \<Rightarrow> int \<Rightarrow> Value \<Rightarrow> int \<Rightarrow> rest_message" where
  "RESTPut ord c i key v counter = rest_call ord c i key v (hCID c) counter"

definition client_Get :: "gid list \<Rightarrow> int \<Rightarrow> HTTPClient \<Rightarrow> HTTPClient \<times> rest_message" where
  "client_Get ord key c =
     (let c1 = c\<lparr>hCID := hCID c + 1\<rparr> in (c1, RESTGet ord c1 (hID c1) key))"

definition client_Put ::
    "Config \<Rightarrow> gid list \<Rightarrow> int \<Rightarrow> Value \<Rightarrow> int \<Rightarrow> client_globals \<Rightarrow> HTTPClient \<Rightarrow>
     (client_globals \<times> HTTPClient \<times> rest_message) outcome" where
  "client_Put cfg ord key v counter g c =
     (case Put_target cfg g c of
        Panic \<Rightarrow> Panic
      | Ret (g1, c1, i) \<Rightarrow> Ret (g1, c1, RESTPut ord c1 (hID c1) key v counter))"

text \<open>
  C20: once a replica has applied any command, a client's \<open>Get\<close> sent to it is never answered,
  whatever else happens: the client gives every read the slot 0.
\<close>

theorem reads_hang:
  assumes "handle_all cfg is (NewConsensus cfg n) = (p, evs)" and "0 < execute p"
    and "range_order ord (hHeader (wire extra (snd (client_Get ord' key c))))"
    and "handleRoot_request unmarshal n now ch ord (wire extra (snd (client_Get ord' key c))) = Inr r"
    and "\<forall>r' \<in> set (requests_of is) \<union> set (requests_of js). rc r' \<noteq> Some ch"
  shows "filter (reply_to ch) (snd (handle_all cfg (InRequest r # js) p)) = []"
proof -
  have "Counter (rCommand r) = 0 \<and> rc r = Some ch"
    using rest_slot [OF assms(3)[unfolded client_Get_def RESTGet_def rest_call_def Let_def snd_conv]] assms(4)
    by (auto simp: client_Get_def RESTGet_def rest_call_def Let_def)
  with late_request_hangs [OF assms(1) _ _ assms(5)] assms(2) show ?thesis by simp
qed

text \<open>The client of node 1.1 reads a key after the run above; the request has its own channel.\<close>

definition solo_client :: HTTPClient where
  "solo_client =
     \<lparr> hAddrs = fmempty, hHTTP = fmempty, hID = ''1.1'', hN = 1, hLocalN = 1, hC = - 1, hCID = 0 \<rparr>"

theorem reads_hang_witness:
  "\<exists>p evs r. handle_all solo solo_inputs (NewConsensus solo ''1.1'') = (p, evs) \<and>
     handleRoot_request (\<lambda>b c. c) ''1.1'' 0 8 [''Cid'', ''Count'', ''Id'']
       (wire fmempty (snd (client_Get [] 5 solo_client))) = Inr r \<and>
     filter (reply_to 8) (snd (handle_all solo [InRequest r] p)) = []"
proof -
  obtain p evs where run: "handle_all solo solo_inputs (NewConsensus solo ''1.1'') = (p, evs)"
    and x: "execute p = 1" using solo_run by blast
  have msg: "snd (client_Get [] 5 solo_client) = rest_request [] ''1.1'' 5 None 1 0"
    by (simp add: client_Get_def RESTGet_def rest_call_def solo_client_def)
  have ord: "range_order [''Cid'', ''Count'', ''Id''] (hHeader (wire fmempty (snd (client_Get [] 5 solo_client))))"
    unfolding msg
    by (auto simp: range_order_def wire_def rest_request_def header_set_def HTTPClientID_def
        HTTPCommandID_def HTTPClientCounter_def)
  obtain r where r: "handleRoot_request (\<lambda>b c. c) ''1.1'' 0 8 [''Cid'', ''Count'', ''Id'']
       (wire fmempty (snd (client_Get [] 5 solo_client))) = Inr r"
    using rest_read_back [OF ord [unfolded msg], of "\<lambda>b c. c" "''1.1''" 0 8] unfolding msg by auto
  have "filter (reply_to 8) (snd (handle_all solo (InRequest r # []) p)) = []"
    by (rule reads_hang [OF run _ ord r]) (simp_all add: x solo_inputs_def solo_request_def)
  with run r show ?thesis by blast
qed

end
