(* ===== verification/Processes.thy ===== *)
theory Processes
  imports Replies Nodes Network
begin

text \<open>
  The process of a replica: the node of \<open>node.go\<close>, the protocol of \<open>consensus.go\<close> behind the handlers
  that \<open>NewReplica\<close> registers, and the REST handler of \<open>http.go\<close>, put together as their goroutines
  are: one per REST call, one that receives, one that handles, and one for each request of another
  node. A step is what a goroutine does until it next waits; a step that cannot be made because a
  channel is full or empty is \<open>Blocks\<close>. What a handler broadcasts is the output of its step, and what
  becomes of each \<open>Broadcast\<close> call is an argument, which the socket of \<open>Sockets\<close> gives. A turn in which a
  \<open>Broadcast\<close> blocks or panics is not a step to another state: what it has done is a first part of the turn in
  which all of them return.
\<close>

section \<open>The process\<close>

text \<open>
  \<open>fresh\<close> numbers the reply channels, \<open>awaited\<close> are those on which a REST handler waits, with what
  it was called with and the request it made of it; \<open>fed\<close> and \<open>happened\<close> record what the protocol's handlers were called with and
  what they did.
\<close>

record Process =
  pnode :: node
  prep :: Consensus
  fresh :: nat
  awaited :: "(nat \<times> http_request \<times> Request) list"
  fed :: "Input list"
  happened :: "Event list"

definition start_process :: "Config \<Rightarrow> gid \<Rightarrow> Process outcome" where
  "start_process cfg i =
     (case NewReplica cfg i of
        Panic \<Rightarrow> Panic
      | Ret n \<Rightarrow> Ret \<lparr> pnode = n, prep = NewConsensus cfg i, fresh = 0, awaited = [], fed = [], happened = [] \<rparr>)"

text \<open>What \<open>Run\<close> starts: two goroutines if anything is registered, and then the server.\<close>

datatype goroutine = GoHandle | GoRecv | ServeHTTP

definition node_Run :: "node \<Rightarrow> goroutine list" where
  "node_Run n = (if len_map (handles n) > 0 then [GoHandle, GoRecv] else []) @ [ServeHTTP]"

text \<open>
  The function registered for a message, by its number, applied to it; a call with anything else is
  a panic of \<open>reflect\<close>. \<open>ord1\<close> and \<open>ord2\<close> are the orders of the handler's loops.
\<close>

fun handler_input :: "nat \<Rightarrow> packet \<Rightarrow> int list \<Rightarrow> int list \<Rightarrow> Input option" where
  "handler_input k (PRequest r) ord1 ord2 = (if k = 0 then Some (InRequest r) else None)"
| "handler_input k (PMessage (MPropose m)) ord1 ord2 = (if k = 1 then Some (InPropose m ord1 ord2) else None)"
| "handler_input k (PMessage (MVote v)) ord1 ord2 = (if k = 2 then Some (InVote v ord1) else None)"
| "handler_input k m ord1 ord2 = None"

text \<open>
  What a handler does outside its replica, one after the other: its calls of \<open>Broadcast\<close>, of which \<open>net k\<close> is
  the outcome of the one after \<open>k\<close> others, and the replies it sends on the channels of requests.
\<close>

fun emit :: "(nat \<Rightarrow> unit sync) \<Rightarrow> Event list \<Rightarrow> node \<Rightarrow> node sync" where
  "emit net [] n = Done n"
| "emit net (SendReply r y # evs) n = sbind (Request_Reply r y n) (emit net evs)"
| "emit net (Broadcast m # evs) n = sbind (net 0) (\<lambda>u. emit (\<lambda>k. net (Suc k)) evs n)"
| "emit net (Applied s c # evs) n = emit net evs n"

text \<open>
  \<open>Broadcast\<close> of a socket: \<open>Send\<close> for each target, which waits if there is no room in the queue of the target's
  transport, and panics if it cannot be dialled. \<open>net_of\<close> is what becomes of calls one after the other.
\<close>

fun send_each ::
    "(gid \<Rightarrow> nat \<Rightarrow> string option) \<Rightarrow> (gid \<Rightarrow> rat) \<Rightarrow> (gid \<Rightarrow> nat) \<Rightarrow> gid list \<Rightarrow> socket \<Rightarrow> socket sync" where
  "send_each dials roll room [] s = Done s"
| "send_each dials roll room (i # is) s =
     (case Send dials (roll i) i s of
        Panic \<Rightarrow> Panics
      | Ret (s1, f) \<Rightarrow> if f = Queued \<and> room i = 0 then Blocks else send_each dials roll room is s1)"

fun net_of ::
    "(gid \<Rightarrow> nat \<Rightarrow> string option) \<Rightarrow> (nat \<Rightarrow> gid \<Rightarrow> rat) \<Rightarrow> (nat \<Rightarrow> gid \<Rightarrow> nat) \<Rightarrow> (nat \<Rightarrow> gid list) \<Rightarrow> socket \<Rightarrow>
     nat \<Rightarrow> unit sync" where
  "net_of dials roll room ord s 0 =
     sbind (send_each dials (roll 0) (room 0) (broadcast_targets (ord 0) s) s) (\<lambda>s1. Done ())"
| "net_of dials roll room ord s (Suc k) =
     sbind (send_each dials (roll 0) (room 0) (broadcast_targets (ord 0) s) s)
       (\<lambda>s1. net_of dials (\<lambda>k. roll (Suc k)) (\<lambda>k. room (Suc k)) (\<lambda>k. ord (Suc k)) s1 k)"

datatype proc_op =
    PHttp int "string list" http_request
  | PRecv packet
  | PHandle "nat \<Rightarrow> unit sync" "int list" "int list"
  | PAnswer nat "string list"
  | PSend nat

datatype proc_out =
    Silent
  | Refuse http_response
  | Says "Message list"
  | Respond nat http_response
  | SendTo gid packet

fun proc_step ::
    "Config \<Rightarrow> (bytes \<Rightarrow> Command \<Rightarrow> Command) \<Rightarrow> proc_op \<Rightarrow> Process \<Rightarrow> (Process \<times> proc_out) sync" where
  "proc_step cfg unmarshal (PHttp now ord hr) s =
     (case handleRoot_request unmarshal (nid (pnode s)) now (fresh s) ord hr of
        Inl e \<Rightarrow> Done (s, Refuse (root_refusal e))
      | Inr r \<Rightarrow>
          sbind (push_message (PRequest r) (make_chan (fresh s) (pnode s)))
            (\<lambda>n. Done (s\<lparr>pnode := n, fresh := fresh s + 1, awaited := awaited s @ [(fresh s, hr, r)]\<rparr>, Silent)))"
| "proc_step cfg unmarshal (PRecv m) s =
     sbind (recv_step (fresh s) m (pnode s)) (\<lambda>n.
       Done (s\<lparr>pnode := n, fresh := (case m of PRequest r \<Rightarrow> fresh s + 1 | _ \<Rightarrow> fresh s)\<rparr>, Silent))"
| "proc_step cfg unmarshal (PHandle net ord1 ord2) s =
     sbind (handle_step (pnode s)) (\<lambda>(n, f, m).
       case handler_input (code f) m ord1 ord2 of
         None \<Rightarrow> Panics
       | Some inp \<Rightarrow>
           (let (p, evs) = handle cfg inp (prep s)
            in sbind (emit net evs n) (\<lambda>n1.
                 Done (s\<lparr>pnode := n1, prep := p, fed := fed s @ [inp], happened := happened s @ evs\<rparr>,
                       Says (broadcasts evs)))))"
| "proc_step cfg unmarshal (PAnswer c ord) s =
     (case fmlookup (reply_chans (pnode s)) c of
        Some (y # ys) \<Rightarrow>
          if c \<in> fst ` set (awaited s)
          then Done (s\<lparr>pnode := (pnode s)\<lparr>reply_chans := fmupd c ys (reply_chans (pnode s))\<rparr>,
                       awaited := filter (\<lambda>w. fst w \<noteq> c) (awaited s)\<rparr>,
                     Respond c (handleRoot_reply ord y))
          else Blocks
      | _ \<Rightarrow> Blocks)"
| "proc_step cfg unmarshal (PSend c) s =
     sbind (reply_step c (pnode s)) (\<lambda>(n, i, y). Done (s\<lparr>pnode := n\<rparr>, SendTo i (PReply y)))"

text \<open>
  The packets with a handler: requests and the messages of the protocol. Anything may arrive at a process; its
  REST calls are those whose headers the loop of \<open>handleRoot\<close> meets once each.
\<close>

fun from_peer :: "packet \<Rightarrow> bool" where
  "from_peer (PRequest r) = True"
| "from_peer (PMessage m) = True"
| "from_peer m = False"

fun admissible :: "proc_op \<Rightarrow> bool" where
  "admissible (PHttp now ord hr) = range_order ord (hHeader hr)"
| "admissible x = True"

inductive proc_reach :: "Config \<Rightarrow> (bytes \<Rightarrow> Command \<Rightarrow> Command) \<Rightarrow> gid \<Rightarrow> Process \<Rightarrow> bool" for cfg unmarshal i where
  start: "start_process cfg i = Ret s \<Longrightarrow> proc_reach cfg unmarshal i s"
| step: "proc_reach cfg unmarshal i s \<Longrightarrow> admissible x \<Longrightarrow> proc_step cfg unmarshal x s = Done (s', out) \<Longrightarrow>
     proc_reach cfg unmarshal i s'"

section \<open>What holds in every state\<close>

fun queued :: "packet list \<Rightarrow> Request list" where
  "queued [] = []"
| "queued (PRequest r # ms) = r # queued ms"
| "queued (m # ms) = queued ms"

lemma queued_append [simp]: "queued (xs @ ys) = queued xs @ queued ys"
  by (induction xs rule: queued.induct) simp_all

text \<open>A channel holds only what was sent on it, and is there from the moment its request is.\<close>

definition chans_ok :: "Process \<Rightarrow> bool" where
  "chans_ok s \<longleftrightarrow>
     (\<forall>c < fresh s. \<exists>ys. fmlookup (reply_chans (pnode s)) c = Some ys \<and>
        (filter (reply_to c) (happened s) = [] \<longrightarrow> ys = []) \<and>
        (\<forall>y \<in> set ys. \<exists>r. SendReply r y \<in> set (happened s) \<and> rc r = Some c))"

definition queue_ok :: "Process \<Rightarrow> bool" where
  "queue_ok s \<longleftrightarrow> handles (pnode s) = replica_handles \<and> forwards (pnode s) = fmempty"

definition made_from :: "(bytes \<Rightarrow> Command \<Rightarrow> Command) \<Rightarrow> gid \<Rightarrow> nat \<Rightarrow> http_request \<Rightarrow> Request \<Rightarrow> bool" where
  "made_from unmarshal i c hr r \<longleftrightarrow>
     (\<exists>now ord. range_order ord (hHeader hr) \<and> handleRoot_request unmarshal i now c ord hr = Inr r)"

definition seen :: "Process \<Rightarrow> Request list" where
  "seen s = requests_of (fed s) @ queued (MessageChan (pnode s))"

text \<open>The requests seen so far came each with a channel of its own, made by this process.\<close>

definition own_chans :: "Process \<Rightarrow> bool" where
  "own_chans s \<longleftrightarrow> distinct (map rc (seen s)) \<and> (\<forall>r \<in> set (seen s). \<exists>c < fresh s. rc r = Some c)"

text \<open>A REST handler waits for the answer to a request that it has put into the queue.\<close>

definition awaited_ok :: "(bytes \<Rightarrow> Command \<Rightarrow> Command) \<Rightarrow> gid \<Rightarrow> Process \<Rightarrow> bool" where
  "awaited_ok unmarshal i s \<longleftrightarrow> nid (pnode s) = i \<and>
     (\<forall>(c, hr, r) \<in> set (awaited s). rc r = Some c \<and> made_from unmarshal i c hr r \<and> r \<in> set (seen s))"

definition proc_ok :: "Config \<Rightarrow> (bytes \<Rightarrow> Command \<Rightarrow> Command) \<Rightarrow> gid \<Rightarrow> Process \<Rightarrow> bool" where
  "proc_ok cfg unmarshal i s \<longleftrightarrow>
     handle_all cfg (fed s) (NewConsensus cfg i) = (prep s, happened s) \<and>
     own_chans s \<and> chans_ok s \<and> queue_ok s \<and> awaited_ok unmarshal i s"

lemma NewReplica_node:
  assumes "0 \<le> ChanBufferSize cfg"
  shows "\<exists>n. NewReplica cfg i = Ret n \<and> handles n = replica_handles \<and> MessageChan n = [] \<and> nid n = i \<and>
     forwards n = fmempty \<and> reply_chans n = fmempty \<and> pending_sends n = [] \<and> chan_cap n = chan_room (ChanBufferSize cfg)"
proof -
  obtain n where n: "NewReplica cfg i = Ret n" by (rule NewReplica_possible [OF assms])
  from NewReplica_Ret [OF n] n show ?thesis by blast
qed

lemma start_ok: "start_process cfg i = Ret s \<Longrightarrow> proc_ok cfg unmarshal i s"
proof (cases "NewReplica cfg i")
  case (Ret n)
  moreover assume "start_process cfg i = Ret s"
  ultimately show ?thesis
    using NewReplica_Ret [OF Ret]
    by (auto simp: start_process_def proc_ok_def own_chans_def chans_ok_def queue_ok_def awaited_ok_def seen_def)
qed (simp add: start_process_def)

section \<open>Every step keeps it\<close>

lemma emit_fields:
  "emit net evs n = Done n' \<Longrightarrow>
     MessageChan n' = MessageChan n \<and> handles n' = handles n \<and> forwards n' = forwards n \<and> nid n' = nid n"
  by (induction net evs n rule: emit.induct) auto

lemma emit_chan:
  "emit net evs n = Done n' \<Longrightarrow> fmlookup (reply_chans n) c = Some ys \<Longrightarrow>
     \<exists>ys'. fmlookup (reply_chans n') c = Some ys' \<and> (filter (reply_to c) evs = [] \<longrightarrow> ys' = ys) \<and>
       (\<forall>y \<in> set ys'. y \<in> set ys \<or> (\<exists>r. SendReply r y \<in> set evs \<and> rc r = Some c))"
proof (induction net evs n arbitrary: ys rule: emit.induct)
  case (2 net r y evs n)
  then obtain d where d: "rc r = Some d" "fmlookup (reply_chans n) d = Some []"
    "emit net evs (n\<lparr>reply_chans := fmupd d [y] (reply_chans n)\<rparr>) = Done n'" by auto
  have "Request_Reply r y n = Done (n\<lparr>reply_chans := fmupd d [y] (reply_chans n)\<rparr>)" using d by simp
  note IH = "2.IH" [OF d(3)]
  show ?case
  proof (cases "d = c")
    case True
    from IH [of "[y]"] True obtain ys' where "fmlookup (reply_chans n') c = Some ys'"
      "\<forall>z \<in> set ys'. z \<in> set [y] \<or> (\<exists>r. SendReply r z \<in> set evs \<and> rc r = Some c)" by auto
    with d(1) True show ?thesis by (intro exI [of _ ys']) auto
  next
    case False
    from IH [of ys] False "2.prems"(2) obtain ys' where "fmlookup (reply_chans n') c = Some ys'"
      "filter (reply_to c) evs = [] \<longrightarrow> ys' = ys"
      "\<forall>z \<in> set ys'. z \<in> set ys \<or> (\<exists>r. SendReply r z \<in> set evs \<and> rc r = Some c)" by auto
    with d(1) False show ?thesis by (intro exI [of _ ys']) auto
  qed
qed auto

text \<open>The calls of \<open>Broadcast\<close> alone: the first that does not return is the outcome.\<close>

fun net_run :: "(nat \<Rightarrow> unit sync) \<Rightarrow> nat \<Rightarrow> unit sync" where
  "net_run net 0 = Done ()"
| "net_run net (Suc k) = sbind (net 0) (\<lambda>u. net_run (\<lambda>k. net (Suc k)) k)"

lemma sbind_assoc: "sbind (sbind x f) g = sbind x (\<lambda>y. sbind (f y) g)"
  by (cases x) simp_all

lemma net_run_calm: "\<forall>j < k. net j = Done () \<Longrightarrow> net_run net k = Done ()"
  by (induction k arbitrary: net) simp_all

lemma emit_possible:
  "\<forall>c. length (filter (reply_to c) evs) \<le> 1 \<Longrightarrow>
     \<forall>r y. SendReply r y \<in> set evs \<longrightarrow> (\<exists>c. rc r = Some c \<and> fmlookup (reply_chans n) c = Some []) \<Longrightarrow>
     \<exists>n'. \<forall>net. emit net evs n = sbind (net_run net (length (broadcasts evs))) (\<lambda>u. Done n')"
proof (induction evs arbitrary: n rule: broadcasts.induct)
  case (4 r y evs)
  from "4.prems"(2) have "\<exists>c. rc r = Some c \<and> fmlookup (reply_chans n) c = Some []" by (meson list.set_intros(1))
  then obtain c where c: "rc r = Some c" "fmlookup (reply_chans n) c = Some []" by blast
  let ?n = "n\<lparr>reply_chans := fmupd c [y] (reply_chans n)\<rparr>"
  have "filter (reply_to c) evs = []" using spec [OF "4.prems"(1), of c] c(1) by simp
  then have other: "rc r' \<noteq> Some c" if "SendReply r' y' \<in> set evs" for r' y'
    using that by (auto simp: filter_empty_conv)
  have "\<forall>d. length (filter (reply_to d) evs) \<le> 1"
  proof
    fix d show "length (filter (reply_to d) evs) \<le> 1"
      using spec [OF "4.prems"(1), of d] by (simp split: if_splits)
  qed
  moreover have "\<forall>r y. SendReply r y \<in> set evs \<longrightarrow> (\<exists>c. rc r = Some c \<and> fmlookup (reply_chans ?n) c = Some [])"
  proof (intro allI impI)
    fix r' y' assume reply: "SendReply r' y' \<in> set evs"
    with "4.prems"(2) obtain d where "rc r' = Some d" "fmlookup (reply_chans n) d = Some []"
      by (meson list.set_intros(2))
    with other [OF reply] show "\<exists>c. rc r' = Some c \<and> fmlookup (reply_chans ?n) c = Some []"
      by (intro exI [of _ d]) auto
  qed
  ultimately have "\<exists>n'. \<forall>net. emit net evs ?n = sbind (net_run net (length (broadcasts evs))) (\<lambda>u. Done n')"
    by (rule "4.IH")
  then show ?case using c by (simp add: Request_Reply_def)
next
  case (2 m evs)
  then obtain n' where "\<forall>net. emit net evs n = sbind (net_run net (length (broadcasts evs))) (\<lambda>u. Done n')" by fastforce
  then show ?case by (intro exI [of _ n']) (simp add: sbind_assoc)
qed auto

lemma requests_of_append [simp]: "requests_of (xs @ ys) = requests_of xs @ requests_of ys"
  by (induction xs rule: requests_of.induct) simp_all

lemma handler_requests:
  "handler_input k m ord1 ord2 = Some inp \<Longrightarrow> requests_of [inp] = queued [m]"
  by (cases "(k, m, ord1, ord2)" rule: handler_input.cases) (auto split: if_splits)

text \<open>The replies of a turn go to channels that are empty, one to each at most.\<close>

lemma turn_replies:
  assumes all: "handle_all cfg (inps @ [inp]) (NewConsensus cfg i) = (p, evs0 @ evs)"
    and own: "distinct (map rc (requests_of (inps @ [inp])))" "\<forall>r \<in> set (requests_of (inps @ [inp])). \<exists>c < k. rc r = Some c"
  shows "length (filter (reply_to c) (evs0 @ evs)) \<le> 1"
    and "SendReply r y \<in> set evs \<Longrightarrow> \<exists>c < k. rc r = Some c \<and> filter (reply_to c) evs0 = []"
proof -
  have asks: "length (filter (asks c) rs) \<le> 1" if "distinct (map rc rs)" for c and rs :: "Request list"
    using that
  proof (induction rs)
    case (Cons r rs)
    then show ?case by (cases "asks c r") (auto simp: asks_def filter_empty_conv image_iff)
  qed simp
  show one: "length (filter (reply_to c) (evs0 @ evs)) \<le> 1" for c
    using reply_count [of c cfg "inps @ [inp]" i] asks [OF own(1), of c] by (simp add: all)
  assume r: "SendReply r y \<in> set evs"
  then have "SendReply r y \<in> set (visible (evs0 @ evs))" by (simp only: visible_SendReply) simp
  then obtain pre post where "visible (evs0 @ evs) = pre @ SendReply r y # post" by (meson split_list)
  from answers_right [OF all this] have "r \<in> set (requests_of (inps @ [inp]))" by blast
  then obtain c where c: "c < k" "rc r = Some c" using own(2) by blast
  have "filter (reply_to c) evs \<noteq> []" using r c(2) by (auto simp: filter_empty_conv intro: bexI [OF _ r])
  then have "0 < length (filter (reply_to c) evs)" by simp
  moreover have "length (filter (reply_to c) evs0) + length (filter (reply_to c) evs) \<le> 1"
    using one [of c] by simp
  ultimately have "filter (reply_to c) evs0 = []" by (cases "filter (reply_to c) evs0") simp_all
  with c show "\<exists>c < k. rc r = Some c \<and> filter (reply_to c) evs0 = []" by blast
qed

text \<open>A new request in the queue, with a new channel.\<close>

lemma accept_ok:
  assumes s: "proc_ok cfg unmarshal i s" and r: "rc r = Some (fresh s)"
    and n: "nid n = nid (pnode s)" "handles n = handles (pnode s)"
      "MessageChan n = MessageChan (pnode s) @ [PRequest r]"
      "reply_chans n = fmupd (fresh s) [] (reply_chans (pnode s))" "forwards n = forwards (pnode s)"
    and a: "\<forall>(c, hr, r') \<in> set aw. (c, hr, r') \<in> set (awaited s) \<or>
      c = fresh s \<and> r' = r \<and> made_from unmarshal i c hr r"
  shows "proc_ok cfg unmarshal i (s\<lparr>pnode := n, fresh := fresh s + 1, awaited := aw\<rparr>)" (is "proc_ok _ _ _ ?t")
proof -
  have seen: "seen ?t = seen s @ [r]" by (simp add: seen_def n)
  have old: "\<forall>r' \<in> set (seen s). rc r' \<noteq> Some (fresh s)"
    using s unfolding proc_ok_def own_chans_def by fastforce
  moreover have "distinct (map rc (seen s))" "\<forall>r' \<in> set (seen s). \<exists>c < fresh s. rc r' = Some c"
    using s by (simp_all add: proc_ok_def own_chans_def)
  ultimately have "own_chans ?t" unfolding own_chans_def seen using r by (auto intro: less_SucI)
  moreover have "filter (reply_to (fresh s)) (happened s) = []"
  proof -
    have "\<forall>r' \<in> set (requests_of (fed s)). \<not> asks (fresh s) r'"
      using old by (auto simp: seen_def asks_def)
    then have "length (filter (asks (fresh s)) (requests_of (fed s))) = 0" by simp
    then show ?thesis using reply_count [of "fresh s" cfg "fed s" i] s by (simp add: proc_ok_def)
  qed
  then have "chans_ok ?t" using s by (auto simp: proc_ok_def chans_ok_def n less_Suc_eq)
  moreover have "queue_ok ?t" using s by (simp add: proc_ok_def queue_ok_def n)
  moreover have "awaited_ok unmarshal i ?t"
    unfolding awaited_ok_def
  proof (intro conjI ballI)
    have aw: "awaited_ok unmarshal i s" using s by (simp add: proc_ok_def)
    then show "nid (pnode ?t) = i" by (simp add: awaited_ok_def n)
    fix w assume w: "w \<in> set (awaited ?t)"
    obtain c hr r' where w': "w = (c, hr, r')" by (cases w) auto
    have "w \<in> set (awaited s) \<or> c = fresh s \<and> r' = r \<and> made_from unmarshal i c hr r"
      using a w by (simp add: w') blast
    with aw r show "case w of (c, hr, r) \<Rightarrow> rc r = Some c \<and> made_from unmarshal i c hr r \<and> r \<in> set (seen ?t)"
      unfolding awaited_ok_def seen by (auto simp: w')
  qed
  ultimately show ?thesis using s by (simp add: proc_ok_def)
qed

lemma receive_ok:
  assumes s: "proc_ok cfg unmarshal i s" and step: "recv_step (fresh s) m (pnode s) = Done n"
  shows "proc_ok cfg unmarshal i (s\<lparr>pnode := n, fresh := (case m of PRequest r \<Rightarrow> fresh s + 1 | _ \<Rightarrow> fresh s)\<rparr>)"
proof -
  have none: "forwards (pnode s) = fmempty" using s by (simp add: proc_ok_def queue_ok_def)
  have other: ?thesis if "n = (pnode s)\<lparr>MessageChan := MessageChan (pnode s) @ [m]\<rparr>" "queued [m] = []"
    "\<forall>r. m \<noteq> PRequest r"
    using s that by (cases m) (simp_all add: proc_ok_def own_chans_def chans_ok_def queue_ok_def awaited_ok_def seen_def)
  show ?thesis
  proof (cases m)
    case (PRequest r)
    have "proc_ok cfg unmarshal i (s\<lparr>pnode := n, fresh := fresh s + 1, awaited := awaited s\<rparr>)"
      using recv_step_Done [OF step] step
      by (intro accept_ok [OF s, of "r\<lparr>rc := Some (fresh s)\<rparr>"])
        (auto simp: PRequest recv_step_def make_chan_def)
    then show ?thesis by (simp add: PRequest)
  next
    case (PReply y)
    then show ?thesis using step none by (simp add: recv_step_def)
  qed (use step other in \<open>simp_all add: recv_step_def\<close>)
qed

text \<open>A turn of the goroutine that handles: it is always done, if there is a message.\<close>

lemma emit_chans:
  assumes chans: "chans_ok s" and n': "emit net evs ((pnode s)\<lparr>MessageChan := ms\<rparr>) = Done n'"
  shows "chans_ok (s\<lparr>pnode := n', prep := p, fed := inps, happened := happened s @ evs\<rparr>)" (is "chans_ok ?s")
  unfolding chans_ok_def
proof (intro allI impI)
  fix c assume "c < fresh ?s"
  with chans obtain ys where ys: "fmlookup (reply_chans (pnode s)) c = Some ys"
    "filter (reply_to c) (happened s) = [] \<longrightarrow> ys = []"
    "\<forall>y \<in> set ys. \<exists>r. SendReply r y \<in> set (happened s) \<and> rc r = Some c"
    unfolding chans_ok_def by auto
  from emit_chan [OF n', of c ys] ys(1) obtain zs where zs: "fmlookup (reply_chans n') c = Some zs"
    "filter (reply_to c) evs = [] \<longrightarrow> zs = ys"
    "\<forall>y \<in> set zs. y \<in> set ys \<or> (\<exists>r. SendReply r y \<in> set evs \<and> rc r = Some c)" by auto
  then show "\<exists>ys. fmlookup (reply_chans (pnode ?s)) c = Some ys \<and>
      (filter (reply_to c) (happened ?s) = [] \<longrightarrow> ys = []) \<and>
      (\<forall>y \<in> set ys. \<exists>r. SendReply r y \<in> set (happened ?s) \<and> rc r = Some c)"
    using ys by (intro exI [of _ zs]) auto
qed

lemma turn:
  assumes s: "proc_ok cfg unmarshal i s" and m: "MessageChan (pnode s) = m # ms" and peer: "from_peer m"
  shows "\<exists>s' out. (\<forall>net. proc_step cfg unmarshal (PHandle net ord1 ord2) s =
      sbind (net_run net (length out)) (\<lambda>u. Done (s', Says out))) \<and> proc_ok cfg unmarshal i s'"
proof -
  let ?n = "(pnode s)\<lparr>MessageChan := ms\<rparr>"
  have hs: "handles (pnode s) = replica_handles" using s by (simp add: proc_ok_def queue_ok_def)
  have "\<exists>f inp. handle_step (pnode s) = Done (?n, f, m) \<and> handler_input (code f) m ord1 ord2 = Some inp"
    using peer m hs by (cases "(0 :: nat, m, ord1, ord2)" rule: handler_input.cases) (auto simp: replica_handles_def)
  then obtain f inp where f: "handle_step (pnode s) = Done (?n, f, m)" "handler_input (code f) m ord1 ord2 = Some inp"
    by blast
  obtain p evs where p: "handle cfg inp (prep s) = (p, evs)" by fastforce
  have all: "handle_all cfg (fed s @ [inp]) (NewConsensus cfg i) = (p, happened s @ evs)"
    using s p by (simp add: proc_ok_def handle_all_append)
  have seen: "requests_of (fed s @ [inp]) @ queued ms = seen s"
    using handler_requests [OF f(2)] m by (cases m) (simp_all add: seen_def)
  have own: "distinct (map rc (requests_of (fed s @ [inp]) @ queued ms))"
    "\<forall>r \<in> set (requests_of (fed s @ [inp]) @ queued ms). \<exists>c < fresh s. rc r = Some c"
    unfolding seen using s by (simp_all add: proc_ok_def own_chans_def)
  then have own': "distinct (map rc (requests_of (fed s @ [inp])))"
    "\<forall>r \<in> set (requests_of (fed s @ [inp])). \<exists>c < fresh s. rc r = Some c" by auto
  note replies = turn_replies [OF all own']
  have chans: "chans_ok s" using s by (simp add: proc_ok_def)
  have "\<exists>n'. \<forall>net. emit net evs ?n = sbind (net_run net (length (broadcasts evs))) (\<lambda>u. Done n')"
  proof (rule emit_possible)
    show "\<forall>c. length (filter (reply_to c) evs) \<le> 1" using replies(1) by (metis add_leD2 filter_append length_append)
    show "\<forall>r y. SendReply r y \<in> set evs \<longrightarrow> (\<exists>c. rc r = Some c \<and> fmlookup (reply_chans ?n) c = Some [])"
    proof (intro allI impI)
      fix r y assume "SendReply r y \<in> set evs"
      from replies(2) [OF this] obtain c where c: "c < fresh s" "rc r = Some c" "filter (reply_to c) (happened s) = []"
        by blast
      with chans show "\<exists>c. rc r = Some c \<and> fmlookup (reply_chans ?n) c = Some []"
        unfolding chans_ok_def by fastforce
    qed
  qed
  then obtain n' where emit: "\<forall>net. emit net evs ?n = sbind (net_run net (length (broadcasts evs))) (\<lambda>u. Done n')" ..
  then have n': "emit (\<lambda>k. Done ()) evs ?n = Done n'" by (simp add: net_run_calm del: sbind_Done)
  let ?s = "s\<lparr>pnode := n', prep := p, fed := fed s @ [inp], happened := happened s @ evs\<rparr>"
  have "proc_step cfg unmarshal (PHandle net ord1 ord2) s =
      sbind (net_run net (length (broadcasts evs))) (\<lambda>u. Done (?s, Says (broadcasts evs)))" for net
    using f p emit by (simp add: sbind_assoc del: sbind_Done handle_step_Done)
  moreover have fields: "MessageChan n' = ms" "handles n' = replica_handles" "nid n' = nid (pnode s)"
      "forwards n' = forwards (pnode s)"
    using emit_fields [OF n'] hs by simp_all
  have seen': "seen ?s = seen s" using seen by (simp add: seen_def fields)
  have "chans_ok ?s" by (rule emit_chans [OF chans n'])
  then have "proc_ok cfg unmarshal i ?s"
    using s all m by (simp add: proc_ok_def own_chans_def queue_ok_def awaited_ok_def seen' fields split_beta)
  ultimately show ?thesis by blast
qed

text \<open>A packet without a handler ends the process.\<close>

lemma no_turn:
  assumes "MessageChan (pnode s) = m # ms" "\<not> from_peer m"
  shows "proc_step cfg unmarshal (PHandle net ord1 ord2) s \<in> {Panics, Fatal}"
  using assms by (cases m) (auto simp: handle_step_def del: handle_step_Done split: option.splits)

lemma turn_head:
  assumes "proc_step cfg unmarshal (PHandle net ord1 ord2) s = Done r"
  obtains m ms where "MessageChan (pnode s) = m # ms" "from_peer m"
proof (cases "MessageChan (pnode s)")
  case Nil
  with assms show thesis by simp
next
  case (Cons m ms)
  with no_turn [OF Cons, of cfg unmarshal net ord1 ord2] assms that show thesis
    by (cases "from_peer m") (simp_all del: proc_step.simps)
qed

text \<open>Taking a reply out of a channel.\<close>

lemma take_reply_ok:
  assumes s: "proc_ok cfg unmarshal i s" and y: "fmlookup (reply_chans (pnode s)) c = Some (y # ys)"
    and n: "reply_chans n = fmupd c ys (reply_chans (pnode s))" "MessageChan n = MessageChan (pnode s)"
      "handles n = handles (pnode s)" "nid n = nid (pnode s)" "forwards n = forwards (pnode s)"
    and a: "set aw \<subseteq> set (awaited s)"
  shows "proc_ok cfg unmarshal i (s\<lparr>pnode := n, awaited := aw\<rparr>)"
proof -
  have "chans_ok (s\<lparr>pnode := n, awaited := aw\<rparr>)"
    unfolding chans_ok_def
  proof (intro allI impI)
    fix d assume "d < fresh (s\<lparr>pnode := n, awaited := aw\<rparr>)"
    with s obtain zs where "fmlookup (reply_chans (pnode s)) d = Some zs"
      "filter (reply_to d) (happened s) = [] \<longrightarrow> zs = []"
      "\<forall>y \<in> set zs. \<exists>r. SendReply r y \<in> set (happened s) \<and> rc r = Some d"
      unfolding proc_ok_def chans_ok_def by auto
    with y show "\<exists>ys. fmlookup (reply_chans (pnode (s\<lparr>pnode := n, awaited := aw\<rparr>))) d = Some ys \<and>
        (filter (reply_to d) (happened (s\<lparr>pnode := n, awaited := aw\<rparr>)) = [] \<longrightarrow> ys = []) \<and>
        (\<forall>y \<in> set ys. \<exists>r. SendReply r y \<in> set (happened (s\<lparr>pnode := n, awaited := aw\<rparr>)) \<and> rc r = Some d)"
      by (cases "d = c") (auto simp: n)
  qed
  with s a show ?thesis
    by (auto simp: proc_ok_def own_chans_def queue_ok_def awaited_ok_def seen_def n)
qed

lemma proc_step_ok:
  assumes s: "proc_ok cfg unmarshal i s" and x: "admissible x" and step: "proc_step cfg unmarshal x s = Done (s', out)"
  shows "proc_ok cfg unmarshal i s'"
proof (cases x)
  case (PHttp now ord hr)
  show ?thesis
  proof (cases "handleRoot_request unmarshal (nid (pnode s)) now (fresh s) ord hr")
    case (Inl e)
    with step s PHttp show ?thesis by simp
  next
    case (Inr r)
    let ?n = "(make_chan (fresh s) (pnode s))\<lparr>MessageChan := MessageChan (pnode s) @ [PRequest r]\<rparr>"
    have s': "s' = s\<lparr>pnode := ?n, fresh := fresh s + 1, awaited := awaited s @ [(fresh s, hr, r)]\<rparr>"
      using step by (auto simp: PHttp Inr make_chan_def)
    have "made_from unmarshal i (fresh s) hr r"
      using Inr x s by (auto simp: made_from_def PHttp proc_ok_def awaited_ok_def)
    moreover have "rc r = Some (fresh s)"
      using Inr by (auto simp: handleRoot_request_def Let_def split: sum.splits prod.splits)
    ultimately show ?thesis unfolding s'
      by (intro accept_ok [OF s]) (auto simp: make_chan_def)
  qed
next
  case (PRecv m)
  with step obtain n where "recv_step (fresh s) m (pnode s) = Done n"
    "s' = s\<lparr>pnode := n, fresh := (case m of PRequest r \<Rightarrow> fresh s + 1 | _ \<Rightarrow> fresh s)\<rparr>" by auto
  with receive_ok [OF s] PRecv show ?thesis by simp
next
  case (PHandle net ord1 ord2)
  with step obtain m ms where m: "MessageChan (pnode s) = m # ms" "from_peer m"
    using turn_head [of cfg unmarshal net ord1 ord2 s] by blast
  from turn [OF s this, of ord1 ord2] obtain t evs where
    "\<forall>net. proc_step cfg unmarshal (PHandle net ord1 ord2) s = sbind (net_run net (length evs)) (\<lambda>u. Done (t, Says evs))"
    "proc_ok cfg unmarshal i t" by blast
  with step PHandle show ?thesis by (simp del: proc_step.simps)
next
  case (PAnswer c ord)
  with step obtain y ys where y: "fmlookup (reply_chans (pnode s)) c = Some (y # ys)"
    and s': "s' = s\<lparr>pnode := (pnode s)\<lparr>reply_chans := fmupd c ys (reply_chans (pnode s))\<rparr>,
       awaited := filter (\<lambda>w. fst w \<noteq> c) (awaited s)\<rparr>"
    by (auto split: option.splits list.splits if_splits)
  show ?thesis unfolding s' by (rule take_reply_ok [OF s y]) auto
next
  case (PSend c)
  with step obtain n j y where r: "reply_step c (pnode s) = Done (n, j, y)" "s' = s\<lparr>pnode := n\<rparr>" by auto
  then obtain ys where "fmlookup (reply_chans (pnode s)) c = Some (y # ys)"
    "n = (pnode s)\<lparr>reply_chans := fmupd c ys (reply_chans (pnode s)),
       pending_sends := filter (\<lambda>w. fst w \<noteq> c) (pending_sends (pnode s))\<rparr>" by auto
  from take_reply_ok [OF s this(1), of n "awaited s"] this(2) show ?thesis by (simp add: r(2))
qed

lemma reach_ok: "proc_reach cfg unmarshal i s \<Longrightarrow> proc_ok cfg unmarshal i s"
  by (induction rule: proc_reach.induct) (simp_all add: start_ok proc_step_ok)

section \<open>What a process can be relied on for\<close>

lemma send_each_healthy:
  "healthy dials s \<Longrightarrow> set is \<subseteq> fmdom' (addresses s) \<Longrightarrow> \<forall>i \<in> set is. 0 < room i \<Longrightarrow>
     \<exists>s1. send_each dials roll room is s = Done s1 \<and> healthy dials s1 \<and> addresses s1 = addresses s"
proof (induction "is" arbitrary: s)
  case (Cons i "is")
  from Cons.prems(2) have "fmlookup (addresses s) i \<noteq> None" by (auto simp: fmlookup_dom'_iff)
  from Send_healthy [OF Cons.prems(1) this, of "roll i"] obtain s1 where
    s1: "Send dials (roll i) i s = Ret (s1, Queued)" "healthy dials s1" "addresses s1 = addresses s"
    by blast
  with Cons.IH [OF s1(2)] Cons.prems(2,3) show ?case by auto
qed simp

lemma net_of_healthy:
  "healthy dials s \<Longrightarrow> \<forall>k. set (ord k) \<subseteq> fmdom' (addresses s) \<Longrightarrow> \<forall>k. \<forall>i \<in> set (ord k). 0 < room k i \<Longrightarrow>
     net_of dials roll room ord s k = Done ()"
proof (induction k arbitrary: s roll room ord)
  case (0 s roll room ord)
  have "set (broadcast_targets (ord 0) s) \<subseteq> set (ord 0)" by (auto simp: broadcast_targets_def)
  then show ?case using send_each_healthy [OF "0.prems"(1), of "broadcast_targets (ord 0) s" "room 0" "roll 0"] "0.prems"(2,3)
    by (auto simp: subset_iff)
next
  case (Suc k s roll room ord)
  have "set (broadcast_targets (ord 0) s) \<subseteq> set (ord 0)" by (auto simp: broadcast_targets_def)
  then obtain s1 where "send_each dials (roll 0) (room 0) (broadcast_targets (ord 0) s) s = Done s1"
    "healthy dials s1" "addresses s1 = addresses s"
    using send_each_healthy [OF Suc.prems(1), of "broadcast_targets (ord 0) s" "room 0" "roll 0"] Suc.prems(2,3)
    by (auto simp: subset_iff)
  then show ?case using Suc.IH [of s1 "\<lambda>k. ord (Suc k)" "\<lambda>k. room (Suc k)"] Suc.prems(2,3) by simp
qed

text \<open>
  C9: In every state that the goroutines of a replica reach, in whatever order they run and whatever their peers
  and the REST clients send, handling a message of the protocol or a request can get stuck or panic only in a
  \<open>Broadcast\<close>: the outcome of the turn is that of its calls of \<open>Broadcast\<close>, and if they return, as they do
  when no fault is injected, every dial succeeds in time and there is room in the transports' queues, the turn is done,
  with all the replies it causes, as each finds its channel empty. Any other packet ends the process when its turn
  comes.
\<close>

theorem handling_never_blocks:
  assumes "proc_reach cfg unmarshal i s" and "MessageChan (pnode s) = m # ms"
  shows "(from_peer m \<longrightarrow>
      (\<exists>s' out. (\<forall>net. proc_step cfg unmarshal (PHandle net ord1 ord2) s =
           sbind (net_run net (length out)) (\<lambda>u. Done (s', Says out))) \<and>
         (\<forall>dials roll room ord sock.
           healthy dials sock \<longrightarrow> (\<forall>k. range_order (ord k) (addresses sock) \<and> (\<forall>j \<in> set (ord k). 0 < room k j)) \<longrightarrow>
           proc_step cfg unmarshal (PHandle (net_of dials roll room ord sock) ord1 ord2) s = Done (s', Says out)))) \<and>
    (\<not> from_peer m \<longrightarrow> proc_step cfg unmarshal (PHandle net ord1 ord2) s \<in> {Panics, Fatal})"
proof (intro conjI impI)
  assume "from_peer m"
  from turn [OF reach_ok [OF assms(1)] assms(2) this] obtain s' out where
    t: "\<forall>net. proc_step cfg unmarshal (PHandle net ord1 ord2) s = sbind (net_run net (length out)) (\<lambda>u. Done (s', Says out))"
    by blast
  moreover have "proc_step cfg unmarshal (PHandle (net_of dials roll room ord sock) ord1 ord2) s = Done (s', Says out)"
    if "healthy dials sock" "\<forall>k. range_order (ord k) (addresses sock) \<and> (\<forall>j \<in> set (ord k). 0 < room k j)"
    for dials roll room ord sock
    using t net_run_calm [of "length out" "net_of dials roll room ord sock"] net_of_healthy [OF that(1), of ord room] that(2)
    by (simp add: range_order_def)
  ultimately show "\<exists>s' out. (\<forall>net. proc_step cfg unmarshal (PHandle net ord1 ord2) s =
           sbind (net_run net (length out)) (\<lambda>u. Done (s', Says out))) \<and>
         (\<forall>dials roll room ord sock.
           healthy dials sock \<longrightarrow> (\<forall>k. range_order (ord k) (addresses sock) \<and> (\<forall>j \<in> set (ord k). 0 < room k j)) \<longrightarrow>
           proc_step cfg unmarshal (PHandle (net_of dials roll room ord sock) ord1 ord2) s = Done (s', Says out))"
    by blast
qed (use no_turn [OF assms(2)] in simp)

lemma call_answered:
  assumes "proc_reach cfg unmarshal i s"
    and "(c, wire extra (rest_request base j key v cnt g), r) \<in> set (awaited s)"
    and "- (2 ^ 63) \<le> key" "key < 2 ^ 63" "- (2 ^ 63) \<le> cnt" "cnt < 2 ^ 63" "- (2 ^ 63) \<le> g" "g < 2 ^ 63"
    and "proc_step cfg unmarshal (PAnswer c []) s = Done (s', out)"
  shows "\<exists>pre y post.
    visible (happened s) = pre @ [Applied g \<lparr> Key = key, Value = v, ClientID = j, CommandID = cnt, Counter = g \<rparr>,
      SendReply r y] @ post \<and>
    out = Respond c \<lparr> status = 200, wHeader = header_set HTTPCommandID (print_int cnt) (header_set HTTPClientID j fmempty),
      wBody = content (db_Get (snd (run_all Execute (NewDatabase cfg) (map snd (applied pre)))) key) \<rparr>"
proof -
  have ok: "proc_ok cfg unmarshal i s" by (rule reach_ok [OF assms(1)])
  let ?c = "\<lparr> Key = key, Value = v, ClientID = j, CommandID = cnt, Counter = g \<rparr>"
  have aw: "rc r = Some c" "made_from unmarshal i c (wire extra (rest_request base j key v cnt g)) r" "r \<in> set (seen s)"
    using ok assms(2) unfolding proc_ok_def awaited_ok_def by auto
  then have r: "rCommand r = ?c"
    using rest_read_back [OF _ assms(3-8)] unfolding made_from_def by (metis Request.select_convs(1) sum.inject(2))
  obtain y ys where y: "fmlookup (reply_chans (pnode s)) c = Some (y # ys)" and out: "out = Respond c (handleRoot_reply [] y)"
    using assms(9) by (auto split: option.splits list.splits if_splits)
  have "c < fresh s" using ok aw(1,3) unfolding proc_ok_def own_chans_def by fastforce
  with ok y obtain r' where r': "SendReply r' y \<in> set (happened s)" "rc r' = Some c"
    unfolding proc_ok_def chans_ok_def by fastforce
  then obtain pre post where split: "visible (happened s) = pre @ SendReply r' y # post"
    by (metis visible_SendReply split_list)
  have all: "handle_all cfg (fed s) (NewConsensus cfg i) = (prep s, happened s)" using ok by (simp add: proc_ok_def)
  from answers_right [OF all split] obtain pre' where pre': "r' \<in> set (requests_of (fed s))"
    "pre = pre' @ [Applied (Counter (rCommand r')) (rCommand r')]"
    "y = answer_to r' (snd (run_all Execute (NewDatabase cfg) (map snd (applied pre'))))" by blast
  have "inj_on rc (set (seen s))" using ok by (simp add: proc_ok_def own_chans_def distinct_map)
  moreover have "r' \<in> set (seen s)" using pre'(1) by (simp add: seen_def)
  ultimately have "r' = r" using aw(1,3) r'(2) by (simp add: inj_on_def)
  with split pre' r show ?thesis
    by (intro exI [of _ pre'] exI [of _ y] exI [of _ post])
      (simp add: out handleRoot_reply_def answer_to_def Execute_def db_Get_def Let_def)
qed

text \<open>
  C10: From the REST client to its answer: when the handler of a call that the client library made
  gets a reply, the replica has just applied the command that the client meant, in the slot it asked for;
  the response is a success with the client's name and command number in its headers, and its body is
  the value the key had after the commands applied before.
\<close>

theorem rest_call_answered:
  assumes "proc_reach cfg unmarshal i s"
    and "(c, wire extra (rest_request base j key v cnt g), r) \<in> set (awaited s)"
    and "- (2 ^ 63) \<le> key" "key < 2 ^ 63" "- (2 ^ 63) \<le> cnt" "cnt < 2 ^ 63" "- (2 ^ 63) \<le> g" "g < 2 ^ 63"
    and "proc_step cfg unmarshal (PAnswer c []) s = Done (s', out)"
  shows "\<exists>pre y post.
    visible (happened s) = pre @ [Applied g \<lparr> Key = key, Value = v, ClientID = j, CommandID = cnt, Counter = g \<rparr>,
      SendReply r y] @ post \<and>
    out = Respond c \<lparr> status = 200, wHeader = header_set HTTPCommandID (print_int cnt) (header_set HTTPClientID j fmempty),
      wBody = content (db_Get (snd (run_all Execute (NewDatabase cfg) (map snd (applied pre)))) key) \<rparr>"
  using assms by (rule call_answered)

section \<open>A process alone\<close>

text \<open>A write over REST, the vote of another replica for it, and the answer.\<close>

definition solo_call :: http_request where
  "solo_call = wire fmempty (rest_request [] ''1.1'' 5 (Some [6]) 0 0)"

definition solo_command :: Command where
  "solo_command = \<lparr> Key = 5, Value = Some [6], ClientID = ''1.1'', CommandID = 0, Counter = 0 \<rparr>"

definition solo_ops :: "proc_op list" where
  "solo_ops = [PHttp 0 [''Cid'', ''Count'', ''Id''] solo_call, PHandle (\<lambda>k. Done ()) [] [],
     PRecv (PMessage (MVote (solo_vote solo_command))), PHandle (\<lambda>k. Done ()) [0] []]"

fun proc_run ::
    "Config \<Rightarrow> (bytes \<Rightarrow> Command \<Rightarrow> Command) \<Rightarrow> proc_op list \<Rightarrow> Process \<Rightarrow> Process sync" where
  "proc_run cfg unmarshal [] s = Done s"
| "proc_run cfg unmarshal (x # xs) s = sbind (proc_step cfg unmarshal x s) (\<lambda>(s1, out). proc_run cfg unmarshal xs s1)"

lemma proc_run_Cons:
  assumes "proc_run cfg unmarshal (x # xs) s = Done s'"
  obtains s1 out where "proc_step cfg unmarshal x s = Done (s1, out)" "proc_run cfg unmarshal xs s1 = Done s'"
  using assms by auto

lemma run_reach:
  "proc_run cfg unmarshal xs s = Done s' \<Longrightarrow> \<forall>x \<in> set xs. admissible x \<Longrightarrow> proc_reach cfg unmarshal i s \<Longrightarrow>
     proc_reach cfg unmarshal i s'"
proof (induction xs arbitrary: s)
  case (Cons x xs)
  then obtain s1 out where "proc_step cfg unmarshal x s = Done (s1, out)" "proc_run cfg unmarshal xs s1 = Done s'"
    by auto
  with Cons proc_reach.step [of cfg unmarshal i s x s1 out] show ?case by simp
qed simp

lemma solo_headers: "range_order [''Cid'', ''Count'', ''Id''] (hHeader solo_call)"
  by (auto simp: range_order_def solo_call_def wire_def rest_request_def header_set_def HTTPClientID_def
      HTTPCommandID_def HTTPClientCounter_def)

lemma solo_process:
  "\<exists>s0 s r. start_process solo ''1.1'' = Ret s0 \<and> proc_run solo (\<lambda>b c. c) solo_ops s0 = Done s \<and>
     awaited s = [(0, solo_call, r)] \<and> fmlookup (reply_chans (pnode s)) 0 = Some [answer_to r (NewDatabase solo)]"
proof -
  obtain n where n: "NewReplica solo ''1.1'' = Ret n" "handles n = replica_handles" "MessageChan n = []"
    "nid n = ''1.1''" "chan_cap n = chan_room (ChanBufferSize solo)"
    using NewReplica_node [of solo "''1.1''"] by (auto simp: solo_def MakeDefaultConfig_def)
  then have cap: "0 < chan_cap n" by (simp add: chan_room_def)
  obtain props where r: "handleRoot_request (\<lambda>b c. c) ''1.1'' 0 0 [''Cid'', ''Count'', ''Id''] solo_call =
      Inr \<lparr> rCommand = solo_command, rProperties = props, rTimestamp = 0, rNodeID = ''1.1'', rc = Some 0, rError = None \<rparr>"
    using rest_read_back [OF solo_headers [unfolded solo_call_def], of "\<lambda>b c. c" "''1.1''" 0 0]
    by (auto simp: solo_call_def solo_command_def)
  define q where "q = \<lparr> rCommand = solo_command, rProperties = props, rTimestamp = 0, rNodeID = ''1.1'',
    rc = Some 0, rError = None \<rparr>"
  obtain p1 m p2 where steps: "HandleRequest q (NewConsensus solo ''1.1'') = (p1, [Broadcast m])"
    "HandleVote solo [0] (solo_vote solo_command) p1 = (p2, [Applied 0 solo_command, SendReply q (answer_to q (NewDatabase solo))])"
    using solo_steps [of q "''1.1''"] by (auto simp: q_def solo_command_def)
  show ?thesis
    using cap
    by (simp add: start_process_def n solo_ops_def r [folded q_def] steps make_chan_def push_message_def handle_step_def
        replica_handles_def recv_step_def del: sbind_Done push_message_Done handle_step_Done)
      (simp add: Request_Reply_def q_def)
qed

lemma solo_reach:
  obtains s0 s r where "proc_reach solo (\<lambda>b c. c) ''1.1'' s0" "proc_reach solo (\<lambda>b c. c) ''1.1'' s"
    "proc_run solo (\<lambda>b c. c) solo_ops s0 = Done s" "awaited s = [(0, solo_call, r)]"
    "fmlookup (reply_chans (pnode s)) 0 = Some [answer_to r (NewDatabase solo)]"
proof -
  obtain s0 s r where s: "start_process solo ''1.1'' = Ret s0" "proc_run solo (\<lambda>b c. c) solo_ops s0 = Done s"
    "awaited s = [(0, solo_call, r)]" "fmlookup (reply_chans (pnode s)) 0 = Some [answer_to r (NewDatabase solo)]"
    using solo_process by blast
  have r0: "proc_reach solo (\<lambda>b c. c) ''1.1'' s0" by (rule proc_reach.start [OF s(1)])
  have "\<forall>x \<in> set solo_ops. admissible x" by (simp add: solo_ops_def solo_headers)
  from that [OF r0 run_reach [OF s(2) this r0] s(2-4)] show thesis .
qed

theorem handling_never_blocks_witness:
  "\<exists>s m ms s' out. MessageChan (pnode s) = m # ms \<and> from_peer m \<and>
     proc_step solo (\<lambda>b c. c) (PHandle (net_of (\<lambda>i k. None) (\<lambda>k i. 0) (\<lambda>k i. 1) (\<lambda>k. []) (NewSocket ''1.1'' fmempty)) [] []) s =
       Done (s', Says out)"
proof -
  obtain s0 s where s: "proc_reach solo (\<lambda>b c. c) ''1.1'' s0" "proc_run solo (\<lambda>b c. c) solo_ops s0 = Done s"
    using solo_reach by blast
  obtain s1 out where one: "proc_step solo (\<lambda>b c. c) (PHttp 0 [''Cid'', ''Count'', ''Id''] solo_call) s0 = Done (s1, out)"
    and rest: "proc_run solo (\<lambda>b c. c) (tl solo_ops) s1 = Done s"
    by (rule proc_run_Cons [OF s(2) [unfolded solo_ops_def]]) (simp add: solo_ops_def)
  obtain s2 out2 where two: "proc_step solo (\<lambda>b c. c) (PHandle (\<lambda>k. Done ()) [] []) s1 = Done (s2, out2)"
    by (rule proc_run_Cons [OF rest [unfolded solo_ops_def list.sel]])
  have r: "proc_reach solo (\<lambda>b c. c) ''1.1'' s1" by (rule proc_reach.step [OF s(1) _ one]) (simp add: solo_headers)
  obtain m ms where m: "MessageChan (pnode s1) = m # ms" "from_peer m"
    by (rule turn_head [OF two])
  let ?sock = "NewSocket ''1.1'' fmempty"
  have "healthy (\<lambda>i k. None) ?sock" by (simp add: healthy_def NewSocket_def Retry_def retry_loop.simps)
  moreover have "range_order [] (addresses ?sock)" by (simp add: range_order_def NewSocket_def)
  ultimately have "\<exists>s' out. proc_step solo (\<lambda>b c. c) (PHandle (net_of (\<lambda>i k. None) (\<lambda>k i. 0) (\<lambda>k i. 1) (\<lambda>k. []) ?sock) [] []) s1 =
      Done (s', Says out)"
    using handling_never_blocks [OF r m(1), of "[]" "[]"] m(2) by fastforce
  with m show ?thesis by blast
qed

theorem rest_call_answered_witness:
  "\<exists>s s' pre. proc_step solo (\<lambda>b c. c) (PAnswer 0 []) s = Done (s', Respond 0
     \<lparr> status = 200, wHeader = header_set HTTPCommandID (print_int 0) (header_set HTTPClientID ''1.1'' fmempty),
       wBody = content (db_Get (snd (run_all Execute (NewDatabase solo) (map snd (applied pre)))) 5) \<rparr>)"
proof -
  obtain s0 s r where s: "proc_reach solo (\<lambda>b c. c) ''1.1'' s" "awaited s = [(0, solo_call, r)]"
    "fmlookup (reply_chans (pnode s)) 0 = Some [answer_to r (NewDatabase solo)]"
    using solo_reach by blast
  obtain s' out where step: "proc_step solo (\<lambda>b c. c) (PAnswer 0 []) s = Done (s', out)" using s(2,3) by simp
  have "(0, wire fmempty (rest_request [] ''1.1'' 5 (Some [6]) 0 0), r) \<in> set (awaited s)"
    by (simp add: s(2) solo_call_def)
  from rest_call_answered [OF s(1) this _ _ _ _ _ _ step] step show ?thesis by fastforce
qed

end
