(* ===== verification/Transports.thy ===== *)
theory Transports
  imports Containers Strconv
begin

text \<open>
  The transports (\<open>transport.go\<close>): the choice of one by the scheme of an address, its queues, and the
  transport within a process, whose goroutines move messages from the senders' queues through a
  shared channel to the receiver's. What the URL parser gives is an argument; the connections of TCP and
  UDP are the theories \<open>Streams\<close> and \<open>Datagrams\<close>.
\<close>

section \<open>Choosing a transport\<close>

datatype transport_kind = ChanTransport | TcpTransport | UdpTransport

record 'm transport =
  kind :: transport_kind
  host :: string
  tsend :: "'m list"
  trecv :: "'m list"
  tcap :: nat
  closed :: bool

fun has_substring :: "string \<Rightarrow> string \<Rightarrow> bool" where
  "has_substring pat [] \<longleftrightarrow> pat = []"
| "has_substring pat (c # cs) \<longleftrightarrow> take (length pat) (c # cs) = pat \<or> has_substring pat cs"

definition full_address :: "string \<Rightarrow> string \<Rightarrow> string" where
  "full_address scheme addr =
     (if \<not> has_substring ''://'' addr then scheme @ ''://'' @ addr else addr)"

text \<open>
  \<open>parse\<close> gives the scheme and the host of a URL; \<open>log.Fatalf\<close> ends the program, and making a channel of
  a negative size panics.
\<close>

definition NewTransport ::
    "(string \<Rightarrow> (string \<times> string) option) \<Rightarrow> string \<Rightarrow> int \<Rightarrow> string \<Rightarrow> 'm transport sync" where
  "NewTransport parse scheme n addr =
     (case parse (full_address scheme addr) of
        None \<Rightarrow> Fatal
      | Some (s, h) \<Rightarrow>
          let t = \<lparr> kind = ChanTransport, host = h, tsend = [], trecv = [], tcap = nat n, closed = False \<rparr>
          in if n < 0 then Panics
             else if s = ''chan'' then Done t
             else if s = ''tcp'' then Done (t\<lparr>kind := TcpTransport\<rparr>)
             else if s = ''udp'' then Done (t\<lparr>kind := UdpTransport\<rparr>)
             else Fatal)"

fun transport_Scheme :: "transport_kind \<Rightarrow> string" where
  "transport_Scheme ChanTransport = ''chan''"
| "transport_Scheme TcpTransport = ''tcp''"
| "transport_Scheme UdpTransport = ''udp''"

text \<open>Sending on a closed channel and closing it again panic.\<close>

definition transport_Send :: "'m \<Rightarrow> 'm transport \<Rightarrow> 'm transport sync" where
  "transport_Send m t =
     (if closed t then Panics
      else if length (tsend t) < tcap t then Done (t\<lparr>tsend := tsend t @ [m]\<rparr>)
      else Blocks)"

definition transport_Recv :: "'m transport \<Rightarrow> ('m transport \<times> 'm) sync" where
  "transport_Recv t = (case trecv t of [] \<Rightarrow> Blocks | m # ms \<Rightarrow> Done (t\<lparr>trecv := ms\<rparr>, m))"

definition transport_Close :: "'m transport \<Rightarrow> 'm transport sync" where
  "transport_Close t = (if closed t then Panics else Done (t\<lparr>closed := True\<rparr>))"

section \<open>Within a process\<close>

text \<open>The package variable \<open>chans\<close>: a channel for each host that listens.\<close>

definition channel_Dial :: "'m transport \<Rightarrow> (string, 'c) gomap \<Rightarrow> string + 'c" where
  "channel_Dial t chans =
     (case fmlookup chans (host t) of None \<Rightarrow> Inl ''server not ready'' | Some c \<Rightarrow> Inr c)"

definition channel_Listen :: "'m transport \<Rightarrow> (string, 'm list) gomap \<Rightarrow> (string, 'm list) gomap" where
  "channel_Listen t chans = fmupd (host t) [] chans"

text \<open>
  One listener and the nodes that dialled it: each has its queue, and a goroutine that holds at
  most one message between taking it from the queue and putting it into the channel; the
  listener's goroutine does the same between the channel and its own queue. Neither end is closed.
\<close>

record ('i, 'm) Wire =
  outq :: "'i \<Rightarrow> 'm list"
  held :: "'i \<Rightarrow> 'm option"
  conn :: "('i \<times> 'm) list"
  taken :: "('i \<times> 'm) option"
  inq :: "('i \<times> 'm) list"
  wcap :: nat
  given :: "'i \<Rightarrow> 'm list"
  got :: "('i \<times> 'm) list"

definition new_wire :: "nat \<Rightarrow> ('i, 'm) Wire" where
  "new_wire n =
     \<lparr> outq = (\<lambda>i. []), held = (\<lambda>i. None), conn = [], taken = None, inq = [], wcap = n,
       given = (\<lambda>i. []), got = [] \<rparr>"

text \<open>The messages are tagged with their sender; \<open>given\<close> and \<open>got\<close> record what was sent and received.\<close>

inductive wire_step :: "('i, 'm) Wire \<Rightarrow> ('i, 'm) Wire \<Rightarrow> bool" where
  sends: "length (outq w i) < wcap w \<Longrightarrow>
     wire_step w (w\<lparr>outq := (outq w)(i := outq w i @ [m]), given := (given w)(i := given w i @ [m])\<rparr>)"
| pumps: "outq w i = m # ms \<Longrightarrow> held w i = None \<Longrightarrow>
     wire_step w (w\<lparr>outq := (outq w)(i := ms), held := (held w)(i := Some m)\<rparr>)"
| enters: "held w i = Some m \<Longrightarrow> length (conn w) < wcap w \<Longrightarrow>
     wire_step w (w\<lparr>held := (held w)(i := None), conn := conn w @ [(i, m)]\<rparr>)"
| leaves: "conn w = x # xs \<Longrightarrow> taken w = None \<Longrightarrow> wire_step w (w\<lparr>conn := xs, taken := Some x\<rparr>)"
| arrives: "taken w = Some x \<Longrightarrow> length (inq w) < wcap w \<Longrightarrow>
     wire_step w (w\<lparr>taken := None, inq := inq w @ [x]\<rparr>)"
| receives: "inq w = x # xs \<Longrightarrow> wire_step w (w\<lparr>inq := xs, got := got w @ [x]\<rparr>)"

inductive wire_reach :: "nat \<Rightarrow> ('i, 'm) Wire \<Rightarrow> bool" for n where
  start: "wire_reach n (new_wire n)"
| step: "wire_reach n w \<Longrightarrow> wire_step w w' \<Longrightarrow> wire_reach n w'"

fun as_list :: "'a option \<Rightarrow> 'a list" where
  "as_list None = []"
| "as_list (Some x) = [x]"

definition from_sender :: "'i \<Rightarrow> ('i \<times> 'm) list \<Rightarrow> 'm list" where
  "from_sender i xs = map snd (filter (\<lambda>x. fst x = i) xs)"

lemma from_sender_simps [simp]:
  "from_sender i [] = []" "from_sender i (xs @ ys) = from_sender i xs @ from_sender i ys"
  "from_sender i (x # xs) = (if fst x = i then [snd x] else []) @ from_sender i xs"
  by (simp_all add: from_sender_def)

text \<open>What a node has sent is what was received of it, followed by what is on the way.\<close>

definition in_transit :: "('i, 'm) Wire \<Rightarrow> 'i \<Rightarrow> 'm list" where
  "in_transit w i =
     from_sender i (inq w) @ from_sender i (as_list (taken w)) @ from_sender i (conn w) @
     as_list (held w i) @ outq w i"

definition wire_ok :: "('i, 'm) Wire \<Rightarrow> bool" where
  "wire_ok w \<longleftrightarrow> (\<forall>i. given w i = from_sender i (got w) @ in_transit w i \<and> length (outq w i) \<le> wcap w) \<and>
     length (conn w) \<le> wcap w \<and> length (inq w) \<le> wcap w"

lemma wire_ok_step: "wire_step w w' \<Longrightarrow> wire_ok w \<Longrightarrow> wire_ok w'"
proof (induction rule: wire_step.induct)
  case (pumps w i m ms)
  from pumps.prems have "length (outq w i) \<le> wcap w" by (simp add: wire_ok_def)
  with pumps show ?case by (auto simp: wire_ok_def in_transit_def)
qed (auto simp: wire_ok_def in_transit_def)

lemma wire_ok_reach: "wire_reach n w \<Longrightarrow> wire_ok w"
proof (induction rule: wire_reach.induct)
  case start
  show ?case by (simp add: wire_ok_def new_wire_def in_transit_def)
qed (rule wire_ok_step)

lemma wire_cap: "wire_reach n w \<Longrightarrow> wcap w = n"
proof (induction rule: wire_reach.induct)
  case (step w w')
  from step.hyps(2) step.IH show ?case by (induction rule: wire_step.induct) simp_all
qed (simp add: new_wire_def)

text \<open>
  The transport within a process neither loses nor repeats nor reorders the messages of a
  sender, whatever the goroutines do and however many nodes send: those received of it are a
  prefix of those it sent, and if none can move any more the receiver has got them all.
\<close>

theorem channel_keeps_order:
  assumes "wire_reach n w" and "0 < n"
  shows "(\<exists>rest. given w i = from_sender i (got w) @ rest) \<and>
    ((\<forall>w'. wire_step w w' \<longrightarrow> given w' \<noteq> given w) \<longrightarrow> given w i = from_sender i (got w))"
proof (intro conjI impI)
  have ok: "wire_ok w" by (rule wire_ok_reach [OF assms(1)])
  then show "\<exists>rest. given w i = from_sender i (got w) @ rest" unfolding wire_ok_def by blast
  have cap: "0 < wcap w" using wire_cap [OF assms(1)] assms(2) by simp
  assume stuck: "\<forall>w'. wire_step w w' \<longrightarrow> given w' \<noteq> given w"
  have inq: "inq w = []"
    using stuck wire_step.receives [of w] by (cases "inq w") fastforce+
  have taken: "taken w = None"
    using stuck wire_step.arrives [of w] cap inq by (cases "taken w") fastforce+
  have conn: "conn w = []"
    using stuck wire_step.leaves [of w] taken by (cases "conn w") fastforce+
  have held: "held w i = None"
    using stuck wire_step.enters [of w i] cap conn by (cases "held w i") fastforce+
  have "outq w i = []"
    using stuck wire_step.pumps [of w i] held by (cases "outq w i") fastforce+
  with inq taken conn held ok show "given w i = from_sender i (got w)"
    by (simp add: wire_ok_def in_transit_def)
qed

theorem channel_keeps_order_witness:
  "\<exists>w :: (nat, nat) Wire. wire_reach 1 w \<and> given w 3 = [7] \<and> (\<exists>rest. [7] = from_sender 3 (got w) @ rest)"
proof -
  let ?w = "(new_wire 1)\<lparr>outq := (\<lambda>i. [])(3 := [7]), given := (\<lambda>i. [])(3 := [7])\<rparr> :: (nat, nat) Wire"
  have "wire_step (new_wire 1) ?w"
    using wire_step.sends [of "new_wire 1" 3 7] by (simp add: new_wire_def)
  then have r: "wire_reach 1 ?w" by (rule wire_reach.step [OF wire_reach.start])
  with channel_keeps_order [OF r, of 3] show ?thesis by (intro exI [of _ ?w]) simp
qed

end
