(* ===== verification/Streams.thy ===== *)
theory Streams
  imports Transports "HOL-Library.Sublist"
begin

text \<open>
  The TCP transport (\<open>Dial\<close> of \<open>transport\<close> and \<open>Listen\<close> of \<open>tcp\<close> in \<open>transport.go\<close>): a node's queue
  for another one, the goroutine that encodes what is in it, the connection, and at the listening
  node one goroutine for each connection that decodes into the queue of that node. A connection
  carries the bytes of a writer in order, and the decoder gives a message for each one encoded, so
  the connection is a list of messages; \<open>encode m\<close> is what will be decoded for \<open>m\<close>, \<open>None\<close> when the
  encoder refuses it (an error that is logged and no more). A connection may break at any time: the end of
  what is under way is lost, and so is what is written later, since \<open>Dial\<close> is called once and its goroutine
  logs the errors of writing and goes on. Reading at the end of a connection that the other side has closed,
  or that is broken, is an error, which is logged too.
\<close>

section \<open>The goroutines\<close>

datatype 'm reader = AtSelect | Holding 'm | Returned

record ('i, 'm) Tcp =
  sendq :: "'i \<Rightarrow> 'm list"
  shut :: "'i \<Rightarrow> bool"
  stream :: "'i \<Rightarrow> 'm list"
  ended :: "'i \<Rightarrow> bool"
  broken :: "'i \<Rightarrow> bool"
  reader_at :: "'i \<Rightarrow> 'm reader"
  errors :: "'i \<Rightarrow> nat"
  recvq :: "('i \<times> 'm) list"
  stopped :: bool
  qcap :: nat
  accepted :: "'i \<Rightarrow> 'm list"
  delivered :: "('i \<times> 'm) list"

text \<open>
  The listener and the nodes connected to it, each with a transport of its own. \<open>accepted\<close> and
  \<open>delivered\<close> record what \<open>Send\<close> has taken and \<open>Recv\<close> has given.
\<close>

definition new_tcp :: "nat \<Rightarrow> ('i, 'm) Tcp" where
  "new_tcp n =
     \<lparr> sendq = (\<lambda>i. []), shut = (\<lambda>i. False), stream = (\<lambda>i. []), ended = (\<lambda>i. False), broken = (\<lambda>i. False),
       reader_at = (\<lambda>i. AtSelect), errors = (\<lambda>i. 0), recvq = [], stopped = False, qcap = n,
       accepted = (\<lambda>i. []), delivered = [] \<rparr>"

datatype ('i, 'm) tcp_op = TSend 'i 'm | TWrite 'i | TRead 'i | TPut 'i | TRecv | TClose 'i | TStop | TBreak 'i nat

text \<open>\<open>Send\<close> on the transport of node \<open>i\<close>, and \<open>Close\<close> there, which closes its queue.\<close>

definition tcp_Send :: "'i \<Rightarrow> 'm \<Rightarrow> ('i, 'm) Tcp \<Rightarrow> ('i, 'm) Tcp sync" where
  "tcp_Send i m w =
     (if shut w i then Panics
      else if length (sendq w i) < qcap w
      then Done (w\<lparr>sendq := (sendq w)(i := sendq w i @ [m]), accepted := (accepted w)(i := accepted w i @ [m])\<rparr>)
      else Blocks)"

text \<open>
  A turn of the goroutine that \<open>Dial\<close> starts: \<open>range\<close> ends when the queue is closed and empty, and
  then the connection is closed. What is written to a broken connection, or to a reader that has returned, is
  lost, with an error or without.
\<close>

definition tcp_write :: "('m \<Rightarrow> 'm option) \<Rightarrow> 'i \<Rightarrow> ('i, 'm) Tcp \<Rightarrow> ('i, 'm) Tcp sync" where
  "tcp_write encode i w =
     (case sendq w i of
        [] \<Rightarrow> if shut w i \<and> \<not> ended w i then Done (w\<lparr>ended := (ended w)(i := True)\<rparr>) else Blocks
      | m # ms \<Rightarrow>
          let w1 = w\<lparr>sendq := (sendq w)(i := ms)\<rparr>
          in case encode m of
               None \<Rightarrow> Done w1
             | Some m1 \<Rightarrow>
                 if broken w i \<or> reader_at w i = Returned then Done w1
                 else Done (w1\<lparr>stream := (stream w1)(i := stream w1 i @ [m1])\<rparr>))"

text \<open>A turn of the goroutine that \<open>Listen\<close> starts for the connection from \<open>i\<close>, in two parts.\<close>

definition tcp_read :: "'i \<Rightarrow> ('i, 'm) Tcp \<Rightarrow> ('i, 'm) Tcp sync" where
  "tcp_read i w =
     (if reader_at w i \<noteq> AtSelect then Blocks
      else if stopped w then Done (w\<lparr>reader_at := (reader_at w)(i := Returned)\<rparr>)
      else case stream w i of
             m # ms \<Rightarrow> Done (w\<lparr>stream := (stream w)(i := ms), reader_at := (reader_at w)(i := Holding m)\<rparr>)
           | [] \<Rightarrow> if ended w i \<or> broken w i then Done (w\<lparr>errors := (errors w)(i := errors w i + 1)\<rparr>) else Blocks)"

definition tcp_put :: "'i \<Rightarrow> ('i, 'm) Tcp \<Rightarrow> ('i, 'm) Tcp sync" where
  "tcp_put i w =
     (case reader_at w i of
        Holding m \<Rightarrow>
          if length (recvq w) < qcap w
          then Done (w\<lparr>recvq := recvq w @ [(i, m)], reader_at := (reader_at w)(i := AtSelect)\<rparr>)
          else Blocks
      | _ \<Rightarrow> Blocks)"

definition tcp_Recv :: "('i, 'm) Tcp \<Rightarrow> ('i, 'm) Tcp sync" where
  "tcp_Recv w =
     (case recvq w of
        [] \<Rightarrow> Blocks
      | x # xs \<Rightarrow> Done (w\<lparr>recvq := xs, delivered := delivered w @ [x]\<rparr>))"

text \<open>The connection from \<open>i\<close> breaks, and all but the first \<open>k\<close> of the messages on it are lost.\<close>

definition tcp_break :: "'i \<Rightarrow> nat \<Rightarrow> ('i, 'm) Tcp \<Rightarrow> ('i, 'm) Tcp" where
  "tcp_break i k w = w\<lparr>broken := (broken w)(i := True), stream := (stream w)(i := take k (stream w i))\<rparr>"

fun tcp_step :: "('m \<Rightarrow> 'm option) \<Rightarrow> ('i, 'm) tcp_op \<Rightarrow> ('i, 'm) Tcp \<Rightarrow> ('i, 'm) Tcp sync" where
  "tcp_step encode (TSend i m) w = tcp_Send i m w"
| "tcp_step encode (TWrite i) w = tcp_write encode i w"
| "tcp_step encode (TRead i) w = tcp_read i w"
| "tcp_step encode (TPut i) w = tcp_put i w"
| "tcp_step encode TRecv w = tcp_Recv w"
| "tcp_step encode (TClose i) w = (if shut w i then Panics else Done (w\<lparr>shut := (shut w)(i := True)\<rparr>))"
| "tcp_step encode TStop w = (if stopped w then Panics else Done (w\<lparr>stopped := True\<rparr>))"
| "tcp_step encode (TBreak i k) w = Done (tcp_break i k w)"

fun tcp_run :: "('m \<Rightarrow> 'm option) \<Rightarrow> ('i, 'm) tcp_op list \<Rightarrow> ('i, 'm) Tcp \<Rightarrow> ('i, 'm) Tcp sync" where
  "tcp_run encode [] w = Done w"
| "tcp_run encode (x # xs) w = sbind (tcp_step encode x w) (tcp_run encode xs)"

section \<open>Order\<close>

fun readable :: "('m \<Rightarrow> 'm option) \<Rightarrow> 'm list \<Rightarrow> 'm list" where
  "readable encode [] = []"
| "readable encode (m # ms) = as_list (encode m) @ readable encode ms"

lemma readable_append [simp]: "readable encode (xs @ ys) = readable encode xs @ readable encode ys"
  by (induction xs) simp_all

fun held_by :: "'m reader \<Rightarrow> 'm list" where
  "held_by (Holding m) = [m]"
| "held_by AtSelect = []"
| "held_by Returned = []"

definition on_the_way :: "('m \<Rightarrow> 'm option) \<Rightarrow> ('i, 'm) Tcp \<Rightarrow> 'i \<Rightarrow> 'm list" where
  "on_the_way encode w i =
     from_sender i (recvq w) @ held_by (reader_at w i) @ stream w i @ readable encode (sendq w i)"

text \<open>What has got through of a sender's messages, and, while the connection is whole, where the others are.\<close>

definition got_through :: "('i, 'm) Tcp \<Rightarrow> 'i \<Rightarrow> 'm list" where
  "got_through w i = from_sender i (delivered w) @ from_sender i (recvq w) @
     (if reader_at w i = Returned then [] else held_by (reader_at w i) @ stream w i)"

definition sender_ok :: "('m \<Rightarrow> 'm option) \<Rightarrow> ('i, 'm) Tcp \<Rightarrow> 'i \<Rightarrow> bool" where
  "sender_ok encode w i \<longleftrightarrow>
     prefix (got_through w i) (readable encode (accepted w i)) \<and> (reader_at w i = Returned \<longrightarrow> stopped w) \<and>
     (\<not> broken w i \<longrightarrow> reader_at w i \<noteq> Returned \<longrightarrow>
        readable encode (accepted w i) = from_sender i (delivered w) @ on_the_way encode w i)"

definition tcp_ok :: "('m \<Rightarrow> 'm option) \<Rightarrow> ('i, 'm) Tcp \<Rightarrow> bool" where
  "tcp_ok encode w \<longleftrightarrow> (\<forall>i. sender_ok encode w i)"

lemmas sender_simps = sender_ok_def got_through_def on_the_way_def

lemma tcp_ok_put:
  assumes ok: "tcp_ok encode w" and m: "reader_at w i = Holding m"
  shows "tcp_ok encode (w\<lparr>recvq := recvq w @ [(i, m)], reader_at := (reader_at w)(i := AtSelect)\<rparr>)"
  unfolding tcp_ok_def
proof
  fix j
  from ok have "sender_ok encode w j" by (simp add: tcp_ok_def)
  then show "sender_ok encode (w\<lparr>recvq := recvq w @ [(i, m)], reader_at := (reader_at w)(i := AtSelect)\<rparr>) j"
    using m by (cases "i = j") (auto simp: sender_simps split: if_splits)
qed

lemma tcp_ok_break: "tcp_ok encode w \<Longrightarrow> tcp_ok encode (tcp_break i k w)"
  unfolding tcp_ok_def
proof
  fix j assume "\<forall>i. sender_ok encode w i"
  then have j: "sender_ok encode w j" by simp
  show "sender_ok encode (tcp_break i k w) j"
  proof (cases "i = j")
    case True
    have "prefix (got_through (tcp_break i k w) j) (got_through w j)"
      using True by (simp add: got_through_def tcp_break_def take_is_prefix)
    with j True show ?thesis by (auto simp: sender_ok_def tcp_break_def intro: prefix_order.trans)
  next
    case False
    with j show ?thesis by (auto simp: sender_simps tcp_break_def split: if_splits)
  qed
qed

lemma tcp_ok_write:
  assumes ok: "tcp_ok encode w" and step: "tcp_write encode i w = Done w'"
  shows "tcp_ok encode w'"
  unfolding tcp_ok_def
proof
  fix j
  have j: "sender_ok encode w j" using ok by (simp add: tcp_ok_def)
  show "sender_ok encode w' j"
  proof (cases "sendq w i")
    case Nil
    with step have "w' = w\<lparr>ended := (ended w)(i := True)\<rparr>" by (auto simp: tcp_write_def split: if_splits)
    with j show ?thesis by (auto simp: sender_simps split: if_splits)
  next
    case (Cons m ms)
    show ?thesis
    proof (cases "encode m = None \<or> broken w i \<or> reader_at w i = Returned")
      case True
      then have "w' = w\<lparr>sendq := (sendq w)(i := ms)\<rparr>" using step Cons by (auto simp: tcp_write_def Let_def split: option.splits)
      with True Cons j show ?thesis by (cases "i = j") (auto simp: sender_simps split: if_splits)
    next
      case False
      then obtain m1 where m1: "encode m = Some m1" by (cases "encode m") simp_all
      with False step Cons have "w' = w\<lparr>sendq := (sendq w)(i := ms), stream := (stream w)(i := stream w i @ [m1])\<rparr>"
        by (simp add: tcp_write_def)
      with False m1 Cons j show ?thesis by (cases "i = j") (auto simp: sender_simps split: if_splits)
    qed
  qed
qed

lemma tcp_ok_read:
  assumes ok: "tcp_ok encode w" and step: "tcp_read i w = Done w'"
  shows "tcp_ok encode w'"
  unfolding tcp_ok_def
proof
  fix j
  have j: "sender_ok encode w j" using ok by (simp add: tcp_ok_def)
  have at: "reader_at w i = AtSelect" using step by (auto simp: tcp_read_def split: if_splits)
  show "sender_ok encode w' j"
  proof (cases "stopped w")
    case True
    then have w': "w' = w\<lparr>reader_at := (reader_at w)(i := Returned)\<rparr>" using step at by (simp add: tcp_read_def)
    have "prefix (got_through w' j) (got_through w j)" using w' by (cases "i = j") (simp_all add: got_through_def)
    with j True w' show ?thesis by (auto simp: sender_ok_def on_the_way_def intro: prefix_order.trans)
  next
    case False
    with step at j show ?thesis
      by (cases "stream w i"; cases "i = j") (auto simp: tcp_read_def sender_simps split: if_splits)
  qed
qed

lemma write_cap: "tcp_write encode i w = Done w' \<Longrightarrow> qcap w' = qcap w"
  by (cases "sendq w i") (auto simp: tcp_write_def Let_def split: if_splits option.splits)

lemma read_cap: "tcp_read i w = Done w' \<Longrightarrow> qcap w' = qcap w"
  by (cases "stream w i") (auto simp: tcp_read_def split: if_splits)

lemma tcp_ok_step:
  assumes ok: "tcp_ok encode w" and step: "tcp_step encode x w = Done w'"
  shows "tcp_ok encode w' \<and> qcap w' = qcap w"
proof (cases x)
  case (TSend i m)
  with step have "w' = w\<lparr>sendq := (sendq w)(i := sendq w i @ [m]), accepted := (accepted w)(i := accepted w i @ [m])\<rparr>"
    by (auto simp: tcp_Send_def split: if_splits)
  with ok show ?thesis by (auto simp: tcp_ok_def sender_simps split: if_splits)
next
  case (TWrite i)
  with step have w: "tcp_write encode i w = Done w'" by simp
  then show ?thesis using tcp_ok_write [OF ok w] by (simp add: write_cap)
next
  case (TRead i)
  with step have r: "tcp_read i w = Done w'" by simp
  then show ?thesis using tcp_ok_read [OF ok r] by (simp add: read_cap)
next
  case (TPut i)
  with step obtain m where m: "reader_at w i = Holding m"
    and w': "w' = w\<lparr>recvq := recvq w @ [(i, m)], reader_at := (reader_at w)(i := AtSelect)\<rparr>"
    by (auto simp: tcp_put_def split: reader.splits if_splits)
  show ?thesis unfolding w' using tcp_ok_put [OF ok m] by simp
next
  case TRecv
  with step obtain x xs where x: "recvq w = x # xs" "w' = w\<lparr>recvq := xs, delivered := delivered w @ [x]\<rparr>"
    by (auto simp: tcp_Recv_def split: list.splits)
  have "sender_ok encode w' j" if "sender_ok encode w j" for j
    using that by (cases "reader_at w j = Returned") (simp_all add: sender_simps x)
  with ok x show ?thesis by (simp add: tcp_ok_def)
next
  case (TClose i)
  with step have w': "w' = w\<lparr>shut := (shut w)(i := True)\<rparr>" by (auto split: if_splits)
  have "sender_ok encode w' j" if "sender_ok encode w j" for j
    using that by (simp add: sender_simps w' split: if_splits)
  with ok w' show ?thesis by (simp add: tcp_ok_def)
next
  case TStop
  with step have w': "w' = w\<lparr>stopped := True\<rparr>" by (auto split: if_splits)
  have "sender_ok encode w' j" if "sender_ok encode w j" for j
    using that by (simp add: sender_simps w' split: if_splits)
  with ok w' show ?thesis by (simp add: tcp_ok_def)
next
  case (TBreak i k)
  with step have "w' = tcp_break i k w" by simp
  with tcp_ok_break [OF ok] show ?thesis by (simp add: tcp_break_def)
qed

lemma tcp_ok_run: "tcp_run encode xs w = Done w' \<Longrightarrow> tcp_ok encode w \<Longrightarrow> tcp_ok encode w' \<and> qcap w' = qcap w"
proof (induction xs arbitrary: w)
  case (Cons x xs)
  then obtain w1 where "tcp_step encode x w = Done w1" "tcp_run encode xs w1 = Done w'"
    by (cases "tcp_step encode x w") auto
  with Cons tcp_ok_step show ?case by metis
qed simp

lemma tcp_ok_new: "tcp_ok encode (new_tcp n)"
  by (simp add: tcp_ok_def new_tcp_def sender_simps)

text \<open>Nothing between node \<open>i\<close> and the listener moves any more.\<close>

definition tcp_idle :: "('m \<Rightarrow> 'm option) \<Rightarrow> 'i \<Rightarrow> ('i, 'm) Tcp \<Rightarrow> bool" where
  "tcp_idle encode i w \<longleftrightarrow> tcp_write encode i w = Blocks \<and> tcp_put i w = Blocks \<and> tcp_Recv w = Blocks \<and>
     (tcp_read i w = Blocks \<or> stream w i = [])"

lemma idle_parts:
  assumes "tcp_idle encode i w" "0 < qcap w" "reader_at w i \<noteq> Returned" "\<not> stopped w"
  shows "sendq w i = [] \<and> recvq w = [] \<and> reader_at w i = AtSelect \<and> stream w i = [] \<and> (shut w i \<longrightarrow> ended w i)"
proof -
  have recvq: "recvq w = []" using assms(1) by (cases "recvq w") (auto simp: tcp_idle_def tcp_Recv_def)
  have at: "reader_at w i = AtSelect"
    using assms recvq by (cases "reader_at w i") (auto simp: tcp_idle_def tcp_put_def)
  have "stream w i = []" using assms(1,4) at by (cases "stream w i") (auto simp: tcp_idle_def tcp_read_def)
  moreover have "sendq w i = []"
    using assms(1) by (cases "sendq w i") (auto simp: tcp_idle_def tcp_write_def Let_def split: option.splits if_splits)
  moreover from this have "shut w i \<longrightarrow> ended w i"
    using assms(1) by (auto simp: tcp_idle_def tcp_write_def split: if_splits)
  ultimately show ?thesis using recvq at by simp
qed

text \<open>
  C12: Over TCP a node gets the messages of each other node in the order in which they were sent and none
  twice, whatever becomes of the connection: at any time a first part of those that the encoder takes. As
  long as the connection has not broken and the listener has not been closed none is lost: when nothing
  moves any more it has got them all. The queues have room for one message at least.
\<close>

theorem tcp_keeps_order:
  assumes "tcp_run encode xs (new_tcp n) = Done w" and "0 < n"
  shows "(\<exists>rest. readable encode (accepted w i) = from_sender i (delivered w) @ rest) \<and>
    (\<not> broken w i \<longrightarrow> \<not> stopped w \<longrightarrow> tcp_idle encode i w \<longrightarrow>
       readable encode (accepted w i) = from_sender i (delivered w))"
proof (intro conjI impI)
  have "tcp_ok encode w" and cap: "qcap w = n"
    using tcp_ok_run [OF assms(1) tcp_ok_new] by (simp_all add: new_tcp_def)
  then have ok: "sender_ok encode w i" by (simp add: tcp_ok_def)
  then show "\<exists>rest. readable encode (accepted w i) = from_sender i (delivered w) @ rest"
    by (auto simp: sender_ok_def got_through_def prefix_def)
  assume s: "\<not> broken w i" "\<not> stopped w" "tcp_idle encode i w"
  then have "reader_at w i \<noteq> Returned" using ok by (auto simp: sender_ok_def)
  with ok s idle_parts [OF s(3)] cap assms(2) show "readable encode (accepted w i) = from_sender i (delivered w)"
    by (simp add: sender_ok_def on_the_way_def)
qed

text \<open>
  The goroutine that reads a TCP connection does not end when the other side closes it or the connection
  breaks: once everything has been read, each of its turns fails at once and is logged, and nothing else
  happens, as often as it runs, until the listener itself is closed.
\<close>

theorem tcp_reader_spins:
  assumes "tcp_run encode xs (new_tcp n) = Done w" and "0 < n" and "\<not> stopped w" "shut w i \<or> broken w i"
    and "tcp_idle encode i w"
  shows "tcp_run encode (replicate k (TRead i)) w = Done (w\<lparr>errors := (errors w)(i := errors w i + k)\<rparr>)"
proof -
  have ok: "sender_ok encode w i" "qcap w = n"
    using tcp_ok_run [OF assms(1) tcp_ok_new] by (simp_all add: new_tcp_def tcp_ok_def)
  then have "reader_at w i \<noteq> Returned" using assms(3) by (auto simp: sender_ok_def)
  with idle_parts [OF assms(5)] ok assms(2-4)
  have "ended w i \<or> broken w i" "stream w i = []" "reader_at w i = AtSelect" "\<not> stopped w" by auto
  then show ?thesis
  proof (induction k arbitrary: w)
    case (Suc k)
    let ?w = "w\<lparr>errors := (errors w)(i := errors w i + 1)\<rparr>"
    have "tcp_step encode (TRead i) w = Done ?w" using Suc.prems by (simp add: tcp_read_def)
    then have "tcp_run encode (replicate (Suc k) (TRead i)) w = tcp_run encode (replicate k (TRead i)) ?w" by simp
    also have "\<dots> = Done (?w\<lparr>errors := (errors ?w)(i := errors ?w i + k)\<rparr>)"
      using Suc.prems by (intro Suc.IH) simp_all
    also have "(errors ?w)(i := errors ?w i + k) = (errors w)(i := errors w i + Suc k)" by (simp add: fun_eq_iff)
    finally show ?case by simp
  qed simp
qed

definition tcp_example :: "(nat, nat) tcp_op list" where
  "tcp_example = [TSend 3 7, TSend 3 8, TWrite 3, TRead 3, TPut 3, TRecv, TWrite 3, TRead 3, TPut 3, TRecv,
     TClose 3, TWrite 3]"

lemma tcp_example_run:
  "\<exists>w. tcp_run Some tcp_example (new_tcp 2) = Done w \<and> accepted w 3 = [7, 8] \<and> delivered w = [(3, 7), (3, 8)] \<and>
     shut w 3 \<and> \<not> broken w 3 \<and> \<not> stopped w \<and> tcp_idle Some 3 w"
  by (simp add: tcp_example_def new_tcp_def tcp_Send_def tcp_write_def tcp_read_def tcp_put_def tcp_Recv_def
      tcp_idle_def)

theorem tcp_keeps_order_witness:
  "\<exists>w. tcp_run Some tcp_example (new_tcp 2) = Done w \<and> readable Some [7, 8] = from_sender 3 (delivered w)"
proof -
  obtain w where w: "tcp_run Some tcp_example (new_tcp 2) = Done w" "accepted w 3 = [7, 8]" "\<not> stopped w"
    "\<not> broken w 3" "tcp_idle Some 3 w" using tcp_example_run by blast
  have "readable Some (accepted w 3) = from_sender 3 (delivered w)"
    using tcp_keeps_order [OF w(1), of 3] w(3-5) by simp
  then show ?thesis by (metis w(1,2))
qed

theorem tcp_reader_spins_witness:
  "\<exists>w. tcp_run Some tcp_example (new_tcp 2) = Done w \<and>
     tcp_run Some (replicate 1000 (TRead 3)) w = Done (w\<lparr>errors := (errors w)(3 := errors w 3 + 1000)\<rparr>)"
proof -
  obtain w where w: "tcp_run Some tcp_example (new_tcp 2) = Done w" "\<not> stopped w" "shut w 3"
    "tcp_idle Some 3 w" using tcp_example_run by blast
  then have "shut w 3 \<or> broken w 3" by simp
  from tcp_reader_spins [OF w(1) _ w(2) this w(4), of 1000] w(1) show ?thesis by auto
qed

end
