(* ===== verification/Datagrams.thy ===== *)
theory Datagrams
  imports Transports Nodes
begin

text \<open>
  The UDP transport (\<open>Dial\<close> and \<open>Listen\<close> of \<open>udp\<close> in \<open>transport.go\<close>): every message is encoded by itself
  into one datagram, and the listener reads each datagram into the same buffer of 1500 bytes, decodes
  what is in the buffer and passes on what it gets, the nil interface if decoding fails, as the
  error is not looked at. \<open>encode m\<close> are the bytes that the encoder leaves in its buffer for \<open>m\<close>, and \<open>decode\<close>
  is the decoder, which reads one message from the front of its input; both are \<open>encoding/gob\<close>.
\<close>

section \<open>One datagram\<close>

text \<open>\<open>Write\<close> refuses what does not fit into a datagram; the error is logged and the message lost.\<close>

definition max_datagram :: nat where
  "max_datagram = 65507"

definition udp_write :: "('m \<Rightarrow> bytes) \<Rightarrow> 'm \<Rightarrow> bytes option" where
  "udp_write encode m = (if length (encode m) \<le> max_datagram then Some (encode m) else None)"

definition packet_size :: nat where
  "packet_size = 1500"

text \<open>\<open>Read\<close> copies the front of the datagram over the front of the buffer and drops the rest.\<close>

definition read_packet :: "bytes \<Rightarrow> bytes \<Rightarrow> bytes" where
  "read_packet d packet = take packet_size d @ drop (length d) packet"

text \<open>The turns of the listener's goroutine for the datagrams \<open>ds\<close>: the buffer and what is passed on.\<close>

fun udp_listen :: "(bytes \<Rightarrow> 'm option) \<Rightarrow> bytes list \<Rightarrow> bytes \<Rightarrow> bytes \<times> 'm option list" where
  "udp_listen decode [] packet = (packet, [])"
| "udp_listen decode (d # ds) packet =
     (let packet1 = read_packet d packet; m = decode packet1;
          (packet2, ms) = udp_listen decode ds packet1
      in (packet2, m # ms))"

text \<open>The turns of the sender's goroutine.\<close>

definition udp_send :: "('m \<Rightarrow> bytes) \<Rightarrow> 'm list \<Rightarrow> bytes list" where
  "udp_send encode ms = List.map_filter (udp_write encode) ms"

lemma read_packet_length: "length packet = packet_size \<Longrightarrow> length (read_packet d packet) = packet_size"
  by (simp add: read_packet_def)

lemma read_packet_small:
  "length d \<le> packet_size \<Longrightarrow> read_packet d packet = d @ drop (length d) packet"
  by (simp add: read_packet_def)

lemma read_packet_large:
  "length packet = packet_size \<Longrightarrow> packet_size \<le> length d \<Longrightarrow> read_packet d packet = take packet_size d"
  by (simp add: read_packet_def)

section \<open>Small messages arrive\<close>

text \<open>The decoder reads one message and leaves what follows it alone.\<close>

definition reads_one :: "('m \<Rightarrow> bytes) \<Rightarrow> (bytes \<Rightarrow> 'm option) \<Rightarrow> ('m \<Rightarrow> 'm) \<Rightarrow> 'm \<Rightarrow> bool" where
  "reads_one encode decode gob m \<longleftrightarrow> (\<forall>rest. decode (encode m @ rest) = Some (gob m))"

text \<open>
  C30: Over UDP the messages whose encoding has at most 1500 bytes are decoded as they were sent, one for
  each datagram and in the order of the datagrams, whatever earlier and longer datagrams have left
  in the buffer.
\<close>

theorem udp_roundtrip:
  assumes "\<forall>m \<in> set ms. length (encode m) \<le> packet_size \<and> reads_one encode decode gob m"
    and "length packet = packet_size"
  shows "snd (udp_listen decode (udp_send encode ms) packet) = map (\<lambda>m. Some (gob m)) ms"
  using assms
proof (induction ms arbitrary: packet)
  case (Cons m ms)
  have m: "length (encode m) \<le> packet_size" "reads_one encode decode gob m" using Cons.prems(1) by simp_all
  then have "udp_write encode m = Some (encode m)" by (simp add: udp_write_def packet_size_def max_datagram_def)
  then have send: "udp_send encode (m # ms) = encode m # udp_send encode ms"
    by (simp add: udp_send_def map_filter_simps)
  have "decode (read_packet (encode m) packet) = Some (gob m)"
    using m by (simp add: read_packet_small reads_one_def)
  moreover have "snd (udp_listen decode (udp_send encode ms) (read_packet (encode m) packet)) = map (\<lambda>m. Some (gob m)) ms"
    using Cons.prems by (intro Cons.IH) (simp_all add: read_packet_length)
  ultimately show ?case by (simp add: send Let_def split_beta)
qed (simp add: udp_send_def map_filter_simps)

text \<open>Numbers in unary: as many ones, and a zero.\<close>

definition unary :: "nat \<Rightarrow> bytes" where
  "unary k = replicate k 1 @ [0]"

definition of_unary :: "bytes \<Rightarrow> nat option" where
  "of_unary b = (if 0 \<in> set b then Some (length (takeWhile (\<lambda>x. x = 1) b)) else None)"

lemma of_unary: "of_unary (unary k @ rest) = Some k"
proof -
  have "takeWhile (\<lambda>x. x = 1) (replicate k (1 :: 8 word) @ 0 # rest) = replicate k 1"
    by (subst takeWhile_append2) simp_all
  then show ?thesis by (simp add: of_unary_def unary_def)
qed

theorem udp_roundtrip_witness:
  "snd (udp_listen of_unary (udp_send unary [1499, 0, 3]) (replicate packet_size 7)) = [Some 1499, Some 0, Some 3]"
  using udp_roundtrip [of "[1499, 0, 3]" unary of_unary "\<lambda>k. k" "replicate packet_size 7"]
  by (simp add: reads_one_def of_unary) (simp add: unary_def packet_size_def)

section \<open>A large message stops the node it is sent to\<close>

text \<open>What the listener passes on, as the node gets it: the decoder's result or the nil interface.\<close>

definition to_packet :: "packet option \<Rightarrow> packet" where
  "to_packet m = (case m of None \<Rightarrow> PNil | Some p \<Rightarrow> p)"

text \<open>The decoder fails at the end of its input if the message goes on.\<close>

definition cut_off :: "('m \<Rightarrow> bytes) \<Rightarrow> (bytes \<Rightarrow> 'm option) \<Rightarrow> 'm \<Rightarrow> bool" where
  "cut_off encode decode m \<longleftrightarrow> (\<forall>k < length (encode m). decode (take k (encode m)) = None)"

text \<open>
  C31: A vote for more commands than the buffer has bytes cannot be received over UDP: the listener
  passes on the nil interface, and the node panics when its turn comes, if each entry of the vote
  takes a byte at least.
\<close>

theorem large_vote_stops_node:
  assumes "len_map (vL v) \<le> length (encode (PMessage (MVote v)))" and "cut_off encode decode (PMessage (MVote v))"
    and "packet_size < len_map (vL v)" "length (encode (PMessage (MVote v))) \<le> max_datagram"
    and "length packet = packet_size"
    and "MessageChan n = []" "0 < chan_cap n"
  shows "run_node (concat (map (\<lambda>m. [ORecv c (to_packet m), OHandle])
      (snd (udp_listen decode (udp_send encode [PMessage (MVote v)]) packet)))) n = Panics"
proof -
  let ?m = "PMessage (MVote v)"
  have "packet_size < length (encode ?m)" using assms(1,3) by simp
  then have "decode (read_packet (encode ?m) packet) = None"
    using assms(2,5) by (simp add: read_packet_large cut_off_def)
  then have "snd (udp_listen decode (udp_send encode [?m]) packet) = [None]"
    using assms(4) by (simp add: udp_send_def map_filter_simps udp_write_def split_beta)
  then show ?thesis
    using assms(6,7) by (simp add: to_packet_def recv_step_def quietly_def push_message_def handle_step_def)
qed

text \<open>A vote for the slots below \<open>k\<close>, and an encoding in unary.\<close>

definition vote_below :: "nat \<Rightarrow> Vote_msg" where
  "vote_below k = \<lparr> vSlot = 0, vId = ''1.2'',
     vL = fmap_of_list (map (\<lambda>s. (int s, \<lparr> cbCommand = zero_command, cbSlot = int s, cbId = ''1.2'' \<rparr>)) [0 ..< k]) \<rparr>"

lemma vote_below_size: "len_map (vL (vote_below k)) = k"
proof -
  have "fmdom' (vL (vote_below k)) = int ` {0 ..< k}"
    by (simp add: vote_below_def fmdom'_alt_def fmdom_fmap_of_list fset_of_list.rep_eq image_image)
  then show ?thesis by (simp add: len_map_def card_image)
qed

fun vote_unary :: "packet \<Rightarrow> bytes" where
  "vote_unary (PMessage (MVote v)) = unary (len_map (vL v))"
| "vote_unary m = []"

theorem large_vote_stops_node_witness:
  "run_node (concat (map (\<lambda>m. [ORecv 0 (to_packet m), OHandle])
     (snd (udp_listen (\<lambda>b. map_option (\<lambda>k. PMessage (MVote (vote_below k))) (of_unary b))
       (udp_send vote_unary [PMessage (MVote (vote_below 2000))]) (replicate packet_size 0)))))
     (new_node ''1.1'') = Panics"
proof (rule large_vote_stops_node)
  have "set (take k (unary 2000)) \<subseteq> {1}" if "k < length (unary 2000)" for k
    using that by (auto simp: unary_def dest: in_set_takeD)
  then show "cut_off vote_unary (\<lambda>b. map_option (\<lambda>k. PMessage (MVote (vote_below k))) (of_unary b))
      (PMessage (MVote (vote_below 2000)))"
    by (fastforce simp: cut_off_def vote_below_size of_unary_def)
qed (simp_all add: vote_below_size unary_def packet_size_def max_datagram_def new_node_def)

end
