(* ===== verification/Logs.thy ===== *)
theory Logs
  imports Containers Databases
begin

text \<open>
  The log's thresholds, where its lines go, and its free list of buffers (\<open>log/log.go\<close>). Formatting the
  arguments and the time and place in front of a line is left to Go's \<open>log\<close> and \<open>fmt\<close>: a message is its text.
\<close>

section \<open>Severities\<close>

datatype severity = DEBUG | INFO | WARNING | ERROR

definition severities :: "severity list" where
  "severities = [DEBUG, INFO, WARNING, ERROR]"

fun severity_String :: "severity \<Rightarrow> string" where
  "severity_String DEBUG = ''DEBUG''"
| "severity_String INFO = ''INFO''"
| "severity_String WARNING = ''WARNING''"
| "severity_String ERROR = ''ERROR''"

fun rank :: "severity \<Rightarrow> nat" where
  "rank DEBUG = 0"
| "rank INFO = 1"
| "rank WARNING = 2"
| "rank ERROR = 3"

instantiation severity :: linorder
begin

definition less_eq_severity :: "severity \<Rightarrow> severity \<Rightarrow> bool" where
  "less_eq_severity a b \<longleftrightarrow> rank a \<le> rank b"

definition less_severity :: "severity \<Rightarrow> severity \<Rightarrow> bool" where
  "less_severity a b \<longleftrightarrow> rank a < rank b"

instance
proof
  fix a b :: severity
  show "a \<le> b \<Longrightarrow> b \<le> a \<Longrightarrow> a = b"
    by (cases a; cases b) (simp_all add: less_eq_severity_def)
qed (auto simp: less_eq_severity_def less_severity_def)

end

text \<open>\<open>strings.ToUpper\<close> on the bytes of ASCII; an unknown name means \<open>INFO\<close>.\<close>

definition to_upper :: "char \<Rightarrow> char" where
  "to_upper c =
     (if 97 \<le> (of_char c :: nat) \<and> (of_char c :: nat) \<le> 122 then char_of ((of_char c :: nat) - 32) else c)"

definition severity_Set :: "string \<Rightarrow> severity" where
  "severity_Set v =
     (let value = List.map to_upper v
      in fold (\<lambda>s threshold. if severity_String s = value then s else threshold) severities INFO)"

text \<open>\<open>Get\<close> and the zero value that the threshold has without the flag.\<close>

definition severity_Get :: "severity \<Rightarrow> severity" where
  "severity_Get s = s"

definition default_severity :: severity where
  "default_severity = DEBUG"

lemma severity_Set_upper:
  assumes "List.map to_upper v = severity_String s"
  shows "severity_Set v = s"
  using assms by (cases s) (simp_all add: severity_Set_def severities_def)

lemma severity_Set_unknown:
  assumes "\<forall>s. List.map to_upper v \<noteq> severity_String s"
  shows "severity_Set v = INFO"
proof -
  have "fold (\<lambda>s t. if severity_String s = List.map to_upper v then s else t) ss t0 = t0" for ss and t0 :: severity
    using assms by (induction ss arbitrary: t0) (simp_all, metis)
  then show ?thesis by (simp add: severity_Set_def)
qed

section \<open>What is written\<close>

datatype log_call = Debug | Info | Warning | Error | LFatal

text \<open>The lines of a call at a threshold, and whether the program goes on.\<close>

definition log_lines :: "severity \<Rightarrow> log_call \<Rightarrow> string \<Rightarrow> (severity \<times> string) list \<times> bool" where
  "log_lines t call msg =
     (case call of
        Debug \<Rightarrow> ((if t = DEBUG then [(DEBUG, msg)] else []), True)
      | Info \<Rightarrow> ((if t \<le> INFO then [(INFO, msg)] else []), True)
      | Warning \<Rightarrow> ((if t \<le> WARNING then [(WARNING, msg)] else []), True)
      | Error \<Rightarrow> ([(ERROR, msg)], True)
      | LFatal \<Rightarrow> ([(ERROR, msg)], False))"

lemma log_lines_threshold:
  "s \<in> fst ` set (fst (log_lines t call msg)) \<Longrightarrow> t \<le> s"
  by (cases call; cases t) (auto simp: log_lines_def less_eq_severity_def split: if_splits)

lemma log_lines_monotone:
  "t \<le> t' \<Longrightarrow> set (fst (log_lines t' call msg)) \<subseteq> set (fst (log_lines t call msg))"
  by (cases call; cases t; cases t') (auto simp: log_lines_def less_eq_severity_def)

section \<open>Where it is written\<close>

datatype sink = Stdout | Stderr | LogFile string

record loggers =
  debug_to :: "sink list"
  info_to :: "sink list"
  warning_to :: "sink list"
  err_to :: "sink list"

definition init_loggers :: loggers where
  "init_loggers = \<lparr> debug_to = [Stdout], info_to = [Stdout], warning_to = [Stderr], err_to = [Stderr] \<rparr>"

text \<open>
  \<open>Setup\<close> opens a file named after the program and the process in the log directory; \<open>None\<close> is the fatal
  error if it cannot. \<open>base\<close> and \<open>join\<close> are those of \<open>path/filepath\<close>.
\<close>

definition Setup ::
    "(string \<Rightarrow> string) \<Rightarrow> (string \<Rightarrow> string \<Rightarrow> string) \<Rightarrow> (string \<Rightarrow> bool) \<Rightarrow> string \<Rightarrow> string \<Rightarrow> int \<Rightarrow> loggers option" where
  "Setup base join create dir program pid =
     (let f = join dir (base program @ ''.'' @ print_int pid @ ''.log'')
      in if create f
         then Some \<lparr> debug_to = [LogFile f], info_to = [LogFile f], warning_to = [LogFile f, Stderr],
                     err_to = [LogFile f, Stderr] \<rparr>
         else None)"

fun sinks_of :: "loggers \<Rightarrow> severity \<Rightarrow> sink list" where
  "sinks_of ls DEBUG = debug_to ls"
| "sinks_of ls INFO = info_to ls"
| "sinks_of ls WARNING = warning_to ls"
| "sinks_of ls ERROR = err_to ls"

text \<open>What a call writes: \<open>Fatal\<close> writes the message once more, by Go's own logger, to the terminal.\<close>

definition log_output :: "loggers \<Rightarrow> severity \<Rightarrow> log_call \<Rightarrow> string \<Rightarrow> (sink \<times> string) list" where
  "log_output ls t call msg =
     concat (List.map (\<lambda>(s, m). List.map (\<lambda>k. (k, ''['' @ severity_String s @ ''] '' @ m)) (sinks_of ls s))
       (fst (log_lines t call msg))) @
     (if call = LFatal then [(Stderr, msg)] else [])"

text \<open>
  After \<open>Setup\<close> every line is in the file, once, and the terminal gets the warnings and errors alone;
  without it nothing is kept.
\<close>

lemma output_after_Setup:
  assumes "Setup base join create dir program pid = Some ls"
  shows "(LogFile f, m) \<in> set (log_output ls t call msg) \<longleftrightarrow>
      f = join dir (base program @ ''.'' @ print_int pid @ ''.log'') \<and>
      (\<exists>s. (s, msg) \<in> set (fst (log_lines t call msg)) \<and> m = ''['' @ severity_String s @ ''] '' @ msg)"
    and "(Stdout, m) \<notin> set (log_output ls t call msg)"
    and "(Stderr, m) \<in> set (log_output ls t call msg) \<Longrightarrow> call \<in> {Warning, Error, LFatal}"
  using assms by (cases call; force simp: log_output_def log_lines_def Setup_def Let_def split: if_splits)+

lemma output_before_Setup: "(LogFile f, m) \<notin> set (log_output init_loggers t call msg)"
  by (cases call) (auto simp: log_output_def log_lines_def init_loggers_def)

section \<open>Buffers\<close>

text \<open>
  The free list, which nothing refills, as the list of its contents; \<open>print\<close> looks at the last byte
  of what it has formatted, an index out of range if that is nothing.
\<close>

definition getBuffer :: "string list \<Rightarrow> string list \<times> string" where
  "getBuffer free = (case free of [] \<Rightarrow> ([], []) | b # bs \<Rightarrow> (bs, []))"

definition log_print :: "string \<Rightarrow> string list \<Rightarrow> (string list \<times> string) outcome" where
  "log_print formatted free =
     (let (free1, buf) = getBuffer free; buf1 = buf @ formatted
      in if buf1 = [] then Panic
         else if List.last buf1 \<noteq> CHR 0x0A then Ret (free1, buf1 @ [CHR 0x0A])
         else Ret (free1, buf1))"

definition log_printf :: "string \<Rightarrow> string list \<Rightarrow> string list \<times> string" where
  "log_printf formatted free = (let (free1, buf) = getBuffer free in (free1, buf @ formatted))"

lemma log_print_line:
  "log_print s free = (if s = [] then Panic else
     Ret (tl free, if List.last s = CHR 0x0A then s else s @ [CHR 0x0A]))"
  by (auto simp: log_print_def getBuffer_def split: list.split)

end
