(* ===== verification/Benchmarks.thy ===== *)
theory Benchmarks
  imports Configs Limiters Containers
begin

text \<open>
  The benchmark (\<open>benchmark.go\<close>): its state and the keys it generates. What the random
  generators draw is an argument, an \<open>int\<close> for \<open>next\<close>, to which the floating-point draws of the normal
  and the exponential distribution are converted first; the ranges of the draws are hypotheses of the
  theorems. The mean of the normal distribution may move with time.
\<close>

section \<open>State\<close>

record Benchmark =
  bconfig :: Bconfig
  brate :: "Limiter option"
  bcounter :: int
  globalCouner :: int

definition NewBenchmark :: "Config \<Rightarrow> Benchmark outcome" where
  "NewBenchmark cfg =
     (let b = \<lparr> bconfig = cBenchmark cfg, brate = None, bcounter = - 1, globalCouner = - 1 \<rparr>
      in if Throttle (bconfig b) > 0
         then (case NewLimiter (Throttle (bconfig b)) of Panic \<Rightarrow> Panic | Ret l \<Rightarrow> Ret (b\<lparr>brate := Some l\<rparr>))
         else Ret b)"

section \<open>Keys\<close>

text \<open>Go's remainder has the sign of the dividend; by zero it panics.\<close>

definition go_mod :: "int \<Rightarrow> int \<Rightarrow> int" where
  "go_mod a b = a - go_div a b * b"

lemma go_mod_pos: "0 \<le> a \<Longrightarrow> 0 < b \<Longrightarrow> go_mod a b = a mod b"
  by (simp add: go_mod_def go_div_pos minus_div_mult_eq_mod)

text \<open>The two loops of the normal distribution, which need not end.\<close>

partial_function (option) raise_key :: "int \<Rightarrow> int \<Rightarrow> int option" where
  "raise_key K key = (if key < 0 then raise_key K (key + K) else Some key)"

partial_function (option) lower_key :: "int \<Rightarrow> int \<Rightarrow> int option" where
  "lower_key K key = (if key > K then lower_key K (key - K) else Some key)"

definition order_key :: "Benchmark \<Rightarrow> (Benchmark \<times> int) sync" where
  "order_key b =
     (if bK (bconfig b) = 0 then Panics
      else let b1 = b\<lparr>bcounter := go_mod (bcounter b + 1) (bK (bconfig b))\<rparr>
           in Done (b1, bcounter b1 + bMin (bconfig b)))"

text \<open>
  \<open>draw\<close> is what the generator of the distribution draws, \<open>percent\<close> what \<open>rand.Intn(100)\<close> does; \<open>Intn\<close>
  panics if its bound is not positive, and a Zipf generator with parameters out of range is nil.
\<close>

definition next_key :: "int \<Rightarrow> int \<Rightarrow> Benchmark \<Rightarrow> (Benchmark \<times> int) sync" where
  "next_key draw percent b =
     (let c = bconfig b; K = bK c in
      if Distribution c = ''order'' then order_key b
      else if Distribution c = ''uniform'' then (if K \<le> 0 then Panics else Done (b, draw + bMin c))
      else if Distribution c = ''conflict'' then (if percent < Conflicts c then Done (b, 0) else order_key b)
      else if Distribution c = ''normal'' then
        (case raise_key K draw of
           None \<Rightarrow> Blocks
         | Some k1 \<Rightarrow> (case lower_key K k1 of None \<Rightarrow> Blocks | Some k2 \<Rightarrow> Done (b, k2)))
      else if Distribution c = ''zipfan'' then (if ZipfianS c \<le> 1 \<or> ZipfianV c < 1 then Panics else Done (b, draw))
      else if Distribution c = ''exponential'' then Done (b, draw)
      else Fatal)"

text \<open>The conversions: \<open>z\<close> is a draw of \<open>rand.NormFloat64\<close> and \<open>e\<close> one of \<open>rand.ExpFloat64\<close>.\<close>

definition normal_draw :: "float64 \<Rightarrow> Bconfig \<Rightarrow> int" where
  "normal_draw z c = int_of_float (fadd (fmul z (Sigma c)) (Mu c))"

definition exponential_draw :: "float64 \<Rightarrow> Bconfig \<Rightarrow> int" where
  "exponential_draw e c = int_of_float (fdiv e (Lambda c))"

text \<open>What \<open>Schedule\<close> calls when the mean is to move; a remainder by zero panics.\<close>

definition move_mean :: "Benchmark \<Rightarrow> Benchmark outcome" where
  "move_mean b =
     (let c = bconfig b
      in if bK c = 0 then Panic
         else Ret (b\<lparr>bconfig := c\<lparr>Mu := float_of_int (go_mod (int_of_float (fadd (Mu c) 1)) (bK c))\<rparr>\<rparr>))"

text \<open>With throttling, \<open>next\<close> waits before it returns; the time at which it does is given too.\<close>

definition next_throttled :: "int \<Rightarrow> int \<Rightarrow> int \<Rightarrow> Benchmark \<Rightarrow> (Benchmark \<times> int \<times> int) sync" where
  "next_throttled now draw percent b =
     sbind (next_key draw percent b) (\<lambda>(b1, key).
       if Throttle (bconfig b1) > 0
       then (case brate b1 of
               None \<Rightarrow> Panics
             | Some l \<Rightarrow> let (l1, t) = Wait now l in Done (b1\<lparr>brate := Some l1\<rparr>, key, t))
       else Done (b1, key, now))"

section \<open>The range of the keys\<close>

lemma raise_key_steps:
  "key < 0 \<Longrightarrow> raise_key K key = raise_key K (key + K)" "0 \<le> key \<Longrightarrow> raise_key K key = Some key"
  by (subst raise_key.simps, simp)+

lemma lower_key_steps:
  "K < key \<Longrightarrow> lower_key K key = lower_key K (key - K)" "key \<le> K \<Longrightarrow> lower_key K key = Some key"
  by (subst lower_key.simps, simp)+

text \<open>Without any keys the first loop does not end once it has started.\<close>

lemma raise_key_diverges: "K \<le> 0 \<Longrightarrow> key < 0 \<Longrightarrow> raise_key K key = None"
proof -
  have "K \<le> 0 \<longrightarrow> 0 \<le> key" if "raise_key K key = Some k" for K key k
    by (rule raise_key.raw_induct [where P = "\<lambda>K key k. K \<le> 0 \<longrightarrow> 0 \<le> key", OF _ that])
      (fastforce split: if_splits)
  then show "K \<le> 0 \<Longrightarrow> key < 0 \<Longrightarrow> ?thesis" by (cases "raise_key K key") fastforce+
qed

lemma raise_key_eq: "0 < K \<Longrightarrow> raise_key K key = Some (if key < 0 then key mod K else key)"
proof (induction "nat (- key)" arbitrary: key rule: less_induct)
  case less
  show ?case
  proof (cases "key < 0")
    case True
    with less.prems have "nat (- (key + K)) < nat (- key)" by simp
    moreover have "key mod K = key + K" if "0 \<le> key + K"
      using mod_pos_pos_trivial [OF that, of K] True by simp
    ultimately show ?thesis
      using less.hyps [of "key + K"] True less.prems by (auto simp: raise_key_steps)
  qed (simp add: raise_key_steps)
qed

lemma lower_key_eq:
  "0 < K \<Longrightarrow> 0 \<le> key \<Longrightarrow> lower_key K key = Some (if key \<le> K then key else (key - 1) mod K + 1)"
proof (induction "nat key" arbitrary: key rule: less_induct)
  case less
  show ?case
  proof (cases "key \<le> K")
    case False
    with less.prems have "nat (key - K) < nat key" "0 \<le> key - K" by auto
    from less.hyps [OF this(1) less.prems(1) this(2)] have
      "lower_key K key = Some (if key - K \<le> K then key - K else (key - K - 1) mod K + 1)"
      using False by (simp add: lower_key_steps)
    moreover have "(key - K - 1) mod K = (key - 1) mod K" by (simp add: algebra_simps flip: minus_mod_self2 [of "key - 1" K])
    moreover have "(key - K - 1) mod K = key - K - 1" if "key - K \<le> K"
      using that False less.prems by simp
    ultimately show ?thesis using False by auto
  qed (simp add: lower_key_steps)
qed

text \<open>
  A mean among the keys stays among them, moving on by one each time and back to 0 after the last, and a
  draw of 0 gives it as the key.
\<close>

fun move_means :: "nat \<Rightarrow> Benchmark \<Rightarrow> Benchmark outcome" where
  "move_means 0 b = Ret b"
| "move_means (Suc k) b = (case move_mean b of Panic \<Rightarrow> Panic | Ret b1 \<Rightarrow> move_means k b1)"

lemma move_mean_int:
  assumes "Mu (bconfig b) = of_int m" "0 \<le> m" "m < bK (bconfig b)" "bK (bconfig b) < 2 ^ 53"
  shows "move_mean b = Ret (b\<lparr>bconfig := (bconfig b)\<lparr>Mu := of_int ((m + 1) mod bK (bconfig b))\<rparr>\<rparr>)"
proof -
  let ?K = "bK (bconfig b)"
  have "fadd (of_int m) 1 = float_of_int (m + 1)" by (simp add: fadd_def float_of_int_def)
  also have "\<dots> = of_int (m + 1)" using assms(2-4) by (intro float_of_int_exact) simp
  finally have raised: "int_of_float (fadd (of_int m) 1) = m + 1" using assms(2) by (simp add: int_of_float_def)
  have "0 \<le> (m + 1) mod ?K" "(m + 1) mod ?K < ?K" using assms(2,3) by simp_all
  then have "float_of_int ((m + 1) mod ?K) = of_int ((m + 1) mod ?K)"
    using assms(4) by (intro float_of_int_exact) simp
  then show ?thesis
    using assms(1-3) by (simp add: move_mean_def Let_def raised go_mod_pos)
qed

lemma moving_mean:
  assumes "Mu (bconfig b) = of_int m" "0 \<le> m" "m < bK (bconfig b)" "bK (bconfig b) < 2 ^ 53"
  shows "\<exists>b1. move_means k b = Ret b1 \<and> Mu (bconfig b1) = of_int ((m + int k) mod bK (bconfig b)) \<and>
    normal_draw 0 (bconfig b1) = (m + int k) mod bK (bconfig b)"
  using assms
proof (induction k arbitrary: b m)
  case 0
  have "fround (of_int m) = of_int m" using 0 float_of_int_exact [of m] by (simp add: float_of_int_def)
  then show ?case using 0 by (simp add: normal_draw_def fmul_def fadd_def fround_int int_of_float_def)
next
  case (Suc k)
  let ?K = "bK (bconfig b)"
  let ?b = "b\<lparr>bconfig := (bconfig b)\<lparr>Mu := of_int ((m + 1) mod ?K)\<rparr>\<rparr>"
  have "\<exists>b1. move_means k ?b = Ret b1 \<and> Mu (bconfig b1) = of_int (((m + 1) mod ?K + int k) mod bK (bconfig ?b)) \<and>
    normal_draw 0 (bconfig b1) = ((m + 1) mod ?K + int k) mod bK (bconfig ?b)"
    using Suc.prems by (intro Suc.IH) simp_all
  moreover have "((m + 1) mod ?K + int k) mod ?K = (m + int (Suc k)) mod ?K"
    by (simp add: mod_simps algebra_simps)
  ultimately show ?case using move_mean_int [OF Suc.prems] by simp
qed

text \<open>The calls of \<open>next\<close> for a distribution with the counter: the keys in turn, over and over.\<close>

fun order_keys :: "nat \<Rightarrow> Benchmark \<Rightarrow> int list sync" where
  "order_keys 0 b = Done []"
| "order_keys (Suc n) b =
     sbind (next_key 0 0 b) (\<lambda>(b1, key). sbind (order_keys n b1) (\<lambda>keys. Done (key # keys)))"

lemma order_keys_from:
  assumes "0 < bK c" "Distribution c = ''order''"
  shows "bconfig b = c \<Longrightarrow> 0 \<le> bcounter b + 1 \<Longrightarrow> bcounter b + 1 \<le> bK c \<Longrightarrow>
    order_keys n b = Done (map (\<lambda>j. (bcounter b + 1 + int j) mod bK c + bMin c) [0 ..< n])"
proof (induction n arbitrary: b)
  case (Suc n)
  let ?b = "b\<lparr>bcounter := (bcounter b + 1) mod bK c\<rparr>"
  have "order_keys n ?b = Done (map (\<lambda>j. (bcounter ?b + 1 + int j) mod bK c + bMin c) [0 ..< n])"
    using Suc.prems assms(1) pos_mod_bound [OF assms(1), of "bcounter b + 1"]
    by (intro Suc.IH) (simp_all add: add1_zle_eq)
  moreover have "next_key 0 0 b = Done (?b, (bcounter b + 1) mod bK c + bMin c)"
    using Suc.prems assms by (simp add: next_key_def order_key_def Let_def go_mod_pos)
  moreover have "((bcounter b + 1) mod bK c + 1 + int j) mod bK c = (bcounter b + 1 + int (Suc j)) mod bK c" for j
    using mod_add_left_eq [of "bcounter b + 1" "bK c" "1 + int j"] by (simp add: algebra_simps)
  ultimately show ?case
    by (simp add: upt_conv_Cons map_Suc_upt [symmetric] comp_def del: upt_Suc)
qed simp

text \<open>
  With \<open>K\<close> keys from \<open>Min\<close> on, the order distribution gives all of them in turn, over and over,
  and the uniform one stays among them; the conflict distribution gives 0 or one of them. The normal
  distribution ends and gives a key from 0 to \<open>K\<close>, both included, so one more than there are, and
  whatever \<open>Min\<close> is.
\<close>

theorem keys_in_range:
  assumes "NewBenchmark cfg = Ret b" and "0 < bK (cBenchmark cfg)"
  shows "(Distribution (cBenchmark cfg) = ''order'' \<longrightarrow>
      order_keys n b = Done (map (\<lambda>j. int j mod bK (cBenchmark cfg) + bMin (cBenchmark cfg)) [0 ..< n])) \<and>
    (Distribution (cBenchmark cfg) = ''uniform'' \<longrightarrow> 0 \<le> draw \<and> draw < bK (cBenchmark cfg) \<longrightarrow>
      (\<exists>key. next_key draw p b = Done (b, key) \<and> bMin (cBenchmark cfg) \<le> key \<and>
             key < bMin (cBenchmark cfg) + bK (cBenchmark cfg))) \<and>
    (Distribution (cBenchmark cfg) = ''conflict'' \<longrightarrow>
      (\<exists>b1 key. next_key draw p b = Done (b1, key) \<and> (key = 0 \<or> bMin (cBenchmark cfg) \<le> key \<and>
             key < bMin (cBenchmark cfg) + bK (cBenchmark cfg)))) \<and>
    (Distribution (cBenchmark cfg) = ''normal'' \<longrightarrow>
      (\<exists>key. next_key draw p b = Done (b, key) \<and> 0 \<le> key \<and> key \<le> bK (cBenchmark cfg)) \<and>
      next_key (bK (cBenchmark cfg)) p b = Done (b, bK (cBenchmark cfg)))"
proof -
  let ?c = "cBenchmark cfg"
  have b: "bconfig b = ?c" "bcounter b = - 1"
    using assms(1) by (auto simp: NewBenchmark_def Let_def split: if_splits outcome.splits)
  have order: "\<exists>b1 key. order_key b = Done (b1, key) \<and> bMin ?c \<le> key \<and> key < bMin ?c + bK ?c"
    using assms(2) by (simp add: order_key_def Let_def b go_mod_pos)
  have normal: "\<exists>key. next_key draw p b = Done (b, key) \<and> 0 \<le> key \<and> key \<le> bK ?c"
    if "Distribution ?c = ''normal''"
  proof -
    have raise: "raise_key (bK ?c) draw = Some (if draw < 0 then draw mod bK ?c else draw)"
      by (rule raise_key_eq [OF assms(2)])
    define k1 where "k1 = (if draw < 0 then draw mod bK ?c else draw)"
    have k1: "0 \<le> k1" using assms(2) by (simp add: k1_def)
    define k2 where "k2 = (if k1 \<le> bK ?c then k1 else (k1 - 1) mod bK ?c + 1)"
    have "lower_key (bK ?c) k1 = Some k2" unfolding k2_def by (rule lower_key_eq [OF assms(2) k1])
    moreover have "0 \<le> k2" "k2 \<le> bK ?c"
      using assms(2) k1 pos_mod_bound [OF assms(2), of "k1 - 1"] pos_mod_sign [OF assms(2), of "k1 - 1"]
      by (simp_all add: k2_def)
    ultimately show ?thesis
      using that by (simp add: next_key_def Let_def b raise flip: k1_def)
  qed
  show ?thesis
    using order normal assms(2) order_keys_from [OF assms(2), of b n]
    by (simp add: next_key_def Let_def b raise_key_steps lower_key_steps) blast
qed

theorem keys_in_range_witness:
  "\<exists>b. NewBenchmark (MakeDefaultConfig\<lparr>cBenchmark := DefaultBConfig\<lparr>Distribution := ''normal'', bK := 7\<rparr>\<rparr>) = Ret b \<and>
     next_key 7 0 b = Done (b, 7)"
proof -
  let ?cfg = "MakeDefaultConfig\<lparr>cBenchmark := DefaultBConfig\<lparr>Distribution := ''normal'', bK := 7\<rparr>\<rparr>"
  obtain b where b: "NewBenchmark ?cfg = Ret b"
    by (simp add: NewBenchmark_def Let_def DefaultBConfig_def)
  with keys_in_range [OF b, of 0 0 0] show ?thesis by simp
qed

end
