(* ===== verification/BenchRuns.thy ===== *)
theory BenchRuns
  imports Benchmarks Replies Agreement
begin

text \<open>
  The goroutines of \<open>Benchmark.Run\<close> and \<open>Benchmark.Load\<close>: the main loop puts a key into a buffered
  channel and then a counter into an unbuffered one, the workers take keys and, for a write, a
  counter. A state says where each goroutine is, and a step is what one of them does next; which
  one moves is not determined. The collector always takes what the workers send it, and is part of
  their step. A write that the database refuses is one that sends no latency.
\<close>

section \<open>States and steps\<close>

text \<open>
  The main loop is about to put a key, or about to put a counter, or waits for the latencies at
  the end, or has ended.
\<close>

datatype main_at = AtKey | AtCounter | AtWait | Ended

record Run =
  main :: main_at
  left :: nat
  timed :: bool
  loading :: bool
  cap :: nat
  keys :: "int list"
  idle :: nat
  soured :: nat
  waiting :: "int list"
  busy :: "(int \<times> int) list"
  counter :: int
  wrote :: "(int \<times> int) list"
  adds :: nat
  dones :: nat
  reads :: nat

text \<open>
  The workers that wait for a key are those whose last write has gone well, if they have made one
  (\<open>idle\<close>), and the others (\<open>soured\<close>): a worker keeps the error of its last write, so a read after a
  failed write sends no latency either.

  The start: \<open>n\<close> operations, or any number until the timer if \<open>t\<close>; \<open>ld\<close> for \<open>Load\<close>, whose
  counter is never raised. \<open>m\<close> is the number of workers, and of keys the channel holds.
\<close>

definition start_run :: "bool \<Rightarrow> bool \<Rightarrow> nat \<Rightarrow> nat \<Rightarrow> Run" where
  "start_run ld t n m =
     \<lparr> main = (if t \<or> n > 0 then AtKey else AtWait), left = n, timed = t, loading = ld, cap = m,
       keys = [], idle = m, soured = 0, waiting = [], busy = [], counter = - 1, wrote = [], adds = 0,
       dones = 0, reads = 0 \<rparr>"

text \<open>\<open>wrote\<close> collects the keys with the counters that the workers were given, in order.\<close>

definition put_key :: "int \<Rightarrow> Run \<Rightarrow> Run" where
  "put_key k s = s\<lparr>main := AtCounter, keys := keys s @ [k], adds := adds s + 1\<rparr>"

definition next_counter :: "Run \<Rightarrow> int" where
  "next_counter s = (if loading s then counter s else counter s + 1)"

definition hand_counter :: "int \<Rightarrow> Run \<Rightarrow> Run" where
  "hand_counter k s =
     (let g = next_counter s
      in s\<lparr>main := (if timed s \<or> left s > 1 then AtKey else AtWait), left := left s - 1, counter := g,
           waiting := remove1 k (waiting s), busy := (k, g) # busy s, wrote := wrote s @ [(k, g)]\<rparr>)"

definition end_write :: "int \<times> int \<Rightarrow> bool \<Rightarrow> Run \<Rightarrow> Run" where
  "end_write w ok s =
     (let s1 = s\<lparr>busy := remove1 w (busy s)\<rparr>
      in if ok then s1\<lparr>idle := idle s1 + 1, dones := dones s1 + 1\<rparr> else s1\<lparr>soured := soured s1 + 1\<rparr>)"

inductive bench_step :: "Run \<Rightarrow> Run \<Rightarrow> bool" where
  puts_key: "main s = AtKey \<Longrightarrow> length (keys s) < cap s \<Longrightarrow> bench_step s (put_key k s)"
| times_out: "main s = AtKey \<Longrightarrow> timed s \<Longrightarrow> bench_step s (s\<lparr>main := Ended\<rparr>)"
| takes_to_write: "keys s = k # ks \<Longrightarrow> idle s = Suc m \<Longrightarrow>
     bench_step s (s\<lparr>keys := ks, idle := m, waiting := k # waiting s\<rparr>)"
| takes_to_read: "keys s = k # ks \<Longrightarrow> idle s = Suc m \<Longrightarrow>
     bench_step s (s\<lparr>keys := ks, reads := reads s + 1, dones := dones s + 1\<rparr>)"
| sour_takes_to_write: "keys s = k # ks \<Longrightarrow> soured s = Suc m \<Longrightarrow>
     bench_step s (s\<lparr>keys := ks, soured := m, waiting := k # waiting s\<rparr>)"
| sour_takes_to_read: "keys s = k # ks \<Longrightarrow> soured s = Suc m \<Longrightarrow>
     bench_step s (s\<lparr>keys := ks, reads := reads s + 1\<rparr>)"
| hands_counter: "main s = AtCounter \<Longrightarrow> k \<in> set (waiting s) \<Longrightarrow> bench_step s (hand_counter k s)"
| ends_write: "w \<in> set (busy s) \<Longrightarrow> bench_step s (end_write w ok s)"
| all_done: "main s = AtWait \<Longrightarrow> dones s = adds s \<Longrightarrow> bench_step s (s\<lparr>main := Ended\<rparr>)"

inductive_cases bench_stepE: "bench_step s s'"

inductive bench_reach :: "Run \<Rightarrow> Run \<Rightarrow> bool" for s0 where
  start: "bench_reach s0 s0"
| step: "bench_reach s0 s \<Longrightarrow> bench_step s s' \<Longrightarrow> bench_reach s0 s'"

section \<open>What the channels hold\<close>

text \<open>
  Every key handed out is in the channel, with a worker that waits for a counter, or has been
  read; at most one is, and none when the main loop is about to put the next.
\<close>

definition balanced :: "Run \<Rightarrow> bool" where
  "balanced s \<longleftrightarrow>
     length (keys s) + length (waiting s) + reads s = (if main s = AtCounter then 1 else 0) \<and>
     idle s + soured s + length (waiting s) + length (busy s) = cap s \<and>
     adds s = length (wrote s) + (if main s = AtCounter then 1 else 0) \<and>
     dones s + length (busy s) \<le> length (wrote s) + reads s \<and>
     (main s = Ended \<and> \<not> timed s \<longrightarrow> dones s = adds s)"

lemma balanced_start: "balanced (start_run ld t n m)"
  by (simp add: balanced_def start_run_def)

lemma remove1_length: "x \<in> set xs \<Longrightarrow> \<exists>n. length xs = Suc n \<and> length (remove1 x xs) = n"
  by (induction xs) auto

lemma balanced_step: "bench_step s s' \<Longrightarrow> balanced s \<Longrightarrow> balanced s'"
  by (induction rule: bench_step.induct)
    (auto simp: balanced_def put_key_def hand_counter_def end_write_def Let_def split: if_splits
      dest!: remove1_length)

lemma balanced_reach: "bench_reach (start_run ld t n m) s \<Longrightarrow> balanced s"
  by (induction rule: bench_reach.induct) (simp_all add: balanced_start balanced_step)

lemma bench_step_cap: "bench_step s s' \<Longrightarrow> cap s' = cap s \<and> timed s' = timed s \<and> loading s' = loading s"
  by (induction rule: bench_step.induct) (simp_all add: put_key_def hand_counter_def end_write_def Let_def)

lemma bench_reach_cap: "bench_reach s0 s \<Longrightarrow> cap s = cap s0 \<and> timed s = timed s0 \<and> loading s = loading s0"
  by (induction rule: bench_reach.induct) (simp_all add: bench_step_cap)

text \<open>The first operation of a run with one worker, as a write and as a read.\<close>

lemma first_write:
  "\<exists>s. bench_reach (start_run ld t 1 1) s \<and> wrote s = [(5, if ld then - 1 else 0)] \<and>
     busy s = [(5, if ld then - 1 else 0)]"
proof -
  let ?s0 = "start_run ld t 1 1"
  define s1 where "s1 = put_key 5 ?s0"
  define s2 where "s2 = s1\<lparr>keys := [], idle := 0, waiting := [5]\<rparr>"
  define s3 where "s3 = hand_counter 5 s2"
  note defs = s1_def s2_def s3_def put_key_def hand_counter_def Let_def start_run_def next_counter_def
  have "bench_step ?s0 s1" unfolding s1_def by (rule bench_step.puts_key) (simp_all add: start_run_def)
  moreover have "bench_step s1 s2"
    using bench_step.takes_to_write [of s1 5 "[]" 0] by (simp add: defs)
  moreover have "bench_step s2 s3" unfolding s3_def by (rule bench_step.hands_counter) (simp_all add: defs)
  ultimately have "bench_reach ?s0 s3" by (meson bench_reach.intros)
  then show ?thesis by (intro exI [of _ s3]) (simp add: defs)
qed

lemma first_read: "\<exists>s. bench_reach (start_run ld t 1 1) s \<and> reads s = 1"
proof -
  let ?s0 = "start_run ld t 1 1"
  define s1 where "s1 = put_key 5 ?s0"
  have "bench_step ?s0 s1" unfolding s1_def by (rule bench_step.puts_key) (simp_all add: start_run_def)
  moreover have "bench_step s1 (s1\<lparr>keys := [], reads := 1, dones := dones s1 + 1\<rparr>)"
    using bench_step.takes_to_read [of s1 5 "[]" 0] by (simp add: s1_def put_key_def start_run_def)
  ultimately have "bench_reach ?s0 (s1\<lparr>keys := [], reads := 1, dones := dones s1 + 1\<rparr>)"
    by (meson bench_reach.intros)
  then show ?thesis by fastforce
qed

section \<open>The counters\<close>

definition numbered :: "Run \<Rightarrow> bool" where
  "numbered s \<longleftrightarrow> (if loading s then counter s = - 1 \<and> snd ` set (wrote s) \<subseteq> {- 1}
     else counter s = int (length (wrote s)) - 1 \<and> map snd (wrote s) = map int [0 ..< length (wrote s)])"

lemma numbered_step: "bench_step s s' \<Longrightarrow> numbered s \<Longrightarrow> numbered s'"
  by (induction rule: bench_step.induct)
    (auto simp: numbered_def put_key_def hand_counter_def end_write_def next_counter_def Let_def split: if_splits)

lemma numbered_reach: "bench_reach (start_run ld t n m) s \<Longrightarrow> numbered s"
proof (induction rule: bench_reach.induct)
  case start
  show ?case by (simp add: numbered_def start_run_def)
qed (rule numbered_step)

text \<open>
  However the goroutines of \<open>Run\<close> interleave, the writes get the counters 0, 1, 2, ... in the
  order in which they are handed out. So the commands of a run are numbered apart, as the agreement
  of the replicas requires.
\<close>

theorem run_numbers_apart:
  assumes "bench_reach (start_run False t n m) s" and "\<forall>k g. Counter (f k g) = g"
  shows "map snd (wrote s) = map int [0 ..< length (wrote s)] \<and>
    one_per_slot {f k g | k g. (k, g) \<in> set (wrote s)}"
proof
  have "\<not> loading s" using bench_reach_cap [OF assms(1)] by (simp add: start_run_def)
  then show c: "map snd (wrote s) = map int [0 ..< length (wrote s)]"
    using numbered_reach [OF assms(1)] by (simp add: numbered_def)
  have "inj_on snd (set (wrote s))"
    using c distinct_map [of snd "wrote s"] by (simp add: distinct_map)
  then show "one_per_slot {f k g | k g. (k, g) \<in> set (wrote s)}"
    using assms(2) by (force simp: one_per_slot_def inj_on_def)
qed

theorem run_numbers_apart_witness:
  "\<exists>s. bench_reach (start_run False False 1 1) s \<and> wrote s = [(5, 0)] \<and>
     map snd (wrote s) = map int [0 ..< length (wrote s)]"
proof -
  obtain s where s: "bench_reach (start_run False False 1 1) s" "wrote s = [(5, 0)]"
    using first_write [of False False] by auto
  with run_numbers_apart [OF s(1), of "\<lambda>k g. (example_command k None)\<lparr>Counter := g\<rparr>"] show ?thesis by auto
qed

section \<open>When a run does not end\<close>

lemma stuck_step:
  "bench_step s s' \<Longrightarrow> main s = AtCounter \<Longrightarrow> keys s = [] \<Longrightarrow> waiting s = [] \<Longrightarrow>
     main s' = AtCounter \<and> keys s' = [] \<and> waiting s' = [] \<and> wrote s' = wrote s"
  by (induction rule: bench_step.induct) (auto simp: end_write_def Let_def)

lemma stuck_reach:
  "bench_reach s s' \<Longrightarrow> main s = AtCounter \<Longrightarrow> keys s = [] \<Longrightarrow> waiting s = [] \<Longrightarrow>
     main s' = AtCounter \<and> keys s' = [] \<and> waiting s' = [] \<and> wrote s' = wrote s"
proof (induction rule: bench_reach.induct)
  case (step s1 s2)
  then show ?case using stuck_step [OF step.hyps(2)] by simp
qed simp

lemma writing_goes_on:
  assumes b: "balanced s" and cap: "0 < cap s" and r: "reads s = 0 \<and> main s \<in> {AtKey, AtCounter}"
  shows "\<exists>s'. bench_step s s' \<and> reads s' = 0"
proof (cases "main s = AtKey")
  case True
  then have "length (keys s) < cap s" using b cap by (simp add: balanced_def)
  from bench_step.puts_key [OF True this, of 0] r show ?thesis by (auto simp: put_key_def)
next
  case False
  with r have main: "main s = AtCounter" by simp
  show ?thesis
  proof (cases "waiting s")
    case (Cons k ks)
    then have "k \<in> set (waiting s)" by simp
    from bench_step.hands_counter [OF main this] r show ?thesis by (auto simp: hand_counter_def Let_def)
  next
    case Nil
    then obtain k ks where k: "keys s = k # ks" using b main r by (cases "keys s") (auto simp: balanced_def)
    show ?thesis
    proof (cases "idle s")
      case 0
      show ?thesis
      proof (cases "soured s")
        case 0
        with \<open>idle s = 0\<close> obtain w ws where "busy s = w # ws"
          using b cap Nil by (cases "busy s") (auto simp: balanced_def)
        then have "w \<in> set (busy s)" by simp
        from bench_step.ends_write [OF this, of True] r show ?thesis by (auto simp: end_write_def Let_def)
      next
        case (Suc i)
        from bench_step.sour_takes_to_write [OF k Suc] r show ?thesis by fastforce
      qed
    next
      case (Suc i)
      from bench_step.takes_to_write [OF k Suc] r show ?thesis by fastforce
    qed
  qed
qed

text \<open>
  C35: a run with workers can always go on as long as no worker has taken a read; the first read
  stops it for good: the main loop waits for ever to hand over a counter, no further operation is
  started, and \<open>Run\<close> does not return, with a timer or without.
\<close>

theorem first_read_blocks_run:
  assumes "bench_reach (start_run ld t n m) s" and "0 < m"
  shows "(reads s = 0 \<and> main s \<in> {AtKey, AtCounter} \<longrightarrow> (\<exists>s'. bench_step s s' \<and> reads s' = 0)) \<and>
    (reads s \<noteq> 0 \<longrightarrow> (\<forall>s'. bench_reach s s' \<longrightarrow> main s' = AtCounter \<and> wrote s' = wrote s))"
proof (intro conjI impI allI)
  have b: "balanced s" by (rule balanced_reach [OF assms(1)])
  have "0 < cap s" using bench_reach_cap [OF assms(1)] assms(2) by (simp add: start_run_def)
  from writing_goes_on [OF b this]
  show "\<exists>s'. bench_step s s' \<and> reads s' = 0" if "reads s = 0 \<and> main s \<in> {AtKey, AtCounter}"
    using that by blast
next
  fix s'
  assume "reads s \<noteq> 0" and r: "bench_reach s s'"
  moreover have "length (keys s) + length (waiting s) + reads s = (if main s = AtCounter then 1 else 0)"
    using balanced_reach [OF assms(1)] by (simp add: balanced_def)
  ultimately have "main s = AtCounter" "keys s = []" "waiting s = []"
    by (cases "reads s"; simp split: if_splits)+
  from stuck_reach [OF r this] show "main s' = AtCounter" "wrote s' = wrote s" by simp_all
qed

theorem first_read_blocks_run_witness:
  "\<exists>s. bench_reach (start_run False True 1 1) s \<and> (\<forall>s'. bench_reach s s' \<longrightarrow> main s' = AtCounter)"
proof -
  obtain s where s: "bench_reach (start_run False True 1 1) s" "reads s = 1" using first_read by blast
  with first_read_blocks_run [OF s(1)] show ?thesis by auto
qed

definition behind :: "Run \<Rightarrow> bool" where
  "behind s \<longleftrightarrow> \<not> timed s \<and> balanced s \<and> main s \<noteq> Ended \<and>
     dones s + length (busy s) < length (wrote s) + reads s"

lemma behind_step: "bench_step s s' \<Longrightarrow> behind s \<Longrightarrow> behind s'"
proof -
  assume step: "bench_step s s'" and b: "behind s"
  then have "balanced s'" by (simp add: behind_def balanced_step)
  moreover have "main s' \<noteq> Ended \<and> \<not> timed s' \<and> dones s' + length (busy s') < length (wrote s') + reads s'"
    using step b
  proof (induction rule: bench_step.induct)
    case (all_done s)
    then show ?case by (auto simp: behind_def balanced_def)
  qed (auto simp: behind_def put_key_def hand_counter_def end_write_def Let_def dest!: remove1_length)
  ultimately show ?thesis by (simp add: behind_def)
qed

text \<open>
  In a run of a given number of operations, a single write that the database refuses keeps
  \<open>Run\<close> from ever returning: the wait group is raised for each operation, but lowered only for
  those that succeed.
\<close>

theorem failed_write_blocks_run:
  assumes "bench_reach (start_run ld False n m) s" and "w \<in> set (busy s)"
    and "bench_reach (end_write w False s) s'"
  shows "main s' \<noteq> Ended"
proof -
  have "balanced s" by (rule balanced_reach [OF assms(1)])
  moreover from this have "balanced (end_write w False s)"
    using balanced_step [OF bench_step.ends_write [OF assms(2)]] by blast
  moreover have "\<not> timed s" using bench_reach_cap [OF assms(1)] by (simp add: start_run_def)
  ultimately have start: "behind (end_write w False s)"
    using remove1_length [OF assms(2)] by (auto simp: behind_def end_write_def balanced_def Let_def)
  from assms(3) have "behind s'"
    by (induction rule: bench_reach.induct) (simp_all add: start behind_step)
  then show ?thesis by (simp add: behind_def)
qed

theorem failed_write_blocks_run_witness:
  "\<exists>s. bench_reach (start_run False False 1 1) s \<and>
     (\<forall>s'. bench_reach (end_write (5, 0) False s) s' \<longrightarrow> main s' \<noteq> Ended)"
proof -
  obtain s where s: "bench_reach (start_run False False 1 1) s" "(5, 0) \<in> set (busy s)"
    using first_write [of False False] by auto
  with failed_write_blocks_run [OF s] show ?thesis by blast
qed

section \<open>Loading\<close>

text \<open>
  No write of \<open>Load\<close> is ever answered: they all carry the counter -1, and no replica, in
  whatever state and whatever it is fed afterwards, answers a request for that slot.
\<close>

theorem load_hangs:
  assumes "bench_reach (start_run True t n m) s" and "(k, g) \<in> set (wrote s)"
    and "client_Put cfg ids k (Some v) g gl c = Ret (gl1, c1, msg)"
    and "range_order ord (hHeader (wire extra msg))"
    and "handleRoot_request unmarshal i now ch ord (wire extra msg) = Inr r"
    and "handle_all cfg is (NewConsensus cfg i) = (p, evs)"
    and "\<forall>r' \<in> set (requests_of is) \<union> set (requests_of js). rc r' \<noteq> Some ch"
  shows "g = - 1 \<and> filter (reply_to ch) (snd (handle_all cfg (InRequest r # js) p)) = []"
proof -
  have "loading s" using bench_reach_cap [OF assms(1)] by (simp add: start_run_def)
  with numbered_reach [OF assms(1)] assms(2) have g: "g = - 1" by (force simp: numbered_def)
  have "msg = RESTPut ids c1 (hID c1) k (Some v) g"
    using assms(3) by (auto simp: client_Put_def split: outcome.splits)
  then obtain b where msg: "msg = rest_request b (hID c1) k (Some v) (hCID c1) g"
    by (simp add: RESTPut_def rest_call_def)
  have "Counter (rCommand r) = g \<and> rc r = Some ch"
    using rest_slot [OF assms(4) [unfolded msg] _ _ assms(5) [unfolded msg]] by (simp add: g)
  moreover have "0 \<le> execute p"
    using in_order_handle_all [of "NewConsensus cfg i" cfg "is"] assms(6)
    by (simp add: in_order_def NewConsensus_def)
  ultimately show ?thesis
    using late_request_hangs [OF assms(6) _ _ assms(7)] by (simp add: g)
qed

theorem load_hangs_witness:
  "\<exists>msg r. client_Put (MakeDefaultConfig\<lparr>Addrs := fmupd ''1.1'' [] fmempty\<rparr>) [] 5 (Some [6]) (- 1)
       \<lparr> gList = [''1.1''], grr = 0 \<rparr> solo_client =
       Ret (\<lparr> gList = [''1.1''], grr = 0 \<rparr>, solo_client\<lparr>hC := 0, hCID := 1\<rparr>, msg) \<and>
     handleRoot_request (\<lambda>b c. c) ''1.1'' 0 8 [''Cid'', ''Count'', ''Id''] (wire fmempty msg) = Inr r \<and>
     filter (reply_to 8) (snd (handle_all (MakeDefaultConfig\<lparr>Addrs := fmupd ''1.1'' [] fmempty\<rparr>) [InRequest r]
       (NewConsensus (MakeDefaultConfig\<lparr>Addrs := fmupd ''1.1'' [] fmempty\<rparr>) ''1.1''))) = []"
proof -
  let ?cfg = "MakeDefaultConfig\<lparr>Addrs := fmupd ''1.1'' [] fmempty\<rparr>"
  let ?msg = "rest_request [] ''1.1'' 5 (Some [6]) 1 (- 1)"
  obtain s where s: "bench_reach (start_run True False 1 1) s" "(5, - 1) \<in> set (wrote s)"
    using first_write [of True False] by auto
  have put: "client_Put ?cfg [] 5 (Some [6]) (- 1) \<lparr> gList = [''1.1''], grr = 0 \<rparr> solo_client =
      Ret (\<lparr> gList = [''1.1''], grr = 0 \<rparr>, solo_client\<lparr>hC := 0, hCID := 1\<rparr>, ?msg)"
    by (simp add: client_Put_def Put_target_def Next_def solo_client_def len_map_def RESTPut_def rest_call_def)
  have ord: "range_order [''Cid'', ''Count'', ''Id''] (hHeader (wire fmempty ?msg))"
    by (rule plain_headers)
  obtain r where r: "handleRoot_request (\<lambda>b c. c) ''1.1'' 0 8 [''Cid'', ''Count'', ''Id''] (wire fmempty ?msg) = Inr r"
    using rest_read_back [OF ord, of "\<lambda>b c. c" "''1.1''" 0 8] by auto
  have run: "handle_all ?cfg [] (NewConsensus ?cfg ''1.1'') = (NewConsensus ?cfg ''1.1'', [])" by simp
  have "filter (reply_to 8) (snd (handle_all ?cfg (InRequest r # []) (NewConsensus ?cfg ''1.1''))) = []"
    using load_hangs [OF s put ord r run, of "[]"] by simp
  with put r show ?thesis by blast
qed

end
