(* ===== verification/Campaigns.thy ===== *)
theory Campaigns
  imports BenchRuns Utilities
begin

text \<open>
  A benchmark against the replicated system: the adapter of \<open>client/client.go\<close>, through which a worker of
  the benchmark writes random values by the client library, composed with the run (\<open>BenchRuns\<close>), the REST
  call (\<open>Https\<close>) and the replicas over the network (\<open>Network\<close>, \<open>Agreement\<close>).
\<close>

section \<open>The adapter\<close>

text \<open>\<open>Init\<close> and \<open>Stop\<close> do nothing; \<open>Write\<close> hands the bytes over as the value of the key.\<close>

definition db_Init :: "'e option" where
  "db_Init = None"

definition db_Stop :: "'e option" where
  "db_Stop = None"

definition db_Write ::
    "Config \<Rightarrow> gid list \<Rightarrow> int \<Rightarrow> bytes \<Rightarrow> int \<Rightarrow> client_globals \<Rightarrow> HTTPClient \<Rightarrow>
     (client_globals \<times> HTTPClient \<times> rest_message) outcome" where
  "db_Write cfg ord k v cnt g c = client_Put cfg ord k (Some v) cnt g c"

text \<open>What a worker does with a key and a counter: a random value, and the write.\<close>

definition worker_write ::
    "(nat \<Rightarrow> nat) \<Rightarrow> int \<Rightarrow> Config \<Rightarrow> gid list \<Rightarrow> int \<Rightarrow> int \<Rightarrow> client_globals \<Rightarrow> HTTPClient \<Rightarrow>
     (client_globals \<times> HTTPClient \<times> rest_message) outcome" where
  "worker_write draws n cfg ord k cnt g c =
     (case GenerateRandVal draws n of Panic \<Rightarrow> Panic | Ret v \<Rightarrow> db_Write cfg ord k v cnt g c)"

lemma worker_write_sends:
  assumes "worker_write draws n cfg ord k cnt g c = Ret (g1, c1, q)"
  shows "\<exists>b i v. GenerateRandVal draws n = Ret v \<and> q = rest_request b i k (Some v) (hCID c1) cnt"
  using assms
  by (auto simp: worker_write_def db_Write_def client_Put_def RESTPut_def rest_call_def split: outcome.splits)

section \<open>The requests of a run\<close>

text \<open>
  A request that a replica makes of the REST call in which a worker has written the key with the
  counter: on whatever node, with whatever headers added on the way.
\<close>

definition request_of :: "int \<Rightarrow> int \<times> int \<Rightarrow> Request \<Rightarrow> bool" where
  "request_of n w r \<longleftrightarrow>
     (\<exists>draws cfg ord g c g1 c1 q extra ordh unmarshal i now ch.
        (\<forall>j. draws j < 52) \<and> worker_write draws n cfg ord (fst w) (snd w) g c = Ret (g1, c1, q) \<and>
        int64 (hCID c1) \<and> range_order ordh (hHeader (wire extra q)) \<and>
        handleRoot_request unmarshal i now ch ordh (wire extra q) = Inr r)"

lemma request_ofI:
  assumes "\<forall>j. draws j < 52" "worker_write draws n cfg ord (fst w) (snd w) g c = Ret (g1, c1, q)" "int64 (hCID c1)"
    "range_order ordh (hHeader (wire extra q))" "handleRoot_request unmarshal i now ch ordh (wire extra q) = Inr r"
  shows "request_of n w r"
  using assms unfolding request_of_def by blast

lemma request_of_command:
  assumes "request_of n w r" "0 < n" "int64 (fst w)" "int64 (snd w)"
  shows "Key (rCommand r) = fst w \<and> Counter (rCommand r) = snd w \<and> (\<exists>v. Value (rCommand r) = Some v \<and> v \<noteq> [])"
proof -
  obtain draws cfg ord g c g1 c1 q extra ordh unmarshal i now ch where w: "\<forall>j. draws j < 52"
    "worker_write draws n cfg ord (fst w) (snd w) g c = Ret (g1, c1, q)" "int64 (hCID c1)"
    "range_order ordh (hHeader (wire extra q))" "handleRoot_request unmarshal i now ch ordh (wire extra q) = Inr r"
    using assms(1) unfolding request_of_def by blast
  obtain b j v where v: "GenerateRandVal draws n = Ret v"
    and q: "q = rest_request b j (fst w) (Some v) (hCID c1) (snd w)"
    using worker_write_sends [OF w(2)] by blast
  have "v \<noteq> []" using GenerateRandVal_letters [of n draws] w(1) assms(2) v by auto
  moreover have "rCommand r = \<lparr> Key = fst w, Value = Some v, ClientID = j, CommandID = hCID c1, Counter = snd w \<rparr>"
  proof -
    have k: "- (2 ^ 63) \<le> fst w" "fst w < 2 ^ 63" "- (2 ^ 63) \<le> hCID c1" "hCID c1 < 2 ^ 63"
      "- (2 ^ 63) \<le> snd w" "snd w < 2 ^ 63"
      using assms(3,4) w(3) unfolding int64_def by blast+
    obtain props where "handleRoot_request unmarshal i now ch ordh (wire extra q) =
        Inr \<lparr> rCommand = \<lparr> Key = fst w, Value = Some v, ClientID = j, CommandID = hCID c1, Counter = snd w \<rparr>,
              rProperties = props, rTimestamp = now, rNodeID = i, rc = Some ch, rError = None \<rparr>"
      using rest_read_back [OF w(4) [unfolded q] k, of unmarshal i now ch] unfolding q by blast
    with w(5) show ?thesis by (simp only: sum.inject) (metis Request.select_convs(1))
  qed
  ultimately show ?thesis by simp
qed

lemma run_numbered:
  assumes "bench_reach (start_run False t n m) s"
  shows "map snd (wrote s) = map int [0 ..< length (wrote s)]"
  using numbered_reach [OF assms] bench_reach_cap [OF assms] by (simp add: numbered_def start_run_def)

lemma numbered_position:
  assumes "map snd xs = map int [0 ..< length xs]" "(k, int j) \<in> set xs"
  shows "j < length xs \<and> xs ! j = (k, int j)"
proof -
  obtain i where i: "i < length xs" "xs ! i = (k, int j)" using assms(2) by (auto simp: in_set_conv_nth)
  then have "map snd xs ! i = int j" by simp
  moreover have "map snd xs ! i = int i" using i(1) by (simp add: assms(1))
  ultimately show ?thesis using i by simp
qed

text \<open>
  C11: When the clients of the replicas are the workers of one benchmark run (\<open>Run\<close>, not \<open>Load\<close>) that only writes,
  with values of a positive size, every replica applies the writes in the order in which the run has numbered them,
  without a gap, at any time a first part of them, and replicas that have applied equally many have equal
  databases: whatever the interleaving of the workers, the nodes they write to, and the network.
\<close>

theorem benchmarked_replicas_agree:
  assumes "bench_reach (start_run False t n m) s" and "length (wrote s) < 2 ^ 63"
    and "0 < nbytes" and "\<forall>w \<in> set (wrote s). int64 (fst w) \<and> request_of nbytes w (r w)"
    and "reachable cfg ids ((\<lambda>w. rCommand (r w)) ` set (wrote s)) S"
  shows "map (\<lambda>(j, c). (Key c, j)) (hist S i) = take (length (hist S i)) (wrote s) \<and>
    (length (hist S i) = length (hist S i') \<longrightarrow> db (replicas S i) = db (replicas S i'))"
proof -
  let ?C = "(\<lambda>w. rCommand (r w)) ` set (wrote s)"
  note numbers = run_numbered [OF assms(1)]
  have range: "int64 (snd w)" if "w \<in> set (wrote s)" for w
  proof -
    have "snd w \<in> set (map snd (wrote s))" using that by (metis in_set_zipE set_zip_rightD zip_map_fst_snd prod.collapse)
    then show ?thesis using assms(2) by (auto simp: numbers int64_def)
  qed
  have command: "Key (rCommand (r w)) = fst w \<and> Counter (rCommand (r w)) = snd w \<and>
      (\<exists>v. Value (rCommand (r w)) = Some v \<and> v \<noteq> [])" if "w \<in> set (wrote s)" for w
    using request_of_command [of nbytes w "r w"] assms(3,4) range that by blast
  have "inj_on snd (set (wrote s))"
    using numbers distinct_map [of snd "wrote s"] by (simp add: distinct_map)
  then have one: "one_per_slot ?C" using command by (fastforce simp: one_per_slot_def inj_on_def)
  have filled: "no_empty_value ?C" using command by (fastforce simp: no_empty_value_def)
  have place: "j < length (wrote s) \<and> (\<lambda>(j, c). (Key c, j)) (hist S i ! j) = wrote s ! j"
    if "j < length (hist S i)" for i j
  proof -
    have "issued ?C (int j) (snd (hist S i ! j))" and idx: "fst (hist S i ! j) = int j"
      using hist_nth [OF assms(5) that] by simp_all
    then have "snd (hist S i ! j) \<in> ?C" "Counter (snd (hist S i ! j)) = int j"
      using filled by (simp_all add: issued_exact no_empty_value_def)
    then obtain w where w: "w \<in> set (wrote s)" "snd (hist S i ! j) = rCommand (r w)" "snd w = int j"
      using command by fastforce
    then have "(fst w, int j) \<in> set (wrote s)" by (metis prod.collapse)
    from numbered_position [OF numbers this] command [OF w(1)] w(2) idx show ?thesis
      by (simp add: split_beta)
  qed
  have "length (hist S i) \<le> length (wrote s)"
    using place [of "length (hist S i) - 1" i] by (cases "hist S i") auto
  then have "map (\<lambda>(j, c). (Key c, j)) (hist S i) = take (length (hist S i)) (wrote s)"
    using place by (intro nth_equalityI) simp_all
  moreover have "db (replicas S i) = db (replicas S i')" if "length (hist S i) = length (hist S i')"
  proof -
    have "hist S i = hist S i'"
      using hist_prefix [OF assms(5) one filled, of i i'] that by (auto simp: prefix_def)
    then show ?thesis by (simp only: reachable_facts(5) [OF assms(5)])
  qed
  ultimately show ?thesis by blast
qed

definition one_node :: Config where
  "one_node = MakeDefaultConfig\<lparr>Addrs := fmupd ''1.1'' [] fmempty\<rparr>"

lemma sample_write:
  "worker_write (\<lambda>i. 0) 3 one_node [] 5 0 \<lparr> gList = [''1.1''], grr = 0 \<rparr> solo_client =
     Ret (\<lparr> gList = [''1.1''], grr = 0 \<rparr>, solo_client\<lparr>hC := 0, hCID := 1\<rparr>,
       rest_request [] ''1.1'' 5 (Some (replicate 3 (letterBytes ! 0))) 1 0)"
proof -
  have "GenerateRandVal (\<lambda>i. 0) 3 = Ret (replicate 3 (letterBytes ! 0))"
    by (simp add: GenerateRandVal_def map_replicate_const)
  then show ?thesis
    by (simp add: worker_write_def db_Write_def client_Put_def Put_target_def Next_def one_node_def solo_client_def
        len_map_def RESTPut_def rest_call_def)
qed

lemma sample_request: "\<exists>r. request_of 3 (5, 0) r \<and> Counter (rCommand r) = 0"
proof -
  let ?q = "rest_request [] ''1.1'' 5 (Some (replicate 3 (letterBytes ! 0))) 1 0"
  obtain r where r: "handleRoot_request (\<lambda>b c. c) ''1.1'' 0 8 [''Cid'', ''Count'', ''Id''] (wire fmempty ?q) = Inr r"
    "Counter (rCommand r) = 0"
    using rest_read_back [OF plain_headers, of 5 1 0 "\<lambda>b c. c" "''1.1''" 0 8] by fastforce
  have "request_of 3 (5, 0) r"
    by (rule request_ofI [OF _ _ _ plain_headers r(1), where draws = "\<lambda>i. 0" and cfg = one_node and c = solo_client
          and ord = "[]" and g = "\<lparr> gList = [''1.1''], grr = 0 \<rparr>" and ?g1.0 = "\<lparr> gList = [''1.1''], grr = 0 \<rparr>"
          and ?c1.0 = "solo_client\<lparr>hC := 0, hCID := 1\<rparr>"])
      (simp_all add: sample_write int64_def)
  with r(2) show ?thesis by blast
qed

theorem benchmarked_replicas_agree_witness:
  "\<exists>s r S. bench_reach (start_run False False 1 1) s \<and> wrote s = [(5, 0)] \<and> request_of 3 (5, 0) r \<and>
     reachable four {''1.1'', ''1.2'', ''1.3'', ''1.4''} {rCommand r} S \<and> length (hist S ''1.2'') = 1 \<and>
     map (\<lambda>(j, c). (Key c, j)) (hist S ''1.2'') = [(5, 0)]"
proof -
  obtain s where s: "bench_reach (start_run False False 1 1) s" "wrote s = [(5, 0)]"
    using first_write [of False False] by auto
  obtain r where r: "request_of 3 (5, 0) r" "Counter (rCommand r) = 0" using sample_request by blast
  let ?S = "run_system four (clash_inputs (rCommand r) (rCommand r)) (init_system four)"
  have S: "reachable four {''1.1'', ''1.2'', ''1.3'', ''1.4''} {rCommand r} ?S"
    using clash_valid [OF r(2) r(2), of "{rCommand r}"] by (intro reachable_run reachable.init) simp_all
  then have S': "reachable four {''1.1'', ''1.2'', ''1.3'', ''1.4''} ((\<lambda>w. rCommand r) ` set (wrote s)) ?S"
    by (simp add: s(2))
  have one: "length (hist ?S ''1.2'') = 1" using clash_run(2) [OF r(2) r(2)] by simp
  have "map (\<lambda>(j, c). (Key c, j)) (hist ?S ''1.2'') = take (length (hist ?S ''1.2'')) (wrote s)"
    using benchmarked_replicas_agree [OF s(1) _ _ _ S', of 3 "''1.2''"] r(1) by (simp add: s(2) int64_def)
  with s r S one show ?thesis by (intro exI [of _ s] exI [of _ r] exI [of _ ?S]) simp
qed

end
