(* ===== verification/Exchanges.thy ===== *)
theory Exchanges
  imports Replies Containers Agreement
begin

text \<open>
  The rest of the client library (\<open>client.go\<close>): how it reads an answer, the calls that go to all
  nodes at once, and the calls in JSON. Sending a message and getting the response is an argument,
  and so is \<open>encoding/json\<close>.
\<close>

section \<open>The answer to a REST call\<close>

datatype rest_error = CannotCreate | NotSent | NotRead | BadStatus int

type_synonym rest_result = "Value \<times> (string, string) gomap option \<times> rest_error option"

definition rest_metadata :: "string list \<Rightarrow> http_response \<Rightarrow> (string, string) gomap" where
  "rest_metadata ord rep = fold (\<lambda>k. fmupd k (header_get (wHeader rep) k)) ord fmempty"

text \<open>\<open>readable\<close> says whether the body could be read to its end.\<close>

definition rest_answer :: "string list \<Rightarrow> (http_response \<times> bool) option \<Rightarrow> rest_result" where
  "rest_answer ord res =
     (case res of
        None \<Rightarrow> (None, None, Some NotSent)
      | Some (rep, readable) \<Rightarrow>
          let metadata = Some (rest_metadata ord rep)
          in if status rep = 200
             then if \<not> readable then (None, metadata, Some NotRead)
                  else (Some (wBody rep), metadata, None)
             else (None, metadata, Some (BadStatus (status rep))))"

text \<open>
  \<open>valid\<close> is the check of \<open>http.NewRequest\<close>, \<open>send\<close> the exchange, \<open>ord\<close> the order in which the loop
  of \<open>GetURL\<close> meets the nodes and \<open>ord'\<close> that of the response's headers.
\<close>

definition rest ::
    "(rest_message \<Rightarrow> bool) \<Rightarrow> (rest_message \<Rightarrow> (http_response \<times> bool) option) \<Rightarrow> string list \<Rightarrow>
     gid list \<Rightarrow> HTTPClient \<Rightarrow> gid \<Rightarrow> int \<Rightarrow> Value \<Rightarrow> int \<Rightarrow> int \<Rightarrow> rest_result" where
  "rest valid send ord' ord c i key v cnt g =
     (let q = rest_call ord c i key v cnt g
      in if \<not> valid q then (None, None, Some CannotCreate) else rest_answer ord' (send q))"

text \<open>
  What the client's library sees of the headers: those the server's library has added (\<open>extra\<close>), and those of
  the handler, with line ends turned into spaces and without white space at either end; names that are not
  tokens are left out.
\<close>

definition valid_name :: "string \<Rightarrow> bool" where
  "valid_name k \<longleftrightarrow> k \<noteq> [] \<and> list_all token_char k"

definition white :: "char \<Rightarrow> bool" where
  "white c \<longleftrightarrow> (of_char c :: nat) \<in> {9, 10, 13, 32}"

definition cleaned :: "string \<Rightarrow> string" where
  "cleaned v =
     (let w = map (\<lambda>c. if (of_char c :: nat) \<in> {10, 13} then char_of (32 :: nat) else c) v
      in rev (dropWhile white (rev (dropWhile white w))))"

definition wire_back :: "(string, string list) gomap \<Rightarrow> http_response \<Rightarrow> http_response" where
  "wire_back extra rep = rep\<lparr>wHeader := extra ++\<^sub>f fmmap (map cleaned) (fmfilter valid_name (wHeader rep))\<rparr>"

text \<open>
  The values that the client's library takes have no control characters but tabs and line ends, and the names
  for which the libraries have a use of their own are not those of properties.
\<close>

definition printable :: "string \<Rightarrow> bool" where
  "printable v \<longleftrightarrow> list_all (\<lambda>c. let n = of_char c :: nat in n \<in> {9, 10, 13} \<or> 32 \<le> n \<and> n \<noteq> 127) v"

definition reserved_names :: "string set" where
  "reserved_names = {''Content-Length'', ''Transfer-Encoding'', ''Connection'', ''Trailer'', ''Content-Encoding''}"

definition plain_reply :: "Reply \<Rightarrow> bool" where
  "plain_reply y \<longleftrightarrow> inj_on canonical_key (fmdom' (yProperties y)) \<and> printable (ClientID (yCommand y)) \<and>
     (\<forall>k v. fmlookup (yProperties y) k = Some v \<longrightarrow>
        valid_name k \<and> canonical_key k \<notin> reserved_names \<and> printable v)"

lemma fold_fmupd: "fmlookup (fold (\<lambda>k. fmupd k (f k)) ks m) k = (if k \<in> set ks then Some (f k) else fmlookup m k)"
  by (induction ks arbitrary: m) auto

lemma fold_header_set_other:
  "k \<notin> canonical_key ` set ks \<Longrightarrow> fmlookup (fold (\<lambda>k. header_set k (f k)) ks h) k = fmlookup h k"
  by (induction ks arbitrary: h) (auto simp: header_set_def)

lemma fold_header_set:
  "k \<in> set ks \<Longrightarrow> inj_on canonical_key (set ks) \<Longrightarrow>
     fmlookup (fold (\<lambda>k. header_set k (f k)) ks h) (canonical_key k) = Some [f k]"
proof (induction ks arbitrary: h)
  case (Cons x ks)
  show ?case
  proof (cases "k \<in> set ks")
    case True
    with Cons show ?thesis by simp
  next
    case False
    with Cons.prems have "canonical_key k \<notin> canonical_key ` set ks" "k = x" by (auto simp: inj_on_def)
    moreover have "fmlookup (header_set x (f x) h) (canonical_key x) = Some [f x]" by (simp add: header_set_def)
    ultimately show ?thesis using fold_header_set_other [of "canonical_key k" ks f "header_set x (f x) h"] by simp
  qed
qed simp

lemma through:
  "fmlookup (extra ++\<^sub>f fmmap g (fmfilter P h)) k =
     (case fmlookup h k of
        Some v \<Rightarrow> if P k then Some (g v) else fmlookup extra k
      | None \<Rightarrow> fmlookup extra k)"
  by (cases "fmlookup h k") (auto simp: fmlookup_dom_iff)

lemma valid_canonical: "valid_name k \<Longrightarrow> valid_name (canonical_key k)"
  using recase_token [of k True] by (cases k) (simp_all add: valid_name_def canonical_key_def)

lemma fixed_names [simp]: "valid_name HTTPCommandID" "valid_name HTTPClientID"
  unfolding valid_name_def HTTPCommandID_def HTTPClientID_def by code_simp+

text \<open>
  C23: What a client reads back of a replica's reply. The value is that of the reply, the empty
  one for nil, with the reply's properties under the canonical forms of their names and, where they do not
  say otherwise, its client and command number as headers, and those that the library adds; the values come
  without line ends and the white space around them. This is for properties whose names are tokens, not
  two with the same canonical form and none that the HTTP library uses itself, and values without control
  characters. Of an error only the status 500 is left, its text is lost.
\<close>

theorem reply_roundtrip:
  assumes "range_order ord' (yProperties y)"
    and "range_order ord (wHeader (wire_back extra (handleRoot_reply ord' y)))"
    and "plain_reply y" and "\<forall>k \<in> fmdom' extra. canonical_key k = k"
  shows "case yErr y of
      Some e \<Rightarrow> \<exists>meta. rest_answer ord (Some (wire_back extra (handleRoot_reply ord' y), True)) =
        (None, meta, Some (BadStatus 500))
    | None \<Rightarrow> \<exists>meta. rest_answer ord (Some (wire_back extra (handleRoot_reply ord' y), True)) =
          (Some (content (yValue y)), Some meta, None) \<and>
        (\<forall>k v. fmlookup (yProperties y) k = Some v \<longrightarrow> fmlookup meta (canonical_key k) = Some (cleaned v)) \<and>
        (\<forall>k. k \<notin> canonical_key ` fmdom' (yProperties y) \<longrightarrow> fmlookup meta k =
           (if k = HTTPCommandID then Some (cleaned (print_int (CommandID (yCommand y))))
            else if k = HTTPClientID then Some (cleaned (ClientID (yCommand y)))
            else if k \<in> fmdom' extra then Some (header_get extra k) else None))"
proof (cases "yErr y")
  case None
  let ?w = "wire_back extra (handleRoot_reply ord' y)"
  let ?h0 = "header_set HTTPCommandID (print_int (CommandID (yCommand y))) (header_set HTTPClientID (ClientID (yCommand y)) fmempty)"
  have dom: "set ord' = fmdom' (yProperties y)" "set ord = fmdom' (wHeader ?w)"
    using assms(1,2) by (simp_all add: range_order_def)
  have inj: "inj_on canonical_key (set ord')" using assms(3) by (simp add: plain_reply_def dom(1))
  have sent: "wHeader (handleRoot_reply ord' y) = fold (\<lambda>k. header_set k (get_or [] (yProperties y) k)) ord' ?h0"
    using None by (simp add: handleRoot_reply_def)
  have w: "wHeader ?w = extra ++\<^sub>f fmmap (map cleaned)
      (fmfilter valid_name (fold (\<lambda>k. header_set k (get_or [] (yProperties y) k)) ord' ?h0))"
    unfolding wire_back_def sent [symmetric] by simp
  have by_name: "fmlookup (wHeader ?w) (canonical_key k) = Some [cleaned v]" if "fmlookup (yProperties y) k = Some v" for k v
  proof -
    have "k \<in> set ord'" using that by (simp add: dom(1) fmlookup_dom'_iff)
    moreover have "valid_name (canonical_key k)" using assms(3) that valid_canonical by (auto simp: plain_reply_def)
    moreover have "get_or [] (yProperties y) k = v" using that by (simp add: get_or_def)
    ultimately show ?thesis
      unfolding w through using fold_header_set [OF _ inj, of k "get_or [] (yProperties y)" ?h0] by simp
  qed
  have rest: "fmlookup (wHeader ?w) k =
      (if k = HTTPCommandID then Some [cleaned (print_int (CommandID (yCommand y)))]
       else if k = HTTPClientID then Some [cleaned (ClientID (yCommand y))] else fmlookup extra k)"
    if "k \<notin> canonical_key ` fmdom' (yProperties y)" for k
    unfolding w through using fold_header_set_other [of k ord' "get_or [] (yProperties y)" ?h0] that
    by (simp add: dom(1)) (simp add: header_set_def)
  have meta: "fmlookup (rest_metadata ord ?w) k = (if fmlookup (wHeader ?w) k = None then None else Some (header_get (wHeader ?w) k))"
    for k unfolding rest_metadata_def fold_fmupd dom(2) by (simp add: fmlookup_dom'_iff)
  have "fmlookup (rest_metadata ord ?w) (canonical_key k) = Some (cleaned v)" if "fmlookup (yProperties y) k = Some v" for k v
    using by_name [OF that] by (simp add: meta header_get_def)
  moreover have "fmlookup (rest_metadata ord ?w) k =
     (if k = HTTPCommandID then Some (cleaned (print_int (CommandID (yCommand y))))
      else if k = HTTPClientID then Some (cleaned (ClientID (yCommand y)))
      else if k \<in> fmdom' extra then Some (header_get extra k) else None)"
    if "k \<notin> canonical_key ` fmdom' (yProperties y)" for k
  proof (cases "fmlookup extra k")
    case (Some vs)
    then have "canonical_key k = k" using assms(4) by (simp add: fmlookup_dom'_iff)
    then show ?thesis using rest [OF that] Some
      by (cases "k = HTTPCommandID"; cases "k = HTTPClientID") (simp_all add: meta header_get_def fmlookup_dom'_iff)
  next
    case None
    then show ?thesis using rest [OF that]
      by (cases "k = HTTPCommandID"; cases "k = HTTPClientID") (simp_all add: meta header_get_def fmlookup_dom'_iff)
  qed
  moreover have "rest_answer ord (Some (?w, True)) = (Some (content (yValue y)), Some (rest_metadata ord ?w), None)"
    using None by (simp add: rest_answer_def handleRoot_reply_def wire_back_def)
  ultimately show ?thesis using None by simp
next
  case (Some e)
  then show ?thesis
    by (simp add: rest_answer_def handleRoot_reply_def http_error_response_def wire_back_def)
qed

text \<open>A reply with the property \<open>foo-BAR\<close>.\<close>

definition tagged_reply :: Reply where
  "tagged_reply = \<lparr> yCommand = zero_command, yValue = None, yProperties = fmupd ''foo-BAR'' '' x '' fmempty, yTimestamp = 0,
     yErr = None \<rparr>"

theorem reply_roundtrip_witness:
  "\<exists>meta. rest_answer [''Foo-Bar'', ''Id'', ''Cid'']
     (Some (wire_back fmempty (handleRoot_reply [''foo-BAR''] tagged_reply), True)) = (Some [], Some meta, None) \<and>
     fmlookup meta ''Foo-Bar'' = Some ''x''"
proof -
  let ?y = tagged_reply
  have names: "valid_name ''foo-BAR''" "''Foo-Bar'' \<notin> reserved_names" "printable '' x ''" "cleaned '' x '' = ''x''"
    by code_simp+
  have "valid_name ''Foo-Bar''" using valid_canonical [OF names(1)] by simp
  then have "range_order [''foo-BAR''] (yProperties ?y)"
    and "range_order [''Foo-Bar'', ''Id'', ''Cid''] (wHeader (wire_back fmempty (handleRoot_reply [''foo-BAR''] ?y)))"
    using fixed_names by (auto simp: tagged_reply_def range_order_def wire_back_def handleRoot_reply_def header_set_def
        HTTPClientID_def HTTPCommandID_def)
  moreover have "plain_reply ?y"
    using names by (simp add: plain_reply_def tagged_reply_def zero_command_def) (simp add: printable_def)
  moreover have y: "yErr ?y = None" "yValue ?y = None" "fmlookup (yProperties ?y) ''foo-BAR'' = Some '' x ''"
    by (simp_all add: tagged_reply_def)
  ultimately obtain meta where "rest_answer [''Foo-Bar'', ''Id'', ''Cid'']
      (Some (wire_back fmempty (handleRoot_reply [''foo-BAR''] ?y), True)) = (Some [], Some meta, None)"
    "\<forall>k v. fmlookup (yProperties ?y) k = Some v \<longrightarrow> fmlookup meta (canonical_key k) = Some (cleaned v)"
    using reply_roundtrip [of "[''foo-BAR'']" ?y "[''Foo-Bar'', ''Id'', ''Cid'']" fmempty] by auto
  with y(3) names(4) show ?thesis by fastforce
qed

section \<open>Calls to all nodes\<close>

text \<open>
  \<open>GetMUL\<close> and \<open>PutMUL\<close> start a goroutine for each node and wait for as many answers; one that gets
  an error sends none. The goroutines count up \<open>CID\<close> without a lock: \<open>cids\<close> are the numbers they
  read. What \<open>PutMUL\<close> waits for are the nil errors.
\<close>

definition multi_messages ::
    "gid list \<Rightarrow> HTTPClient \<Rightarrow> (gid \<Rightarrow> int) \<Rightarrow> int \<Rightarrow> Value \<Rightarrow> int \<Rightarrow> (gid \<times> rest_message) list" where
  "multi_messages ord c cids key v g = map (\<lambda>i. (i, rest_call ord c i key v (cids i) g)) ord"

definition GetMUL :: "gid list \<Rightarrow> (gid \<Rightarrow> rest_result) \<Rightarrow> (Value \<times> (string, string) gomap option) list option" where
  "GetMUL ord answer =
     collect (\<lambda>i. case answer i of (v, meta, None) \<Rightarrow> Some (v, meta) | (v, meta, Some e) \<Rightarrow> None)
       ord (length ord)"

definition PutMUL :: "gid list \<Rightarrow> (gid \<Rightarrow> rest_result) \<Rightarrow> rest_error option sync" where
  "PutMUL ord answer =
     (case collect (\<lambda>i. case answer i of (v, meta, None) \<Rightarrow> Some None | (v, meta, Some e) \<Rightarrow> None)
        ord (length ord) of
        None \<Rightarrow> Blocks
      | Some [] \<Rightarrow> Panics
      | Some (e # es) \<Rightarrow> Done e)"

lemma length_map_filter: "length (List.map_filter f xs) \<le> length xs"
  by (induction xs) (auto simp: List.map_filter_simps split: option.splits)

lemma collect_all:
  "collect answer xs (length xs) = (if None \<in> answer ` set xs then None else Some (map (the \<circ> answer) xs))"
proof (induction xs)
  case (Cons x xs)
  then show ?case
    using length_map_filter [of answer xs]
    by (auto simp: collect_def List.map_filter_simps Let_def split: option.splits if_splits)
qed (simp add: collect_def List.map_filter_simps)

text \<open>
  A write to all nodes never reports an error: it returns nil if every node has answered
  without one, and if any has failed it never returns. Without nodes it panics.
\<close>

theorem PutMUL_never_fails:
  "PutMUL ord answer =
     (if ord = [] then Panics
      else if list_ex (\<lambda>i. snd (snd (answer i)) \<noteq> None) ord then Blocks else Done None)"
proof -
  define f :: "gid \<Rightarrow> rest_error option option" where
    "f = (\<lambda>i. case answer i of (v, meta, None) \<Rightarrow> Some None | (v, meta, Some e) \<Rightarrow> None)"
  have n: "f i = (if snd (snd (answer i)) = None then Some None else None)" for i
    unfolding f_def by (simp split: prod.split option.split)
  have none: "None \<in> f ` set ord \<longleftrightarrow> list_ex (\<lambda>i. snd (snd (answer i)) \<noteq> None) ord"
    by (auto simp: n list_ex_iff image_iff split: if_splits)
  show ?thesis
  proof (cases "None \<in> f ` set ord")
    case True
    then show ?thesis
      unfolding PutMUL_def f_def [symmetric] collect_all none [symmetric] by auto
  next
    case False
    then have "ord \<noteq> [] \<Longrightarrow> f (hd ord) = Some None" using n [of "hd ord"] by (metis image_eqI list.set_sel(1))
    with False show ?thesis
      unfolding PutMUL_def f_def [symmetric] collect_all none [symmetric] by (cases ord) auto
  qed
qed

text \<open>
  And it gives one slot to as many commands as there are nodes, for each names the node it
  was sent to as its client, which is what makes replicas disagree.
\<close>

theorem PutMUL_shares_slot:
  assumes "(i, q) \<in> set (multi_messages ord c cids key v g)" "(j, q') \<in> set (multi_messages ord c cids key v g)"
    and "i \<noteq> j" "- (2 ^ 63) \<le> g" "g < 2 ^ 63"
    and "range_order os (hHeader (wire extra q))" "range_order os' (hHeader (wire extra' q'))"
    and "handleRoot_request unmarshal n now ch os (wire extra q) = Inr r"
    and "handleRoot_request unmarshal n' now' ch' os' (wire extra' q') = Inr r'"
  shows "\<not> one_per_slot {rCommand r, rCommand r'}"
proof -
  obtain b b' where q: "q = rest_request b i key v (cids i) g" and q': "q' = rest_request b' j key v (cids j) g"
    using assms(1,2) by (auto simp: multi_messages_def rest_call_def)
  from rest_slot [OF assms(6) [unfolded q] assms(4,5) assms(8) [unfolded q]]
    rest_slot [OF assms(7) [unfolded q'] assms(4,5) assms(9) [unfolded q']]
  have "Counter (rCommand r) = Counter (rCommand r')" "ClientID (rCommand r) \<noteq> ClientID (rCommand r')"
    using assms(3) by simp_all
  then show ?thesis unfolding one_per_slot_def by (metis insertI1 insertI2)
qed

theorem PutMUL_shares_slot_witness:
  "\<exists>r r'. handleRoot_request (\<lambda>b c. c) ''1.1'' 0 8 [''Cid'', ''Count'', ''Id'']
       (wire fmempty (rest_request [] ''1.1'' 5 (Some [6]) 1 0)) = Inr r \<and>
     handleRoot_request (\<lambda>b c. c) ''1.2'' 0 8 [''Cid'', ''Count'', ''Id'']
       (wire fmempty (rest_request [] ''1.2'' 5 (Some [6]) 2 0)) = Inr r' \<and>
     \<not> one_per_slot {rCommand r, rCommand r'}"
proof -
  let ?cids = "\<lambda>i :: gid. if i = ''1.1'' then 1 else 2"
  have mem: "(''1.1'', rest_request [] ''1.1'' 5 (Some [6]) 1 0)
      \<in> set (multi_messages [''1.1'', ''1.2''] solo_client ?cids 5 (Some [6]) 0)"
    "(''1.2'', rest_request [] ''1.2'' 5 (Some [6]) 2 0)
      \<in> set (multi_messages [''1.1'', ''1.2''] solo_client ?cids 5 (Some [6]) 0)"
    by (simp_all add: multi_messages_def rest_call_def solo_client_def)
  obtain r where r: "handleRoot_request (\<lambda>b c. c) ''1.1'' 0 8 [''Cid'', ''Count'', ''Id'']
       (wire fmempty (rest_request [] ''1.1'' 5 (Some [6]) 1 0)) = Inr r"
    using rest_read_back [OF plain_headers, of 5 1 0 "\<lambda>b c. c" "''1.1''" 0 8 "[]" "''1.1''" "Some [6]"] by auto
  obtain r' where r': "handleRoot_request (\<lambda>b c. c) ''1.2'' 0 8 [''Cid'', ''Count'', ''Id'']
       (wire fmempty (rest_request [] ''1.2'' 5 (Some [6]) 2 0)) = Inr r'"
    using rest_read_back [OF plain_headers, of 5 2 0 "\<lambda>b c. c" "''1.2''" 0 8 "[]" "''1.2''" "Some [6]"] by auto
  have "\<not> one_per_slot {rCommand r, rCommand r'}"
    by (rule PutMUL_shares_slot [OF mem _ _ _ plain_headers plain_headers r r']) simp_all
  with r r' show ?thesis by blast
qed

section \<open>Calls in JSON\<close>

text \<open>\<open>json\<close> sets neither the counter nor any header of a REST call.\<close>

definition json_message :: "(Command \<Rightarrow> bytes) \<Rightarrow> HTTPClient \<Rightarrow> gid \<Rightarrow> int \<Rightarrow> Value \<Rightarrow> rest_message" where
  "json_message marshal c i key v =
     \<lparr> qBase = get_or [] (hHTTP c) i, qPath = [], qMethod = ''POST'',
       qHeader = header_set ''Content-Type'' ''json'' fmempty,
       qBody = marshal \<lparr> Key = key, Value = v, ClientID = hID c, CommandID = hCID c, Counter = 0 \<rparr> \<rparr>"

definition json_answer :: "http_response option \<Rightarrow> Value \<times> rest_error option" where
  "json_answer res =
     (case res of
        None \<Rightarrow> (None, Some NotSent)
      | Some rep \<Rightarrow> if status rep = 200 then (Some (wBody rep), None) else (None, Some (BadStatus (status rep))))"

definition JSONGet :: "(Command \<Rightarrow> bytes) \<Rightarrow> int \<Rightarrow> HTTPClient \<Rightarrow> rest_message" where
  "JSONGet marshal key c = json_message marshal c (hID c) key None"

definition JSONPut :: "(Command \<Rightarrow> bytes) \<Rightarrow> int \<Rightarrow> Value \<Rightarrow> HTTPClient \<Rightarrow> rest_message" where
  "JSONPut marshal key v c = json_message marshal c (hID c) key v"

text \<open>A documented property of \<open>encoding/json\<close>: all fields of a command are written and read back.\<close>

definition json_commands :: "(Command \<Rightarrow> bytes) \<Rightarrow> (bytes \<Rightarrow> Command \<Rightarrow> Command) \<Rightarrow> bool" where
  "json_commands marshal unmarshal \<longleftrightarrow> (\<forall>c d. unmarshal (marshal c) d = c)"

lemma json_slot:
  assumes "json_commands marshal unmarshal"
    and "handleRoot_request unmarshal n now ch ord (wire extra (json_message marshal c i key v)) = Inr r"
  shows "rCommand r = \<lparr> Key = key, Value = v, ClientID = hID c, CommandID = hCID c, Counter = 0 \<rparr>"
  using assms
  by (auto simp: handleRoot_request_def wire_def json_message_def json_commands_def split_beta Let_def)

end
