(* ===== verification/Shells.thy ===== *)
theory Shells
  imports Exchanges
begin

text \<open>
  The shell (\<open>cmd/cmd.go\<close>): how a line becomes a call of the client library. The client and the
  administration client are one in the model: both are made from the same configuration, and the
  administration calls read only what they share. The main function is in \<open>Programs\<close>; \<open>strings.Fields\<close> has
  split the line.
\<close>

datatype shell_out =
    Says string
  | Calls rest_message
  | Audits int
  | Visits "string list"
  | Exits

definition usage :: string where
  "usage =
     ''Usage:'' @ [CHR 0x0A, CHR 0x09] @ '' get key'' @ [CHR 0x0A, CHR 0x09] @ '' put key value'' @
     [CHR 0x0A, CHR 0x09] @ '' consensus key'' @ [CHR 0x0A, CHR 0x09] @ '' crash id time'' @
     [CHR 0x0A, CHR 0x09] @ '' partition time ids...'' @ [CHR 0x0A, CHR 0x09] @ '' exit'' @ [CHR 0x0A]"

text \<open>The package variable \<open>counter\<close>, which nothing ever changes.\<close>

definition shell_counter :: int where
  "shell_counter = 0"

text \<open>
  \<open>run\<close>: a key that is no number is taken as 0 (or the nearest bound), a time that is none is refused.
  \<open>ord\<close> is the order in which the loops of the call meet the nodes.
\<close>

definition shell_run ::
    "Config \<Rightarrow> gid list \<Rightarrow> string \<Rightarrow> string list \<Rightarrow> client_globals \<times> HTTPClient \<Rightarrow>
     ((client_globals \<times> HTTPClient) \<times> shell_out) outcome" where
  "shell_run cfg ord cmd args st =
     (let (g, c) = st
      in if cmd = ''get'' then
           (if length args < 1 then Ret (st, Says ''get KEY'')
            else let (c1, q) = client_Get ord (parse_int (args ! 0)) c in Ret ((g, c1), Calls q))
         else if cmd = ''put'' then
           (if length args < 2 then Ret (st, Says ''put KEY VALUE'')
            else (case client_Put cfg ord (parse_int (args ! 0)) (Some (string_bytes (args ! 1))) shell_counter g c of
                    Panic \<Rightarrow> Panic
                  | Ret (g1, c1, q) \<Rightarrow> Ret ((g1, c1), Calls q)))
         else if cmd = ''consensus'' then
           (if length args < 1 then Ret (st, Says ''consensus KEY'')
            else Ret (st, Audits (parse_int (args ! 0))))
         else if cmd = ''crash'' then
           (if length args < 2 then Ret (st, Says ''crash id time(s)'')
            else (case Atoi (args ! 1) of
                    (t, Some e) \<Rightarrow> Ret (st, Says ''second argument should be integer'')
                  | (t, None) \<Rightarrow> Ret (st, Visits [Crash_url c (args ! 0) (sint t)])))
         else if cmd = ''partition'' then
           (if length args < 2 then Ret (st, Says ''partition time ids...'')
            else (case Atoi (args ! 0) of
                    (t, Some e) \<Rightarrow> Ret (st, Says ''time argument should be integer'')
                  | (t, None) \<Rightarrow> Ret (st, Visits (Partition ord (sint t) (tl args) c))))
         else if cmd = ''exit'' then Ret (st, Exits)
         else Ret (st, Says usage))"

text \<open>The loop over the lines: empty ones are skipped, and nothing follows \<open>exit\<close>.\<close>

fun shell_session ::
    "Config \<Rightarrow> gid list \<Rightarrow> string list list \<Rightarrow> client_globals \<times> HTTPClient \<Rightarrow> shell_out list outcome" where
  "shell_session cfg ord [] st = Ret []"
| "shell_session cfg ord ([] # ls) st = shell_session cfg ord ls st"
| "shell_session cfg ord ((cmd # args) # ls) st =
     (case shell_run cfg ord cmd args st of
        Panic \<Rightarrow> Panic
      | Ret (st1, out) \<Rightarrow>
          if out = Exits then Ret [out]
          else (case shell_session cfg ord ls st1 of Panic \<Rightarrow> Panic | Ret outs \<Rightarrow> Ret (out # outs)))"

section \<open>All calls ask for one slot\<close>

definition for_slot :: "int \<Rightarrow> shell_out \<Rightarrow> bool" where
  "for_slot s out \<longleftrightarrow> (\<forall>q. out = Calls q \<longrightarrow> (\<exists>b i key v cnt. q = rest_request b i key v cnt s))"

lemma for_slot_simps [simp]:
  "for_slot s (Calls (rest_request b i key v cnt s))" "for_slot s (Says t)" "for_slot s (Audits k)"
  "for_slot s (Visits us)" "for_slot s Exits"
  unfolding for_slot_def by blast+

lemma run_for_slot: "shell_run cfg ord cmd args st = Ret (st', out) \<Longrightarrow> for_slot 0 out"
  by (auto simp: shell_run_def Let_def client_Get_def RESTGet_def client_Put_def RESTPut_def
      rest_call_def shell_counter_def simp del: if_weak_cong split: prod.splits if_splits outcome.splits option.splits)

lemma session_for_slot:
  "shell_session cfg ord ls st = Ret outs \<Longrightarrow> out \<in> set outs \<Longrightarrow> for_slot 0 out"
proof (induction ls arbitrary: st outs)
  case (Cons l ls)
  show ?case
  proof (cases l)
    case (Cons cmd args)
    then obtain st1 o1 where r: "shell_run cfg ord cmd args st = Ret (st1, o1)"
      using Cons.prems(1) by (auto split: outcome.splits)
    from run_for_slot [OF r] Cons.IH [of st1] Cons.prems \<open>l = cmd # args\<close> r show ?thesis
      by (auto split: if_splits outcome.splits)
  qed (use Cons in simp)
qed simp

text \<open>
  Once a replica has applied a command, nothing typed into a shell gets an answer from it: the
  counter the shell sends is never raised, so every \<open>get\<close> and \<open>put\<close>, of any session of it, asks for
  the slot 0.
\<close>

theorem shell_calls_hang:
  assumes "shell_session cfg' ord' lines st = Ret outs" and "Calls q \<in> set outs"
    and "handle_all cfg is (NewConsensus cfg n) = (p, evs)" and "0 < execute p"
    and "range_order ord (hHeader (wire extra q))"
    and "handleRoot_request unmarshal n now ch ord (wire extra q) = Inr r"
    and "\<forall>r' \<in> set (requests_of is) \<union> set (requests_of js). rc r' \<noteq> Some ch"
  shows "filter (reply_to ch) (snd (handle_all cfg (InRequest r # js) p)) = []"
proof -
  obtain b i key v cnt where q: "q = rest_request b i key v cnt 0"
    using session_for_slot [OF assms(1,2)] unfolding for_slot_def by blast
  from rest_slot [OF assms(5) [unfolded q] _ _ assms(6) [unfolded q]]
  have "Counter (rCommand r) = 0" "rc r = Some ch" by simp_all
  with late_request_hangs [OF assms(3) _ _ assms(7)] assms(4) show ?thesis by simp
qed

theorem shell_calls_hang_witness:
  "\<exists>p evs q r. handle_all solo solo_inputs (NewConsensus solo ''1.1'') = (p, evs) \<and>
     shell_session solo [] [[''put'', ''5'', ''x''], [], [''help'']]
       (\<lparr> gList = [''1.1''], grr = 0 \<rparr>, solo_client) = Panic \<and>
     shell_session solo [] [[], [''get'', ''5''], [''exit'']] (initial_globals, solo_client) = Ret [Calls q, Exits] \<and>
     handleRoot_request (\<lambda>b c. c) ''1.1'' 0 8 [''Cid'', ''Count'', ''Id''] (wire fmempty q) = Inr r \<and>
     filter (reply_to 8) (snd (handle_all solo [InRequest r] p)) = []"
proof -
  obtain p evs where ran: "handle_all solo solo_inputs (NewConsensus solo ''1.1'') = (p, evs)"
    and x: "execute p = 1" using solo_run by blast
  obtain q where q: "q = rest_request [] ''1.1'' (parse_int ''5'') None 1 0" by simp
  have s: "shell_session solo [] [[], [''get'', ''5''], [''exit'']] (initial_globals, solo_client) = Ret [Calls q, Exits]"
    by (simp add: shell_run_def client_Get_def RESTGet_def rest_call_def solo_client_def Let_def q)
  have panic: "shell_session solo [] [[''put'', ''5'', ''x''], [], [''help'']]
       (\<lparr> gList = [''1.1''], grr = 0 \<rparr>, solo_client) = Panic"
    by (simp add: shell_run_def client_Put_def Put_target_def Next_def solo_def MakeDefaultConfig_def Let_def)
  have "sint (fst (Atoi ''5'')) = 5" by (simp add: Atoi_def parse_simps)
  then have five: "parse_int ''5'' = 5" by (simp add: parse_int_def)
  obtain r where r: "handleRoot_request (\<lambda>b c. c) ''1.1'' 0 8 [''Cid'', ''Count'', ''Id''] (wire fmempty q) = Inr r"
    using rest_read_back [OF plain_headers, of 5 1 0 "\<lambda>b c. c" "''1.1''" 0 8 "[]" "''1.1''" None]
    by (auto simp: q five)
  have "filter (reply_to 8) (snd (handle_all solo (InRequest r # []) p)) = []"
    by (rule shell_calls_hang [OF s _ ran _ _ r])
      (simp_all add: q plain_headers x solo_inputs_def solo_request_def)
  with ran s panic r show ?thesis by blast
qed

end
