(* ===== verification/Admins.thy ===== *)
theory Admins
  imports Clients Nodes Agreement
begin

text \<open>
  The administration calls of a node (\<open>handleHistory\<close>, \<open>handleCrash\<close>, \<open>handleDrop\<close> of \<open>http.go\<close>) and
  what the client's calls of them achieve together with the rest of the program: the partition of
  the network, and the check that the replicas' histories agree. The query of a URL is a map from
  names to lists of values, as \<open>net/url\<close> gives it; parsing it, and JSON, are arguments.
\<close>

section \<open>The handlers\<close>

type_synonym query = "(string, string list) gomap"

definition query_get :: "query \<Rightarrow> string \<Rightarrow> string" where
  "query_get q k = (case fmlookup q k of Some (v # vs) \<Rightarrow> v | _ \<Rightarrow> [])"

definition HTTPNodeID :: string where "HTTPNodeID = ''Id''"

definition handleHistory ::
    "(Value list \<Rightarrow> bytes) \<Rightarrow> gid \<Rightarrow> database \<Rightarrow> query \<Rightarrow> http_response" where
  "handleHistory marshal n d q =
     (let h = header_set HTTPNodeID n fmempty
      in case Atoi (query_get q ''key'') of
           (k, Some err) \<Rightarrow> (http_error_response 400 ''invalide key'')\<lparr>wHeader := h\<rparr>
         | (k, None) \<Rightarrow> \<lparr> status = 200, wHeader = h, wBody = marshal (db_History d (sint k)) \<rparr>)"

definition empty_response :: http_response where
  "empty_response = \<lparr> status = 200, wHeader = fmempty, wBody = [] \<rparr>"

definition handleCrash :: "int \<Rightarrow> query \<Rightarrow> socket \<Rightarrow> http_response \<times> socket" where
  "handleCrash now q s =
     (case Atoi (query_get q ''t'') of
        (t, Some err) \<Rightarrow> (http_error_response 400 ''invalide time'', s)
      | (t, None) \<Rightarrow> (empty_response, Crash now (sint t) s))"

definition handleDrop :: "int \<Rightarrow> query \<Rightarrow> socket \<Rightarrow> http_response \<times> socket" where
  "handleDrop now q s =
     (let i = query_get q ''id''
      in case Atoi (query_get q ''t'') of
           (t, Some err) \<Rightarrow> (http_error_response 400 ''invalide time'', s)
         | (t, None) \<Rightarrow> (empty_response, Drop now i (sint t) s))"

text \<open>The patterns registered with the multiplexer; all other paths are the root's.\<close>

datatype endpoint = Root | History | CrashNode | DropNode

definition route :: "string \<Rightarrow> endpoint" where
  "route path =
     (if path = ''/history'' then History else if path = ''/crash'' then CrashNode
      else if path = ''/drop'' then DropNode else Root)"

section \<open>Partitioning the network\<close>

text \<open>
  What a GET of a URL does to the nodes' sockets. \<open>resolve\<close> gives the node whose server a URL reaches, and the
  path and the query there; \<open>tick\<close> is the time on the clock when a call is handled.
\<close>

definition visit ::
    "(string \<Rightarrow> (gid \<times> string \<times> string) option) \<Rightarrow> (string \<Rightarrow> query) \<Rightarrow> (string \<Rightarrow> int) \<Rightarrow> string \<Rightarrow>
     (gid \<Rightarrow> socket) \<Rightarrow> gid \<Rightarrow> socket" where
  "visit resolve parse tick u S =
     (case resolve u of
        None \<Rightarrow> S
      | Some (n, path, q) \<Rightarrow>
          (case route path of
             DropNode \<Rightarrow> S(n := snd (handleDrop (tick u) (parse q) (S n)))
           | CrashNode \<Rightarrow> S(n := snd (handleCrash (tick u) (parse q) (S n)))
           | _ \<Rightarrow> S))"

definition visit_all ::
    "(string \<Rightarrow> (gid \<times> string \<times> string) option) \<Rightarrow> (string \<Rightarrow> query) \<Rightarrow> (string \<Rightarrow> int) \<Rightarrow> string list \<Rightarrow>
     (gid \<Rightarrow> socket) \<Rightarrow> gid \<Rightarrow> socket" where
  "visit_all resolve parse tick us S = fold (visit resolve parse tick) us S"

text \<open>A URL made of a node's base, a path and a query reaches that node.\<close>

definition resolves :: "(string \<Rightarrow> (gid \<times> string \<times> string) option) \<Rightarrow> (gid, string) gomap \<Rightarrow> bool" where
  "resolves resolve http \<longleftrightarrow>
     (\<forall>n base path q. fmlookup http n = Some base \<longrightarrow> CHR ''?'' \<notin> set path \<longrightarrow>
        resolve (base @ ''/'' @ path @ ''?'' @ q) = Some (n, ''/'' @ path, q))"

text \<open>The calls of \<open>Partition\<close> as the handlers take them.\<close>

definition handle_drops ::
    "(string \<Rightarrow> query) \<Rightarrow> (gid \<Rightarrow> gid \<Rightarrow> int) \<Rightarrow> int \<Rightarrow> (gid \<times> gid) list \<Rightarrow> (gid \<Rightarrow> socket) \<Rightarrow> gid \<Rightarrow> socket" where
  "handle_drops parse tick t calls S =
     fold (\<lambda>(from, to) S. S(from := snd (handleDrop (tick from to) (parse (Drop_query to t)) (S from)))) calls S"

lemma visit_Drop:
  assumes "resolves resolve (hHTTP c)" "f \<in> fmdom' (hHTTP c)"
  shows "visit resolve parse tick (Drop_url c f i t) S =
    S(f := snd (handleDrop (tick (Drop_url c f i t)) (parse (Drop_query i t)) (S f)))"
proof -
  obtain base where base: "fmlookup (hHTTP c) f = Some base" using assms(2) by (auto simp: fmlookup_dom'_iff)
  then have url: "Drop_url c f i t = base @ ''/'' @ ''drop'' @ ''?'' @ Drop_query i t" by (simp add: Drop_url_def get_or_def)
  have no_mark: "CHR ''?'' \<notin> set ''drop''" by simp
  have "resolve (base @ ''/'' @ ''drop'' @ ''?'' @ Drop_query i t) = Some (f, ''/'' @ ''drop'', Drop_query i t)"
    using assms(1) base no_mark unfolding resolves_def by blast
  then have "resolve (Drop_url c f i t) = Some (f, ''/drop'', Drop_query i t)" unfolding url by simp
  then show ?thesis by (simp add: visit_def route_def)
qed

lemma visit_all_Partition:
  assumes "resolves resolve (hHTTP c)" "set ord \<subseteq> fmdom' (hHTTP c)"
  shows "visit_all resolve parse tick (Partition ord t members c) S =
    handle_drops parse (\<lambda>f i. tick (Drop_url c f i t)) t (partition_loop members ord) S"
proof -
  have "fold (visit resolve parse tick) (map (\<lambda>(f, i). Drop_url c f i t) calls) S =
      handle_drops parse (\<lambda>f i. tick (Drop_url c f i t)) t calls S" if "fst ` set calls \<subseteq> fmdom' (hHTTP c)" for calls
    using that
  proof (induction calls arbitrary: S)
    case (Cons x calls)
    then show ?case by (cases x) (simp add: handle_drops_def visit_Drop [OF assms(1)])
  qed (simp add: handle_drops_def)
  moreover have "fst ` set (partition_loop members ord) \<subseteq> set ord" by (auto simp: partition_loop_set)
  ultimately show ?thesis using assms(2) by (simp add: visit_all_def Partition_def)
qed

text \<open>What \<open>net/url\<close> does with the query of a \<open>Drop\<close> call, if the identifier needs no escapes.\<close>

definition parses_drop :: "(string \<Rightarrow> query) \<Rightarrow> gid set \<Rightarrow> bool" where
  "parses_drop parse I \<longleftrightarrow>
     (\<forall>i \<in> I. \<forall>t. query_get (parse (Drop_query i t)) ''id'' = i \<and>
        query_get (parse (Drop_query i t)) ''t'' = Itoa (word_of_int t))"

lemma handleDrop_query:
  assumes "parses_drop parse I" "i \<in> I" "- (2 ^ 63) \<le> t" "t < 2 ^ 63"
  shows "snd (handleDrop now (parse (Drop_query i t)) s) = Drop now i t s"
proof -
  have "sint (word_of_int t :: gint) = t"
    using parse_print_int [OF assms(3,4)] by (simp add: parse_int_def print_int_def Atoi_Itoa)
  with assms(1,2) show ?thesis by (simp add: handleDrop_def Let_def parses_drop_def Atoi_Itoa)
qed

lemma handle_drops_effect:
  assumes "parses_drop parse I" "- (2 ^ 63) \<le> t" "t < 2 ^ 63" "snd ` set calls \<subseteq> I"
  shows "(get_or False (dropping (handle_drops parse tick t calls S f)) i \<longleftrightarrow>
            get_or False (dropping (S f)) i \<or> (f, i) \<in> set calls) \<and>
    set (timers (handle_drops parse tick t calls S f)) =
      set (timers (S f)) \<union> {(tick f j + t * second, EndDrop j) | j. (f, j) \<in> set calls}"
  using assms(4)
proof (induction calls arbitrary: S)
  case (Cons x calls)
  obtain g j where x: "x = (g, j)" by fastforce
  then have call: "snd (handleDrop (tick g j) (parse (Drop_query j t)) (S g)) = Drop (tick g j) j t (S g)"
    using Cons.prems by (intro handleDrop_query [OF assms(1) _ assms(2,3)]) auto
  define S1 where "S1 = S(g := Drop (tick g j) j t (S g))"
  have first: "handle_drops parse tick t (x # calls) S = handle_drops parse tick t calls S1"
    using call by (simp add: handle_drops_def x S1_def)
  have S1: "get_or False (dropping (S1 f)) i \<longleftrightarrow> get_or False (dropping (S f)) i \<or> (f, i) = (g, j)"
      "set (timers (S1 f)) = set (timers (S f)) \<union> (if f = g then {(tick f j + t * second, EndDrop j)} else {})"
    by (auto simp: S1_def Drop_def)
  have IH: "get_or False (dropping (handle_drops parse tick t calls S1 f)) i \<longleftrightarrow>
        get_or False (dropping (S1 f)) i \<or> (f, i) \<in> set calls"
      "set (timers (handle_drops parse tick t calls S1 f)) =
        set (timers (S1 f)) \<union> {(tick f j + t * second, EndDrop j) | j. (f, j) \<in> set calls}"
    using Cons.IH [of S1] Cons.prems by simp_all
  show ?case unfolding first IH S1 by (auto simp: x)
qed (simp add: handle_drops_def)

text \<open>Such calls change nothing but what is dropped, and neither do their timers.\<close>

lemma handleDrop_fields:
  "crashed (snd (handleDrop now q s)) = crashed s" "shut_down (snd (handleDrop now q s)) = shut_down s"
  "slowed (snd (handleDrop now q s)) = slowed s" "flaky (snd (handleDrop now q s)) = flaky s"
  "addresses (snd (handleDrop now q s)) = addresses s"
  by (simp_all add: handleDrop_def Drop_def Let_def split: prod.split option.split)

lemma handle_drops_fields:
  "crashed (handle_drops parse tick t calls S f) = crashed (S f) \<and>
   shut_down (handle_drops parse tick t calls S f) = shut_down (S f) \<and>
   slowed (handle_drops parse tick t calls S f) = slowed (S f) \<and>
   flaky (handle_drops parse tick t calls S f) = flaky (S f) \<and>
   addresses (handle_drops parse tick t calls S f) = addresses (S f)"
proof (induction calls arbitrary: S)
  case (Cons x calls)
  obtain g i where x: "x = (g, i)" by fastforce
  define S1 where "S1 = S(g := snd (handleDrop (tick g i) (parse (Drop_query i t)) (S g)))"
  have "crashed (S1 f) = crashed (S f) \<and> shut_down (S1 f) = shut_down (S f) \<and> slowed (S1 f) = slowed (S f) \<and>
      flaky (S1 f) = flaky (S f) \<and> addresses (S1 f) = addresses (S f)"
    by (simp add: S1_def handleDrop_fields)
  moreover have "handle_drops parse tick t (x # calls) S = handle_drops parse tick t calls S1"
    by (simp add: handle_drops_def x S1_def)
  ultimately show ?case using Cons.IH [of S1] by simp
qed (simp add: handle_drops_def)

lemma fire_fields:
  "\<forall>x \<in> set due. \<exists>i. snd x = EndDrop i \<Longrightarrow>
     crashed (fold (\<lambda>(d, k). fire k) due s) = crashed s \<and> shut_down (fold (\<lambda>(d, k). fire k) due s) = shut_down s \<and>
     slowed (fold (\<lambda>(d, k). fire k) due s) = slowed s \<and> flaky (fold (\<lambda>(d, k). fire k) due s) = flaky s \<and>
     addresses (fold (\<lambda>(d, k). fire k) due s) = addresses s"
proof (induction due arbitrary: s)
  case (Cons x due)
  then obtain d i where x: "x = (d, EndDrop i)" by (cases x) auto
  have "\<forall>x \<in> set due. \<exists>i. snd x = EndDrop i" using Cons.prems by simp
  from Cons.IH [OF this, of "fire (EndDrop i) s"] show ?case by (simp add: x)
qed simp

lemma Send_not_dropping:
  assumes "\<not> get_or False (dropping s) i" "\<not> crashed s" "shut_down s = {||}" "slowed s = fmempty" "flaky s = fmempty"
    and "fst (Retry (dials i) 100 (50 * millisecond)) = None" "fmlookup (addresses s) i \<noteq> None"
  shows "\<exists>s1. Send dials roll i s = Ret (s1, Queued)"
  using assms by (auto simp: Send_def connect_def split: option.splits)


text \<open>Two nodes; 1.2 is cut off, and 1.1 handles the call at time 3.\<close>

definition two_client :: HTTPClient where
  "two_client =
     \<lparr> hAddrs = fmupd ''1.1'' [] (fmupd ''1.2'' [] fmempty), hHTTP = fmupd ''1.1'' ''a'' (fmupd ''1.2'' ''b'' fmempty), hID = ''1.1'', hN = 2,
       hLocalN = 2, hC = - 1, hCID = 0 \<rparr>"

text \<open>A parser of such queries: the identifier ends at the first ampersand.\<close>

definition parse_drop :: "string \<Rightarrow> query" where
  "parse_drop q =
     (let rest = drop 3 q; i = takeWhile (\<lambda>ch. ch \<noteq> CHR ''&'') rest
      in fmupd ''id'' [i] (fmupd ''t'' [drop (length i + 3) rest] fmempty))"

lemma parse_drop_ok: "CHR ''&'' \<notin> set i \<Longrightarrow> parses_drop parse_drop {i}"
proof -
  assume "CHR ''&'' \<notin> set i"
  then have "takeWhile (\<lambda>ch. ch \<noteq> CHR ''&'') (i @ CHR ''&'' # xs) = i" for xs
    by (subst takeWhile_append2) auto
  then show ?thesis by (simp add: parses_drop_def Drop_query_def parse_drop_def Let_def query_get_def)
qed

text \<open>The bases of the URLs are one letter here.\<close>

definition two_resolve :: "string \<Rightarrow> (gid \<times> string \<times> string) option" where
  "two_resolve u =
     Some (if hd u = CHR ''a'' then ''1.1'' else ''1.2'', takeWhile (\<lambda>ch. ch \<noteq> CHR ''?'') (tl u),
       tl (dropWhile (\<lambda>ch. ch \<noteq> CHR ''?'') (tl u)))"

lemma two_resolves: "resolves two_resolve (hHTTP two_client)"
proof -
  have takes: "takeWhile (\<lambda>ch. ch \<noteq> CHR ''?'') (path @ CHR ''?'' # q) = path" if "CHR ''?'' \<notin> set path" for path q
    using that by (subst takeWhile_append2) auto
  have drops: "dropWhile (\<lambda>ch. ch \<noteq> CHR ''?'') (path @ CHR ''?'' # q) = CHR ''?'' # q" if "CHR ''?'' \<notin> set path" for path q
    using that by (subst dropWhile_append2) auto
  show ?thesis by (auto simp: resolves_def two_resolve_def two_client_def takes drops split: if_splits)
qed

definition two_sockets :: "gid \<Rightarrow> socket" where
  "two_sockets i = NewSocket i (hAddrs two_client)"


section \<open>Checking the histories\<close>

text \<open>
  What the client takes from the answer of a node, the empty history if the call failed. A nil
  value and the empty value have the same bytes.
\<close>

definition read_history :: "(bytes \<Rightarrow> Value list option) \<Rightarrow> http_response \<Rightarrow> bytes list" where
  "read_history unmarshal w = (case unmarshal (wBody w) of None \<Rightarrow> [] | Some vs \<Rightarrow> map content vs)"

definition history_query :: "int \<Rightarrow> query" where
  "history_query k = fmupd ''key'' [print_int k] fmempty"

text \<open>JSON gives back the bytes of a list of values.\<close>

definition json_values :: "(Value list \<Rightarrow> bytes) \<Rightarrow> (bytes \<Rightarrow> Value list option) \<Rightarrow> bool" where
  "json_values marshal unmarshal \<longleftrightarrow>
     (\<forall>vs. map_option (map content) (unmarshal (marshal vs)) = Some (map content vs))"

definition audit ::
    "(Value list \<Rightarrow> bytes) \<Rightarrow> (bytes \<Rightarrow> Value list option) \<Rightarrow> gid list \<Rightarrow> int \<Rightarrow> System \<Rightarrow> bool" where
  "audit marshal unmarshal ids k S =
     Consensus_check ids
       (\<lambda>i. read_history unmarshal (handleHistory marshal i (db (replicas S i)) (history_query k)))"

lemma read_history_answer:
  assumes "json_values marshal unmarshal" "- (2 ^ 63) \<le> k" "k < 2 ^ 63"
  shows "read_history unmarshal (handleHistory marshal i d (history_query k)) = map content (db_History d k)"
proof -
  have "sint (word_of_int k :: gint) = k"
    using parse_print_int [OF assms(2,3)] by (simp add: parse_int_def print_int_def Atoi_Itoa)
  then have "wBody (handleHistory marshal i d (history_query k)) = marshal (db_History d k)"
    by (simp add: handleHistory_def Let_def query_get_def history_query_def print_int_def Atoi_Itoa)
  with assms(1) show ?thesis
    by (auto simp: read_history_def json_values_def split: option.splits)
       (metis map_option_eq_Some option.inject option.distinct(1))+
qed

lemma replica_history:
  assumes "reachable cfg ids C S"
  shows "db_History (db (replicas S i)) k = (if MultiVersion cfg then writes_to k (map snd (hist S i)) else [])"
  using run_Execute_history [of "NewDatabase cfg" "map snd (hist S i)" k]
  by (simp add: reachable_facts(5) [OF assms] db_History_def NewDatabase_def)

text \<open>
  C28: the client's check of a key, put to the nodes of a running system, answers true exactly when
  the values the replicas have written under the key are, for any two, a prefix of one another. So
  it holds in every state if the clients number their commands apart and write no empty value. But
  with a configuration that keeps no histories, which is the default, it holds whatever happened.
\<close>

theorem audit_exact:
  assumes "reachable cfg ids C S" and "json_values marshal unmarshal" and "- (2 ^ 63) \<le> k" "k < 2 ^ 63"
  shows "(audit marshal unmarshal js k S \<longleftrightarrow> (MultiVersion cfg \<longrightarrow>
      (\<forall>i j. i \<in> set js \<and> j \<in> set js \<longrightarrow>
         prefix (map content (writes_to k (map snd (hist S i)))) (map content (writes_to k (map snd (hist S j)))) \<or>
         prefix (map content (writes_to k (map snd (hist S j)))) (map content (writes_to k (map snd (hist S i))))))) \<and>
    (one_per_slot C \<and> no_empty_value C \<longrightarrow> audit marshal unmarshal js k S)"
proof -
  have exact: "audit marshal unmarshal js k S \<longleftrightarrow> (MultiVersion cfg \<longrightarrow>
      (\<forall>i j. i \<in> set js \<and> j \<in> set js \<longrightarrow>
         prefix (map content (writes_to k (map snd (hist S i)))) (map content (writes_to k (map snd (hist S j)))) \<or>
         prefix (map content (writes_to k (map snd (hist S j)))) (map content (writes_to k (map snd (hist S i))))))"
    by (simp add: audit_def Consensus_check_iff read_history_answer [OF assms(2-4)] replica_history [OF assms(1)])
  moreover have "prefix (map content (writes_to k (map snd xs))) (map content (writes_to k (map snd ys)))"
    if "prefix xs ys" for xs ys :: "(int \<times> Command) list"
    using that by (auto simp: prefix_def writes_to_def)
  then have "audit marshal unmarshal js k S" if "one_per_slot C" "no_empty_value C"
    using hist_prefix [OF assms(1) that] nat_le_linear unfolding exact by blast
  ultimately show ?thesis by blast
qed

text \<open>
  A stand-in for JSON in the example: every byte behind a one, every value ended by a zero.
\<close>

fun encode_all :: "bytes list \<Rightarrow> bytes" where
  "encode_all [] = []"
| "encode_all ([] # vs) = 0 # encode_all vs"
| "encode_all ((b # v) # vs) = 1 # b # encode_all (v # vs)"

fun decode_all :: "bytes \<Rightarrow> bytes list" where
  "decode_all [] = []"
| "decode_all [x] = [[]]"
| "decode_all (x # b # bs) =
     (if x = 0 then [] # decode_all (b # bs)
      else case decode_all bs of [] \<Rightarrow> [[b]] | v # vs \<Rightarrow> (b # v) # vs)"

lemma decode_zero: "decode_all (0 # bs) = [] # decode_all bs"
  by (cases bs) simp_all

lemma decode_encode: "decode_all (encode_all vs) = vs"
  by (induction vs rule: encode_all.induct) (simp_all add: decode_zero)

lemma json_example:
  "json_values (\<lambda>vs. encode_all (map content vs)) (\<lambda>bs. Some (map Some (decode_all bs)))"
  by (simp add: json_values_def decode_encode comp_def)

theorem audit_exact_witness:
  "\<exists>S. hist S ''1.1'' = [(0, example_command 1 (Some [1]))] \<and> hist S ''1.2'' = [(0, example_command 1 (Some [2]))] \<and>
     audit (\<lambda>vs. encode_all (map content vs)) (\<lambda>bs. Some (map Some (decode_all bs))) [''1.1'', ''1.2''] 1 S"
proof -
  let ?c = "example_command 1 (Some [1])" and ?d = "example_command 1 (Some [2])"
  let ?S = "run_system four (clash_inputs ?c ?d) (init_system four)"
  have c: "Counter ?c = 0" "Counter ?d = 0" by (simp_all add: example_command_def)
  have S: "reachable four {''1.1'', ''1.2'', ''1.3'', ''1.4''} {?c, ?d} ?S"
    using clash_valid [OF c, of "{?c, ?d}"] by (intro reachable_run reachable.init) simp_all
  have "audit (\<lambda>vs. encode_all (map content vs)) (\<lambda>bs. Some (map Some (decode_all bs))) [''1.1'', ''1.2''] 1 ?S"
    using audit_exact [OF S json_example, of 1 "[''1.1'', ''1.2'']"]
    by (simp add: four_def MakeDefaultConfig_def)
  with clash_run [OF c] show ?thesis by blast
qed

end
