(* ===== verification/Programs.thy ===== *)
theory Programs
  imports JsonConfigs Processes Streams Datagrams Logs Campaigns Shells Admins
begin

text \<open>
  The main programs (\<open>server/server.go\<close>, \<open>client/client.go\<close>, the main function of \<open>cmd/cmd.go\<close>), what they
  share (\<open>init.go\<close>), how a node's socket and its HTTP server come up (\<open>NewSocket\<close> in \<open>socket.go\<close>, \<open>http\<close> in
  \<open>http.go\<close>), and the unused TCP client (\<open>TCPcommunications.go\<close>). What a program finds around it, files,
  ports and the library's URL parser, is the record \<open>Env\<close>; \<open>Fatal\<close> is an exit with a logged error.
\<close>

section \<open>What a program finds\<close>

record url =
  uScheme :: string
  uHost :: string
  uPort :: string

record Env =
  program :: string
  pid :: int
  creates :: "string \<Rightarrow> bool"
  config_file :: "bytes option"
  decode :: "bytes \<Rightarrow> Config \<Rightarrow> Config option"
  order :: "Config \<Rightarrow> gid list"
  parse_url :: "string \<Rightarrow> url option"
  listens :: "string \<Rightarrow> string \<Rightarrow> bool"
  base_name :: "string \<Rightarrow> string"
  join_path :: "string \<Rightarrow> string \<Rightarrow> string"

text \<open>The flags that are used, parsed.\<close>

record Flags =
  log_dir :: string
  transport_scheme :: string
  algorithm :: string
  node_id :: gid
  load_keys :: bool

text \<open>\<open>Init\<close>: the log, then the configuration over the default one.\<close>

definition Init :: "Env \<Rightarrow> Flags \<Rightarrow> (loggers \<times> Config) sync" where
  "Init E f =
     (case Setup (base_name E) (join_path E) (creates E) (log_dir f) (program E) (pid E) of
        None \<Rightarrow> Fatal
      | Some ls \<Rightarrow>
          (case Config_Load_file (config_file E) (decode E) (order E) MakeDefaultConfig of
             None \<Rightarrow> Fatal
           | Some cfg \<Rightarrow> Done (ls, cfg)))"

section \<open>A replica\<close>

text \<open>\<open>Listen\<close> of the three transports: only the one within the process needs no port.\<close>

definition start_listening :: "Env \<Rightarrow> transport_kind \<Rightarrow> string \<Rightarrow> bool" where
  "start_listening E k port =
     (case k of
        ChanTransport \<Rightarrow> True
      | TcpTransport \<Rightarrow> listens E ''tcp'' ('':'' @ port)
      | UdpTransport \<Rightarrow> listens E ''udp'' ('':'' @ port))"

definition open_socket :: "Env \<Rightarrow> string \<Rightarrow> Config \<Rightarrow> gid \<Rightarrow> (socket \<times> packet transport \<times> string) sync" where
  "open_socket E sch cfg i =
     (let addr = full_address sch (get_or [] (Addrs cfg) i)
      in sbind (NewTransport (\<lambda>a. map_option (\<lambda>u. (uScheme u, uHost u)) (parse_url E a)) sch
           (ChanBufferSize cfg) (get_or [] (Addrs cfg) i)) (\<lambda>t.
         let port = (case parse_url E addr of None \<Rightarrow> [] | Some u \<Rightarrow> uPort u)
         in if start_listening E (kind t) port then Done (NewSocket i (Addrs cfg), t, '':'' @ port) else Fatal))"

text \<open>\<open>http\<close>: the patterns it serves and the address; it returns only by a fatal error.\<close>

definition http_patterns :: "(string \<times> endpoint) list" where
  "http_patterns = [(''/'', Root), (''/history'', History), (''/crash'', CrashNode), (''/drop'', DropNode)]"

definition serve_http :: "Env \<Rightarrow> Config \<Rightarrow> gid \<Rightarrow> string sync" where
  "serve_http E cfg i =
     (case parse_url E (get_or [] (HTTPAddrs cfg) i) of
        None \<Rightarrow> Fatal
      | Some u \<Rightarrow> let addr = '':'' @ uPort u in if listens E ''http'' addr then Done addr else Fatal)"

record Server =
  process :: Process
  ssocket :: socket
  stransport :: "packet transport"
  goroutines :: "goroutine list"
  node_addr :: string
  http_addr :: string

text \<open>\<open>replica\<close>: \<open>NewReplica\<close>, whose node opens its socket first, and \<open>Run\<close>.\<close>

definition run_replica :: "Env \<Rightarrow> Flags \<Rightarrow> Config \<Rightarrow> Server sync" where
  "run_replica E f cfg =
     (if algorithm f = ''consensus''
      then sbind (open_socket E (transport_scheme f) cfg (node_id f)) (\<lambda>(sock, t, addr).
             case start_process cfg (node_id f) of
               Panic \<Rightarrow> Panics
             | Ret s \<Rightarrow>
                 sbind (serve_http E cfg (node_id f)) (\<lambda>haddr.
                   Done \<lparr> process = s, ssocket = sock, stransport = t, goroutines = node_Run (pnode s),
                          node_addr = addr, http_addr = haddr \<rparr>))
      else Panics)"

definition server_main :: "Env \<Rightarrow> Flags \<Rightarrow> Server sync" where
  "server_main E f = sbind (Init E f) (\<lambda>(ls, cfg). run_replica E f cfg)"

lemma sbind_Done_iff: "sbind x f = Done y \<longleftrightarrow> (\<exists>z. x = Done z \<and> f z = Done y)"
  by (cases x) auto

lemma start_process_Ret:
  "0 \<le> ChanBufferSize cfg \<Longrightarrow> \<exists>s. start_process cfg i = Ret s \<and> handles (pnode s) = replica_handles \<and> nid (pnode s) = i"
  using NewReplica_node [of cfg i] by (auto simp: start_process_def)

lemma replica_runs: "handles n = replica_handles \<Longrightarrow> node_Run n = [GoHandle, GoRecv, ServeHTTP]"
  by (simp add: node_Run_def replica_handles_def gomap_simps)

lemma open_socket_not:
  "open_socket E sch cfg i \<noteq> Blocks" "0 \<le> ChanBufferSize cfg \<Longrightarrow> open_socket E sch cfg i \<noteq> Panics"
  by (auto simp: open_socket_def NewTransport_def Let_def split: option.splits)

lemma open_socket_room: "open_socket E sch cfg i = Done r \<Longrightarrow> 0 \<le> ChanBufferSize cfg"
  by (auto simp: open_socket_def NewTransport_def sbind_Done_iff Let_def split: option.splits if_splits)

lemma serve_http_not: "serve_http E cfg i \<noteq> Blocks" "serve_http E cfg i \<noteq> Panics"
  by (auto simp: serve_http_def Let_def split: option.splits)

lemma Init_not: "Init E f \<noteq> Blocks" "Init E f \<noteq> Panics"
  by (auto simp: Init_def split: option.splits)

text \<open>A server that is up.\<close>

definition up :: "(bytes \<Rightarrow> Command \<Rightarrow> Command) \<Rightarrow> Env \<Rightarrow> Flags \<Rightarrow> Config \<Rightarrow> Server \<Rightarrow> bool" where
  "up unmarshal E f cfg srv \<longleftrightarrow>
     goroutines srv = [GoHandle, GoRecv, ServeHTTP] \<and> proc_reach cfg unmarshal (node_id f) (process srv) \<and>
     handles (pnode (process srv)) = replica_handles \<and> ssocket srv = NewSocket (node_id f) (Addrs cfg) \<and>
     listens E ''http'' (http_addr srv)"

lemma run_replica_up:
  assumes "run_replica E f cfg = Done srv"
  shows "algorithm f = ''consensus'' \<and> up unmarshal E f cfg srv"
proof -
  have a: "algorithm f = ''consensus''" using assms by (simp add: run_replica_def split: if_splits)
  have "0 \<le> ChanBufferSize cfg" using assms open_socket_room by (auto simp: run_replica_def sbind_Done_iff split: if_splits)
  then obtain s where s: "start_process cfg (node_id f) = Ret s" "handles (pnode s) = replica_handles"
    using start_process_Ret by blast
  from a obtain sock t addr haddr where o: "open_socket E (transport_scheme f) cfg (node_id f) = Done (sock, t, addr)"
    "serve_http E cfg (node_id f) = Done haddr"
    "srv = \<lparr> process = s, ssocket = sock, stransport = t, goroutines = node_Run (pnode s), node_addr = addr,
       http_addr = haddr \<rparr>"
    using assms s(1) by (auto simp: run_replica_def sbind_Done_iff)
  from o(1) have "sock = NewSocket (node_id f) (Addrs cfg)"
    by (auto simp: open_socket_def sbind_Done_iff Let_def split: if_splits)
  moreover from o(2) have "listens E ''http'' haddr"
    by (auto simp: serve_http_def Let_def split: option.splits if_splits)
  ultimately show ?thesis
    using a s proc_reach.start [OF s(1), of unmarshal] by (simp add: up_def o(3) replica_runs)
qed

text \<open>
  A server comes up or ends with a fatal error, and panics only if the algorithm is not the one there
  is or the channels are to have a negative size: when it is up, its receiving, handling and HTTP goroutines run, a request, a proposal and a vote each
  have their handler, it starts as a process of \<open>Processes\<close>, and its socket sends to the addresses of the
  configuration file.
\<close>

theorem server_starts:
  "(case server_main E f of
      Done srv \<Rightarrow> algorithm f = ''consensus'' \<and>
        (\<exists>ls cfg. Init E f = Done (ls, cfg) \<and> up unmarshal E f cfg srv)
    | Panics \<Rightarrow> algorithm f \<noteq> ''consensus'' \<or> (\<exists>ls cfg. Init E f = Done (ls, cfg) \<and> ChanBufferSize cfg < 0)
    | Blocks \<Rightarrow> False
    | Fatal \<Rightarrow> True)"
proof (cases "server_main E f")
  case (Done srv)
  then obtain ls cfg where "Init E f = Done (ls, cfg)" "run_replica E f cfg = Done srv"
    by (auto simp: server_main_def sbind_Done_iff)
  with run_replica_up [of E f cfg srv unmarshal] Done show ?thesis by auto
next
  case Panics
  then obtain ls cfg where i: "Init E f = Done (ls, cfg)" and r: "run_replica E f cfg = Panics"
    using Init_not [of E f] by (cases "Init E f") (auto simp: server_main_def)
  have "algorithm f \<noteq> ''consensus''" if room: "0 \<le> ChanBufferSize cfg"
  proof
    obtain s where s: "start_process cfg (node_id f) = Ret s" using start_process_Ret [OF room] by blast
    assume "algorithm f = ''consensus''"
    with r s open_socket_not(2) [OF room, of E "transport_scheme f" "node_id f"] serve_http_not [of E cfg "node_id f"]
    show False
      by (cases "open_socket E (transport_scheme f) cfg (node_id f)"; cases "serve_http E cfg (node_id f)")
        (auto simp: run_replica_def)
  qed
  with Panics i show ?thesis by fastforce
next
  case Blocks
  then obtain ls cfg where r: "run_replica E f cfg = Blocks"
    using Init_not [of E f] by (cases "Init E f") (auto simp: server_main_def)
  have "start_process cfg (node_id f) = Panic \<or> (\<exists>s. start_process cfg (node_id f) = Ret s)"
    by (cases "start_process cfg (node_id f)") simp_all
  with r open_socket_not(1) [of E "transport_scheme f" cfg "node_id f"] serve_http_not [of E cfg "node_id f"]
  show ?thesis
    by (cases "open_socket E (transport_scheme f) cfg (node_id f)"; cases "serve_http E cfg (node_id f)")
      (auto simp: run_replica_def split: if_splits)
qed simp

text \<open>
  C39: A server whose name is not in the configuration is not refused. With TCP, room in the channels and ports
  that the system picks for the empty ones, it comes up, and what it broadcasts is queued for every node of
  the configuration, if they can be dialled. But whatever calls are made of the socket of another node with
  this configuration, over any time and with any faults injected, a message to it is discarded
  or there is no address to send it to.
\<close>

theorem unknown_server_starts:
  assumes "Init E f = Done (ls, cfg)" "algorithm f = ''consensus''" "transport_scheme f = ''tcp''"
    and "node_id f \<notin> fmdom' (Addrs cfg)" "node_id f \<notin> fmdom' (HTTPAddrs cfg)" "0 \<le> ChanBufferSize cfg"
    and "parse_url E ''tcp://'' = Some \<lparr> uScheme = ''tcp'', uHost = [], uPort = [] \<rparr>"
    and "parse_url E [] = Some \<lparr> uScheme = [], uHost = [], uPort = [] \<rparr>"
    and "listens E ''tcp'' '':''" "listens E ''http'' '':''"
  shows "\<exists>srv. server_main E f = Done srv \<and> up unmarshal E f cfg srv \<and>
    node_addr srv = '':'' \<and> http_addr srv = '':'' \<and>
    (\<forall>ord dials roll. range_order ord (Addrs cfg) \<longrightarrow> (\<forall>i. fst (Retry (dials i) 100 (50 * millisecond)) = None) \<longrightarrow>
       (\<exists>s1. Broadcast_all dials roll ord (ssocket srv) = Ret (s1, map (\<lambda>i. (i, Queued)) ord))) \<and>
    (\<forall>j dials xs s1 out fate. j \<noteq> node_id f \<longrightarrow> socket_run dials xs (NewSocket j (Addrs cfg)) = Ret (s1, out) \<longrightarrow>
       (node_id f, fate) \<in> set out \<longrightarrow> fate \<in> {Discarded, NoAddress})"
proof -
  have none: "get_or [] (Addrs cfg) (node_id f) = []" "get_or [] (HTTPAddrs cfg) (node_id f) = []"
    using assms(4,5) by (simp_all add: get_or_def fmdom'_notD)
  have full: "full_address ''tcp'' [] = ''tcp://''" by (simp add: full_address_def)
  obtain s where s: "start_process cfg (node_id f) = Ret s" using start_process_Ret [OF assms(6)] by blast
  obtain t :: "packet transport" where "open_socket E ''tcp'' cfg (node_id f) = Done (NewSocket (node_id f) (Addrs cfg), t, '':'')"
    using assms(6,7,9) by (simp add: open_socket_def none full NewTransport_def start_listening_def Let_def)
  moreover have "serve_http E cfg (node_id f) = Done '':''"
    using assms(8,10) by (simp add: serve_http_def none Let_def)
  ultimately obtain srv where run: "run_replica E f cfg = Done srv" "node_addr srv = '':''" "http_addr srv = '':''"
    using assms(2,3) s by (auto simp: run_replica_def)
  have main: "server_main E f = Done srv" using assms(1) run(1) by (simp add: server_main_def)
  have u: "up unmarshal E f cfg srv" using run_replica_up [OF run(1)] by blast
  then have sock: "ssocket srv = NewSocket (node_id f) (Addrs cfg)" by (simp add: up_def)
  have "\<exists>s1. Broadcast_all dials roll ord (ssocket srv) = Ret (s1, map (\<lambda>i. (i, Queued)) ord)"
    if "range_order ord (Addrs cfg)" "\<forall>i. fst (Retry (dials i) 100 (50 * millisecond)) = None" for ord dials roll
  proof -
    have ord: "set ord = fmdom' (Addrs cfg)" using that(1) by (simp add: range_order_def)
    then have "broadcast_targets ord (ssocket srv) = ord"
      using assms(4) by (simp add: sock broadcast_targets_def NewSocket_def filter_id_conv) (metis)
    moreover have "healthy dials (ssocket srv)" using that(2) by (simp add: sock healthy_def NewSocket_def)
    ultimately show ?thesis
      using send_all_healthy [of dials "ssocket srv" ord roll] ord by (simp add: Broadcast_all_def sock NewSocket_def)
  qed
  moreover have "fate \<in> {Discarded, NoAddress}"
    if "j \<noteq> node_id f" "socket_run dials xs (NewSocket j (Addrs cfg)) = Ret (s1, out)" "(node_id f, fate) \<in> set out"
    for j dials xs s1 out fate
  proof (rule socket_run_stranger [OF _ that(2,3)])
    show "stranger (node_id f) (NewSocket j (Addrs cfg))"
      using that(1) assms(4) by (auto simp: stranger_def NewSocket_def fmdom'_notD)
  qed
  ultimately show ?thesis using main u run(2,3) by blast
qed

definition sample_env :: Env where
  "sample_env =
     \<lparr> program = ''server'', pid = 7, creates = (\<lambda>f. True), config_file = Some [], decode = (\<lambda>b c. Some two_zones),
       order = (\<lambda>c. [''1.1'', ''2.1'']),
       parse_url = (\<lambda>a. Some \<lparr> uScheme = (if a = [] then [] else ''tcp''), uHost = [], uPort = [] \<rparr>),
       listens = (\<lambda>n a. True), base_name = (\<lambda>s. s), join_path = (\<lambda>d f. f) \<rparr>"

definition sample_flags :: Flags where
  "sample_flags =
     \<lparr> log_dir = [], transport_scheme = ''tcp'', algorithm = ''consensus'', node_id = ''3.1'', load_keys = False \<rparr>"

theorem unknown_server_starts_witness:
  "\<exists>srv cfg. server_main sample_env sample_flags = Done srv \<and> up (\<lambda>b c. c) sample_env sample_flags cfg srv \<and>
     Addrs cfg = Addrs two_zones \<and> node_addr srv = '':''"
proof -
  let ?cfg = "Config_Load [''1.1'', ''2.1''] two_zones"
  obtain ls where init: "Init sample_env sample_flags = Done (ls, ?cfg)"
    by (simp add: Init_def sample_env_def sample_flags_def Setup_def Config_Load_file_def Let_def)
  have a: "Addrs ?cfg = Addrs two_zones" "HTTPAddrs ?cfg = HTTPAddrs two_zones"
    by (simp_all add: Config_Load_def Let_def count_node_def)
  have out: "node_id sample_flags \<notin> fmdom' (Addrs ?cfg)" "node_id sample_flags \<notin> fmdom' (HTTPAddrs ?cfg)"
    unfolding a by (simp_all add: sample_flags_def two_zones_def MakeDefaultConfig_def)
  have room: "0 \<le> ChanBufferSize ?cfg" by (subst Load_fields) (simp add: two_zones_def MakeDefaultConfig_def)
  have "\<exists>srv. server_main sample_env sample_flags = Done srv \<and> up (\<lambda>b c. c) sample_env sample_flags ?cfg srv \<and>
      node_addr srv = '':''"
    using unknown_server_starts [OF init _ _ out room, of "\<lambda>b c. c"]
    by (auto simp: sample_env_def sample_flags_def)
  with a(1) show ?thesis by blast
qed

section \<open>A benchmark\<close>

record Client =
  cglobals :: client_globals
  cclient :: HTTPClient
  cbench :: Benchmark
  crun :: Run

definition bench_run :: "bool \<Rightarrow> Benchmark \<Rightarrow> Run" where
  "bench_run ld b =
     (let c = bconfig b; m = nat (Concurrency c)
      in if ld then start_run True False (nat (bK c)) m
         else start_run False (bT c > 0) (nat (bN c)) m)"

definition client_main :: "Env \<Rightarrow> Flags \<Rightarrow> Client sync" where
  "client_main E f =
     sbind (Init E f) (\<lambda>(ls, cfg).
       if algorithm f = ''consensus''
       then let (g, c) = NewHTTPClient cfg (order E cfg) (node_id f) initial_globals
            in case NewBenchmark cfg of
                 Panic \<Rightarrow> Panics
               | Ret b \<Rightarrow> Done \<lparr> cglobals = g, cclient = c, cbench = b, crun = bench_run (load_keys f) b \<rparr>
       else Panics)"

section \<open>The shell\<close>

text \<open>
  The administration client is made first and adds to the list of leaders too. Without arguments the
  loop reads lines; at the end of the input every line is empty.
\<close>

definition shell_main ::
    "Env \<Rightarrow> Flags \<Rightarrow> gid list \<Rightarrow> string list \<Rightarrow> string list list \<Rightarrow> shell_out list sync" where
  "shell_main E f ord args input =
     sbind (Init E f) (\<lambda>(ls, cfg).
       let (g1, admin) = NewHTTPClient cfg (order E cfg) (node_id f) initial_globals
       in if algorithm f = ''consensus''
          then let st = NewHTTPClient cfg (order E cfg) (node_id f) g1
               in (case (case args of
                           cmd # args1 \<Rightarrow> (case shell_run cfg ord cmd args1 st of Panic \<Rightarrow> Panic | Ret (st1, out) \<Rightarrow> Ret [out])
                         | [] \<Rightarrow> shell_session cfg ord input st) of
                     Panic \<Rightarrow> Panics
                   | Ret outs \<Rightarrow> Done outs)
          else Panics)"

text \<open>The turns of the loop, with a prompt each: it ends with \<open>exit\<close> or a panic alone.\<close>

fun shell_turns :: "Config \<Rightarrow> gid list \<Rightarrow> string list list \<Rightarrow> client_globals \<times> HTTPClient \<Rightarrow> nat" where
  "shell_turns cfg ord [] st = 0"
| "shell_turns cfg ord ([] # ls) st = Suc (shell_turns cfg ord ls st)"
| "shell_turns cfg ord ((cmd # args) # ls) st =
     Suc (case shell_run cfg ord cmd args st of
            Panic \<Rightarrow> 0
          | Ret (st1, out) \<Rightarrow> if out = Exits then 0 else shell_turns cfg ord ls st1)"

lemma session_at_eof:
  "shell_session cfg ord (ls @ replicate k []) st = shell_session cfg ord ls st"
proof -
  have "shell_session cfg ord (replicate k []) st = Ret []" for st
    by (induction k) simp_all
  then show ?thesis
    by (induction cfg ord ls st rule: shell_session.induct) (simp_all split: outcome.split prod.split)
qed

lemma shell_never_ends:
  assumes "shell_session cfg ord ls st = Ret outs" "Exits \<notin> set outs"
  shows "shell_turns cfg ord (ls @ replicate k []) st = length ls + k"
proof -
  have "shell_turns cfg ord (replicate k []) st = k" for st
    by (induction k) simp_all
  then show ?thesis
    using assms
    by (induction cfg ord ls st arbitrary: outs rule: shell_session.induct)
      (auto split: outcome.splits prod.splits if_splits)
qed

section \<open>The TCP client\<close>

record TCPClient =
  tcAddrs :: "(gid, string) gomap"
  tcHTTP :: "(gid, string) gomap"
  tcID :: gid
  tcN :: int
  tcLocalN :: int
  tcCID :: int

definition NewTCPClient :: "Config \<Rightarrow> gid list \<Rightarrow> gid \<Rightarrow> TCPClient" where
  "NewTCPClient cfg ord i =
     (let c = \<lparr> tcAddrs = Addrs cfg, tcHTTP = HTTPAddrs cfg, tcID = i, tcN = int (len_map (Addrs cfg)),
                tcLocalN = 0, tcCID = 0 \<rparr>
      in if i \<noteq> []
         then c\<lparr>tcLocalN := fold (\<lambda>node k. if Zone node = Zone i then k + 1 else k) ord 0\<rparr>
         else c)"

datatype conn_op = Opened | Closed

text \<open>\<open>newClient\<close> closes what it has dialled; \<open>None\<close> is the fatal error of a failed dial.\<close>

definition newClient :: "bool \<Rightarrow> conn_op list option" where
  "newClient dials = (if dials then Some [Opened, Closed] else None)"

text \<open>\<open>request\<close> and \<open>respond\<close> are empty, so a connection is closed at once.\<close>

definition tcp_request :: "conn_op list" where
  "tcp_request = []"

definition tcp_respond :: "conn_op list" where
  "tcp_respond = []"

definition tcp_handle :: "conn_op list" where
  "tcp_handle = tcp_request @ tcp_respond @ [Closed]"

text \<open>The loop of \<open>newServer\<close>: the connections it has served when accepting one fails, which is fatal.\<close>

fun newServer :: "bool list \<Rightarrow> conn_op list list \<times> bool" where
  "newServer [] = ([], True)"
| "newServer (ok # oks) =
     (if ok then let (cs, up) = newServer oks in ((Opened # tcp_handle) # cs, up) else ([], False))"

lemma newServer_closes: "c \<in> set (fst (newServer oks)) \<Longrightarrow> c = [Opened, Closed]"
  by (induction oks) (auto simp: tcp_handle_def tcp_request_def tcp_respond_def split_beta split: if_splits)

text \<open>It counts the nodes of the zone like the HTTP client.\<close>

lemma NewTCPClient_counts:
  "tcN (NewTCPClient cfg ord i) = hN (snd (NewHTTPClient cfg ord i g))"
  "tcLocalN (NewTCPClient cfg ord i) = hLocalN (snd (NewHTTPClient cfg ord i g))"
  by (simp_all add: NewTCPClient_def NewHTTPClient_def Let_def)

end
