(* ===== verification/Clusters.thy ===== *)
theory Clusters
  imports Processes Agreement
begin

text \<open>
  The processes of all replicas together: the goroutines of each (\<open>Processes\<close>) with their queues and channels,
  REST clients, and a network that may lose, delay, reorder and repeat what the processes broadcast and
  that carries it as \<open>encoding/gob\<close> does. The system of \<open>Network\<close>, in which a replica takes a message from
  the network and handles it at once, is the abstraction of it: the queues between receiving and
  handling, and the goroutines that wait, add no behaviour that it does not have.
\<close>

section \<open>The cluster\<close>

record Cluster =
  procs :: "gid \<Rightarrow> Process"
  said :: "(gid \<times> Message) set"

definition start_cluster :: "Config \<Rightarrow> Cluster" where
  "start_cluster cfg = \<lparr> procs = (\<lambda>i. the (ret_of (start_process cfg i))), said = {} \<rparr>"

fun said_in :: "proc_out \<Rightarrow> Message set" where
  "said_in (Says ms) = set ms"
| "said_in out = {}"

definition carried :: "(gid \<times> Message) set \<Rightarrow> gid \<Rightarrow> Message \<Rightarrow> bool" where
  "carried M i m \<longleftrightarrow> (\<exists>j m0. j \<noteq> i \<and> (j, m0) \<in> M \<and> m = gob_message m0)"

text \<open>
  What may happen next at a process: a REST call, for one of the commands \<open>C\<close> if it is accepted, the arrival
  of a message that another process has broadcast, and the turns of its goroutines; the loops of
  a handler meet the keys they range over.
\<close>

fun may_happen :: "Command set \<Rightarrow> (bytes \<Rightarrow> Command \<Rightarrow> Command) \<Rightarrow> Cluster \<Rightarrow> gid \<Rightarrow> proc_op \<Rightarrow> bool" where
  "may_happen C unmarshal K i (PHttp now ord hr) \<longleftrightarrow> range_order ord (hHeader hr) \<and>
     (\<forall>r. handleRoot_request unmarshal i now (fresh (procs K i)) ord hr = Inr r \<longrightarrow> rCommand r \<in> C)"
| "may_happen C unmarshal K i (PRecv (PMessage m)) \<longleftrightarrow> carried (said K) i m"
| "may_happen C unmarshal K i (PRecv m) \<longleftrightarrow> False"
| "may_happen C unmarshal K i (PHandle net ord1 ord2) \<longleftrightarrow>
     (\<forall>m ms k inp. MessageChan (pnode (procs K i)) = m # ms \<and> handler_input k m ord1 ord2 = Some inp \<longrightarrow>
        valid_input (prep (procs K i)) inp)"
| "may_happen C unmarshal K i (PAnswer c ord) \<longleftrightarrow> True"
| "may_happen C unmarshal K i (PSend c) \<longleftrightarrow> True"

definition after :: "gid \<Rightarrow> Process \<Rightarrow> proc_out \<Rightarrow> Cluster \<Rightarrow> Cluster" where
  "after i s out K = \<lparr> procs = (procs K)(i := s), said = said K \<union> Pair i ` said_in out \<rparr>"

inductive cluster_reach ::
    "Config \<Rightarrow> (bytes \<Rightarrow> Command \<Rightarrow> Command) \<Rightarrow> gid set \<Rightarrow> Command set \<Rightarrow> Cluster \<Rightarrow> bool" for cfg unmarshal ids C where
  start: "0 \<le> ChanBufferSize cfg \<Longrightarrow> cluster_reach cfg unmarshal ids C (start_cluster cfg)"
| step: "cluster_reach cfg unmarshal ids C K \<Longrightarrow> i \<in> ids \<Longrightarrow> may_happen C unmarshal K i x \<Longrightarrow>
     proc_step cfg unmarshal x (procs K i) = Done (s, out) \<Longrightarrow> cluster_reach cfg unmarshal ids C (after i s out K)"

section \<open>The abstraction\<close>

definition abs_system :: "Cluster \<Rightarrow> System" where
  "abs_system K =
     \<lparr> replicas = (\<lambda>i. prep (procs K i)), sent = said K, hist = (\<lambda>i. applied (happened (procs K i))) \<rparr>"

text \<open>What waits in the queues may be handed to the replicas of the abstract system.\<close>

fun may_queue :: "Command set \<Rightarrow> (gid \<times> Message) set \<Rightarrow> gid \<Rightarrow> packet \<Rightarrow> bool" where
  "may_queue C M i (PRequest r) \<longleftrightarrow> rCommand r \<in> C"
| "may_queue C M i (PMessage m) \<longleftrightarrow> carried M i m"
| "may_queue C M i m \<longleftrightarrow> False"

definition queues_ok :: "Command set \<Rightarrow> Cluster \<Rightarrow> bool" where
  "queues_ok C K \<longleftrightarrow> (\<forall>i. \<forall>m \<in> set (MessageChan (pnode (procs K i))). may_queue C (said K) i m)"

lemma may_queue_mono: "may_queue C M i m \<Longrightarrow> M \<subseteq> M' \<Longrightarrow> may_queue C M' i m"
  by (cases m) (auto simp: carried_def)

lemma start_parts:
  assumes "0 \<le> ChanBufferSize cfg"
  shows "start_process cfg i = Ret (procs (start_cluster cfg) i) \<and> prep (procs (start_cluster cfg) i) = NewConsensus cfg i \<and>
     happened (procs (start_cluster cfg) i) = [] \<and> MessageChan (pnode (procs (start_cluster cfg) i)) = []"
proof -
  obtain n where "NewReplica cfg i = Ret n" "MessageChan n = []" using NewReplica_node [OF assms, of i] by blast
  then show ?thesis by (simp add: start_cluster_def start_process_def)
qed

lemma start_cluster_abs: "0 \<le> ChanBufferSize cfg \<Longrightarrow> abs_system (start_cluster cfg) = init_system cfg"
  using start_parts [of cfg] by (simp add: abs_system_def init_system_def fun_eq_iff) (simp add: start_cluster_def)

lemma start_cluster_queues: "0 \<le> ChanBufferSize cfg \<Longrightarrow> queues_ok C (start_cluster cfg)"
  using start_parts [of cfg] by (simp add: queues_ok_def)

lemma may_happen_admissible: "may_happen C unmarshal K i x \<Longrightarrow> admissible x"
  by (cases "(C, unmarshal, K, i, x)" rule: may_happen.cases) simp_all

lemma cluster_proc:
  "cluster_reach cfg unmarshal ids C K \<Longrightarrow> proc_reach cfg unmarshal i (procs K i)"
proof (induction rule: cluster_reach.induct)
  case start
  then show ?case by (rule proc_reach.start [OF conjunct1 [OF start_parts]])
next
  case (step K j x s out)
  then show ?case
    using proc_reach.step [OF _ may_happen_admissible [OF step.hyps(3)], of cfg unmarshal j "procs K j" s out]
    by (cases "i = j") (simp_all add: after_def)
qed

text \<open>A message from the queue is an input that the abstract system has for the replica.\<close>

lemma queued_receivable:
  assumes "may_queue C (said K) i m" "handler_input k m ord1 ord2 = Some inp"
  shows "may_receive C (abs_system K) i inp"
  using assms
proof (cases m)
  case (PMessage m')
  with assms obtain j m0 where "j \<noteq> i" "(j, m0) \<in> said K" "m' = gob_message m0" by (auto simp: carried_def)
  with PMessage assms(2) show ?thesis
    by (cases m0) (auto simp: abs_system_def split: if_splits, blast+)
qed (auto split: if_splits)

text \<open>The steps that leave the replica alone, and the turn that hands it a message.\<close>

lemma quiet_step:
  assumes "proc_step cfg unmarshal x s = Done (s', out)" "\<forall>net ord1 ord2. x \<noteq> PHandle net ord1 ord2"
  shows "prep s' = prep s \<and> happened s' = happened s \<and> said_in out = {}"
proof (cases x)
  case (PHttp now ord hr)
  with assms(1) show ?thesis by (auto split: sum.splits)
next
  case (PRecv m)
  with assms(1) show ?thesis by auto
next
  case (PAnswer c ord)
  with assms(1) show ?thesis by (auto split: option.splits list.splits if_splits)
next
  case (PSend c)
  with assms(1) show ?thesis by auto
qed (use assms(2) in simp)

lemma turn_step:
  assumes "proc_step cfg unmarshal (PHandle net ord1 ord2) s = Done (s', out)"
  shows "\<exists>m ms k inp. MessageChan (pnode s) = m # ms \<and> handler_input k m ord1 ord2 = Some inp \<and>
    prep s' = fst (handle cfg inp (prep s)) \<and> happened s' = happened s @ snd (handle cfg inp (prep s)) \<and>
    said_in out = set (broadcasts (snd (handle cfg inp (prep s)))) \<and> MessageChan (pnode s') = ms"
proof -
  obtain n f m where h: "handle_step (pnode s) = Done (n, f, m)"
    using assms by (cases "handle_step (pnode s)") auto
  then obtain ms where q: "MessageChan (pnode s) = m # ms" "MessageChan n = ms" by auto
  obtain inp where inp: "handler_input (code f) m ord1 ord2 = Some inp"
    using assms h by (cases "handler_input (code f) m ord1 ord2") (simp_all del: handle_step_Done)
  obtain p evs where p: "handle cfg inp (prep s) = (p, evs)" by fastforce
  obtain n1 where n1: "emit net evs n = Done n1"
    using assms h inp p by (cases "emit net evs n") (simp_all del: handle_step_Done)
  then have "s' = s\<lparr>pnode := n1, prep := p, fed := fed s @ [inp], happened := happened s @ evs\<rparr>" "out = Says (broadcasts evs)"
    using assms h inp p by (simp_all del: handle_step_Done)
  with q inp p emit_fields [OF n1] show ?thesis
    by (intro exI [of _ m] exI [of _ ms] exI [of _ "code f"] exI [of _ inp]) simp
qed

lemma queue_step:
  assumes "proc_step cfg unmarshal x s = Done (s', out)" "m \<in> set (MessageChan (pnode s'))" "nid (pnode s) = i"
    and "may_happen C unmarshal K i x" "s = procs K i"
  shows "m \<in> set (MessageChan (pnode s)) \<or> may_queue C (said K) i m"
proof (cases x)
  case (PHttp now ord hr)
  with assms show ?thesis by (auto simp: make_chan_def split: sum.splits)
next
  case (PRecv m')
  with assms show ?thesis by (cases m') (auto simp: recv_step_def)
next
  case (PHandle net ord1 ord2)
  from turn_step [OF assms(1) [unfolded PHandle]] assms(2) show ?thesis by auto
next
  case (PAnswer c ord)
  with assms show ?thesis by (auto split: option.splits list.splits if_splits)
next
  case (PSend c)
  with assms show ?thesis by auto
qed

section \<open>The cluster implements the system\<close>

lemma queues_ok_step:
  assumes K: "cluster_reach cfg unmarshal ids C K" and q: "queues_ok C K"
    and may: "may_happen C unmarshal K i x" and step: "proc_step cfg unmarshal x (procs K i) = Done (s, out)"
  shows "queues_ok C (after i s out K)"
  unfolding queues_ok_def
proof (intro allI ballI)
  fix j m assume m: "m \<in> set (MessageChan (pnode (procs (after i s out K) j)))"
  have name: "nid (pnode (procs K i)) = i"
    using reach_ok [OF cluster_proc [OF K, of i]] by (simp add: proc_ok_def awaited_ok_def)
  have "may_queue C (said K) j m"
  proof (cases "j = i")
    case True
    with queue_step [OF step _ name may refl, of m] m q show ?thesis
      by (auto simp: after_def queues_ok_def)
  next
    case False
    with m q show ?thesis by (auto simp: after_def queues_ok_def)
  qed
  then show "may_queue C (said (after i s out K)) j m" by (rule may_queue_mono) (auto simp: after_def)
qed

lemma cluster_simulates:
  "cluster_reach cfg unmarshal ids C K \<Longrightarrow> reachable cfg ids C (abs_system K) \<and> queues_ok C K"
proof (induction rule: cluster_reach.induct)
  case start
  then show ?case using reachable.init [of cfg ids C] by (simp add: start_cluster_abs start_cluster_queues)
next
  case (step K i x s out)
  let ?K = "after i s out K"
  have "queues_ok C ?K" using queues_ok_step [OF step.hyps(1) _ step.hyps(3,4)] step.IH by simp
  moreover have "reachable cfg ids C (abs_system ?K)"
  proof (cases "\<exists>net ord1 ord2. x = PHandle net ord1 ord2")
    case False
    then have "prep s = prep (procs K i)" "happened s = happened (procs K i)" "said_in out = {}"
      using quiet_step [OF step.hyps(4)] by auto
    then have "abs_system ?K = abs_system K" by (auto simp: abs_system_def after_def fun_eq_iff)
    with step.IH show ?thesis by simp
  next
    case True
    then obtain net ord1 ord2 where x: "x = PHandle net ord1 ord2" by blast
    from turn_step [OF step.hyps(4) [unfolded x]] obtain m ms k inp where t:
      "MessageChan (pnode (procs K i)) = m # ms" "handler_input k m ord1 ord2 = Some inp"
      "prep s = fst (handle cfg inp (prep (procs K i)))"
      "happened s = happened (procs K i) @ snd (handle cfg inp (prep (procs K i)))"
      "said_in out = set (broadcasts (snd (handle cfg inp (prep (procs K i)))))" by blast
    have "may_queue C (said K) i m" using step.IH t(1) by (simp add: queues_ok_def)
    then have "may_receive C (abs_system K) i inp" using t(2) by (rule queued_receivable)
    moreover have "valid_input (replicas (abs_system K) i) inp"
      using step.hyps(3) t(1,2) unfolding x may_happen.simps by (simp add: abs_system_def)
    ultimately have "reachable cfg ids C (deliver cfg i inp (abs_system K))"
      using step.IH step.hyps(2) by (intro reachable.step) simp_all
    moreover have "abs_system ?K = deliver cfg i inp (abs_system K)"
      by (simp add: abs_system_def after_def deliver_def split_beta t fun_eq_iff)
    ultimately show ?thesis by simp
  qed
  ultimately show ?case by simp
qed

text \<open>
  C2: Whatever the goroutines of all the processes do, in whatever order, with whatever the network does to
  their messages, the states of the replicas, what they have broadcast and what they have applied are
  those of a state that the system of replicas reaches.
\<close>

theorem cluster_implements_system:
  assumes "cluster_reach cfg unmarshal ids C K"
  shows "reachable cfg ids C (abs_system K)"
  using cluster_simulates [OF assms] ..

section \<open>What the clients see\<close>

text \<open>An answered call, with its place in what the replica has applied.\<close>

lemma call_in_log:
  assumes K: "cluster_reach cfg unmarshal ids C K"
    and call: "(c, wire extra (rest_request base j key v cnt g), r) \<in> set (awaited (procs K i))"
    and range: "int64 key" "int64 cnt" "int64 g"
    and step: "proc_step cfg unmarshal (PAnswer c []) (procs K i) = Done (s', out)"
  defines "H \<equiv> map snd (hist (abs_system K) i)"
  shows "0 \<le> g \<and> nat g < length H \<and>
    H ! nat g = \<lparr> Key = key, Value = v, ClientID = j, CommandID = cnt, Counter = g \<rparr> \<and>
    out = Respond c \<lparr> status = 200, wHeader = header_set HTTPCommandID (print_int cnt) (header_set HTTPClientID j fmempty),
      wBody = content (db_Get (snd (run_all Execute (NewDatabase cfg) (take (nat g) H))) key) \<rparr>"
proof -
  let ?h = "hist (abs_system K) i" and ?c = "\<lparr> Key = key, Value = v, ClientID = j, CommandID = cnt, Counter = g \<rparr>"
  have k: "- (2 ^ 63) \<le> key" "key < 2 ^ 63" "- (2 ^ 63) \<le> cnt" "cnt < 2 ^ 63" "- (2 ^ 63) \<le> g" "g < 2 ^ 63"
    using range unfolding int64_def by blast+
  obtain pre y post where v: "visible (happened (procs K i)) = pre @ [Applied g ?c, SendReply r y] @ post"
    and out: "out = Respond c \<lparr> status = 200, wHeader = header_set HTTPCommandID (print_int cnt) (header_set HTTPClientID j fmempty),
      wBody = content (db_Get (snd (run_all Execute (NewDatabase cfg) (map snd (applied pre)))) key) \<rparr>"
    using call_answered [OF cluster_proc [OF K] call k step] by blast
  have h: "?h = applied pre @ (g, ?c) # applied post"
    using arg_cong [OF v, of applied] by (simp add: abs_system_def)
  have "reachable cfg ids C (abs_system K)" using cluster_simulates [OF K] ..
  from hist_nth [OF this, of "length (applied pre)" i] have "int (length (applied pre)) = g" by (simp add: h)
  then have g: "0 \<le> g" "nat g = length (applied pre)" by simp_all
  then show ?thesis using out by (simp add: H_def h nth_append)
qed

text \<open>
  C1: If the clients give each slot to one command only and write no empty values, all answers of all
  replicas come from one log: there is one sequence of commands, of which every replica has applied a
  first part, such that whoever answers a call of the client library, the command is in the sequence at
  the slot that the client asked for, and the value in the answer is the one the key has after the
  commands before it.
\<close>

theorem cluster_answers_from_one_log:
  assumes K: "cluster_reach cfg unmarshal ids C K" and "one_per_slot C" "no_empty_value C" "finite ids"
  shows "\<exists>L. \<forall>i \<in> ids. prefix (map snd (hist (abs_system K) i)) L \<and>
    (\<forall>c extra base j key v cnt g r s' out.
       (c, wire extra (rest_request base j key v cnt g), r) \<in> set (awaited (procs K i)) \<longrightarrow>
       int64 key \<longrightarrow> int64 cnt \<longrightarrow> int64 g \<longrightarrow>
       proc_step cfg unmarshal (PAnswer c []) (procs K i) = Done (s', out) \<longrightarrow>
       0 \<le> g \<and> nat g < length L \<and>
       L ! nat g = \<lparr> Key = key, Value = v, ClientID = j, CommandID = cnt, Counter = g \<rparr> \<and>
       out = Respond c \<lparr> status = 200,
         wHeader = header_set HTTPCommandID (print_int cnt) (header_set HTTPClientID j fmempty),
         wBody = content (db_Get (snd (run_all Execute (NewDatabase cfg) (take (nat g) L))) key) \<rparr>)"
proof (cases "ids = {}")
  case False
  let ?H = "\<lambda>i. map snd (hist (abs_system K) i)"
  let ?len = "\<lambda>i. length (hist (abs_system K) i)"
  have S: "reachable cfg ids C (abs_system K)" using cluster_simulates [OF K] ..
  have "Max (?len ` ids) \<in> ?len ` ids" using assms(4) False by (intro Max_in) simp_all
  then obtain k where max: "Max (?len ` ids) = ?len k" and k: "k \<in> ids" by (rule imageE)
  have p: "prefix (?H i) (?H k)" if "i \<in> ids" for i
  proof -
    have "?len i \<le> Max (?len ` ids)" using that assms(4) by (intro Max_ge) simp_all
    then have "?len i \<le> ?len k" unfolding max .
    from hist_prefix [OF S assms(2,3) this] show ?thesis by (rule map_mono_prefix)
  qed
  have "0 \<le> g \<and> nat g < length (?H k) \<and>
       ?H k ! nat g = \<lparr> Key = key, Value = v, ClientID = j, CommandID = cnt, Counter = g \<rparr> \<and>
       out = Respond c \<lparr> status = 200,
         wHeader = header_set HTTPCommandID (print_int cnt) (header_set HTTPClientID j fmempty),
         wBody = content (db_Get (snd (run_all Execute (NewDatabase cfg) (take (nat g) (?H k)))) key) \<rparr>"
    if "i \<in> ids" "(c, wire extra (rest_request base j key v cnt g), r) \<in> set (awaited (procs K i))"
      "int64 key" "int64 cnt" "int64 g" "proc_step cfg unmarshal (PAnswer c []) (procs K i) = Done (s', out)"
    for i c extra base j key v cnt g r s' out
  proof -
    note log = call_in_log [OF K that(2-6)] and pre = p [OF that(1)]
    obtain zs where zs: "?H k = ?H i @ zs" using pre by (auto simp: prefix_def)
    then have "?H k ! nat g = ?H i ! nat g" "take (nat g) (?H k) = take (nat g) (?H i)"
      using log by (simp_all add: nth_append)
    moreover have "length (?H i) \<le> length (?H k)" using zs by simp
    ultimately show ?thesis using log by simp
  qed
  with p show ?thesis by blast
qed simp

section \<open>Two processes\<close>

text \<open>
  A run of two processes: a REST call at the first, its proposal at the second, and the second's vote back at
  the first, which then has the answer.
\<close>

fun cluster_path ::
    "Config \<Rightarrow> (bytes \<Rightarrow> Command \<Rightarrow> Command) \<Rightarrow> gid set \<Rightarrow> Command set \<Rightarrow> Cluster \<Rightarrow> (gid \<times> proc_op) list \<Rightarrow> Cluster \<Rightarrow> bool" where
  "cluster_path cfg unmarshal ids C K [] K' \<longleftrightarrow> K = K'"
| "cluster_path cfg unmarshal ids C K ((i, x) # xs) K' \<longleftrightarrow>
     i \<in> ids \<and> may_happen C unmarshal K i x \<and>
     (\<exists>s out. proc_step cfg unmarshal x (procs K i) = Done (s, out) \<and>
        cluster_path cfg unmarshal ids C (after i s out K) xs K')"

lemma path_reach:
  "cluster_path cfg unmarshal ids C K xs K' \<Longrightarrow> cluster_reach cfg unmarshal ids C K \<Longrightarrow>
     cluster_reach cfg unmarshal ids C K'"
proof (induction xs arbitrary: K)
  case (Cons x xs)
  then show ?case by (cases x) (auto intro: cluster_reach.step)
qed simp

lemma handler_input_Some:
  "handler_input k (PRequest r) ord1 ord2 = Some inp \<longleftrightarrow> k = 0 \<and> inp = InRequest r"
  "handler_input k (PMessage (MPropose m)) ord1 ord2 = Some inp \<longleftrightarrow> k = 1 \<and> inp = InPropose m ord1 ord2"
  "handler_input k (PMessage (MVote v)) ord1 ord2 = Some inp \<longleftrightarrow> k = 2 \<and> inp = InVote v ord1"
  by auto

definition pair_ops :: "(gid \<times> proc_op) list" where
  "pair_ops =
     [(''1.1'', PHttp 0 [''Cid'', ''Count'', ''Id''] solo_call), (''1.1'', PHandle (\<lambda>k. Done ()) [] []),
      (''1.2'', PRecv (PMessage (MPropose (proposal_of ''1.1'' solo_command)))), (''1.2'', PHandle (\<lambda>k. Done ()) [0] [0]),
      (''1.1'', PRecv (PMessage (MVote (solo_vote solo_command)))), (''1.1'', PHandle (\<lambda>k. Done ()) [0] [])]"

lemma pair_run:
  "\<exists>K r. cluster_path solo (\<lambda>b c. c) {''1.1'', ''1.2''} {solo_command} (start_cluster solo) pair_ops K \<and>
     awaited (procs K ''1.1'') = [(0, solo_call, r)] \<and>
     fmlookup (reply_chans (pnode (procs K ''1.1''))) 0 = Some [answer_to r (NewDatabase solo)]"
proof -
  have start: "\<exists>n. procs (start_cluster solo) i =
      \<lparr> pnode = n, prep = NewConsensus solo i, fresh = 0, awaited = [], fed = [], happened = [] \<rparr> \<and>
      handles n = replica_handles \<and> MessageChan n = [] \<and> nid n = i \<and> chan_cap n = 1024" for i
    using NewReplica_node [of solo i] by (auto simp: start_cluster_def start_process_def chan_room_def solo_def MakeDefaultConfig_def)
  obtain n1 where n1: "procs (start_cluster solo) ''1.1'' =
      \<lparr> pnode = n1, prep = NewConsensus solo ''1.1'', fresh = 0, awaited = [], fed = [], happened = [] \<rparr>"
    "handles n1 = replica_handles" "MessageChan n1 = []" "nid n1 = ''1.1''" "chan_cap n1 = 1024"
    using start by blast
  obtain n2 where n2: "procs (start_cluster solo) ''1.2'' =
      \<lparr> pnode = n2, prep = NewConsensus solo ''1.2'', fresh = 0, awaited = [], fed = [], happened = [] \<rparr>"
    "handles n2 = replica_handles" "MessageChan n2 = []" "nid n2 = ''1.2''" "chan_cap n2 = 1024"
    using start by blast
  have none: "said (start_cluster solo) = {}" by (simp add: start_cluster_def)
  obtain props where r: "handleRoot_request (\<lambda>b c. c) ''1.1'' 0 0 [''Cid'', ''Count'', ''Id''] solo_call =
      Inr \<lparr> rCommand = solo_command, rProperties = props, rTimestamp = 0, rNodeID = ''1.1'', rc = Some 0, rError = None \<rparr>"
    using rest_read_back [OF solo_headers [unfolded solo_call_def], of "\<lambda>b c. c" "''1.1''" 0 0]
    by (auto simp: solo_call_def solo_command_def)
  define q where "q = \<lparr> rCommand = solo_command, rProperties = props, rTimestamp = 0, rNodeID = ''1.1'',
    rc = Some 0, rError = None \<rparr>"
  have q: "rCommand q = solo_command" "Counter solo_command = 0" "rc q = Some 0"
    by (simp_all add: q_def solo_command_def)
  obtain p1 m p2 where steps: "HandleRequest q (NewConsensus solo ''1.1'') = (p1, [Broadcast m])"
    "HandleVote solo [0] (solo_vote solo_command) p1 = (p2, [Applied 0 solo_command, SendReply q (answer_to q (NewDatabase solo))])"
    using solo_steps [of q "''1.1''"] q by auto
  have m: "m = MPropose (proposal_of ''1.1'' solo_command)"
    using request_step [of q solo "''1.1''"] steps(1) q by simp
  have "Total solo = 1" by (simp add: solo_def Total_def MakeDefaultConfig_def DefaultBConfig_def)
  then obtain p3 where p3: "HandlePropose solo [0] [0] (proposal_of ''1.1'' solo_command) (NewConsensus solo ''1.2'') =
      (p3, [Broadcast (MVote (vote_of ''1.2'' solo_command))])"
    using vote_on_proposal by blast
  have vote: "vote_of ''1.2'' solo_command = solo_vote solo_command" by (simp add: vote_of_def solo_vote_def)
  have gob: "gob_command solo_command = solo_command" by (simp add: gob_command_same solo_command_def)
  have gobs: "gob_propose (proposal_of ''1.1'' solo_command) = proposal_of ''1.1'' solo_command"
    "gob_vote (solo_vote solo_command) = solo_vote solo_command"
    using gob_sample(1) [of "''1.1''" solo_command] gob_sample(2) [of "''1.2''" solo_command] by (simp_all only: gob vote)
  have valid: "valid_input (NewConsensus solo ''1.2'') (InPropose (proposal_of ''1.1'' solo_command) [0] [0])"
    "valid_input p1 (InVote (solo_vote solo_command) [0])"
    by (simp_all add: record_proposal_def Let_def proposal_of_def NewConsensus_def range_order_def solo_vote_def)
  show ?thesis
    using n1(2-) n2(2-) valid(1)
    by (simp add: pair_ops_def n1(1) n2(1) none after_def r [folded q_def] q steps m p3 [unfolded vote] valid(2) gobs
        solo_headers make_chan_def push_message_def handle_step_def replica_handles_def recv_step_def carried_def
        handler_input_Some Request_Reply_def gob
        del: sbind_Done push_message_Done handle_step_Done valid_input.simps(2,3))
      (intro exI [of _ "''1.2''"] exI [of _ "MVote (solo_vote solo_command)"], simp add: gobs)
qed

lemma pair_reach:
  obtains K r where "cluster_reach solo (\<lambda>b c. c) {''1.1'', ''1.2''} {solo_command} K"
    "awaited (procs K ''1.1'') = [(0, solo_call, r)]"
    "fmlookup (reply_chans (pnode (procs K ''1.1''))) 0 = Some [answer_to r (NewDatabase solo)]"
proof -
  obtain K r where K: "cluster_path solo (\<lambda>b c. c) {''1.1'', ''1.2''} {solo_command} (start_cluster solo) pair_ops K"
    "awaited (procs K ''1.1'') = [(0, solo_call, r)]"
    "fmlookup (reply_chans (pnode (procs K ''1.1''))) 0 = Some [answer_to r (NewDatabase solo)]"
    using pair_run by blast
  have room: "0 \<le> ChanBufferSize solo" by (simp add: solo_def MakeDefaultConfig_def)
  from that [OF path_reach [OF K(1) cluster_reach.start [OF room]] K(2,3)] show thesis .
qed

theorem cluster_implements_system_witness:
  "\<exists>K. awaited (procs K ''1.1'') \<noteq> [] \<and> reachable solo {''1.1'', ''1.2''} {solo_command} (abs_system K)"
proof -
  obtain K r where K: "cluster_reach solo (\<lambda>b c. c) {''1.1'', ''1.2''} {solo_command} K"
    "awaited (procs K ''1.1'') = [(0, solo_call, r)]" by (rule pair_reach)
  from cluster_implements_system [OF K(1)] K(2) show ?thesis by (intro exI [of _ K]) simp
qed

theorem cluster_answers_from_one_log_witness:
  "\<exists>K L s' out. prefix (map snd (hist (abs_system K) ''1.1'')) L \<and> L ! 0 = solo_command \<and>
     proc_step solo (\<lambda>b c. c) (PAnswer 0 []) (procs K ''1.1'') = Done (s', out)"
proof -
  obtain K r where K: "cluster_reach solo (\<lambda>b c. c) {''1.1'', ''1.2''} {solo_command} K"
    "awaited (procs K ''1.1'') = [(0, solo_call, r)]"
    "fmlookup (reply_chans (pnode (procs K ''1.1''))) 0 = Some [answer_to r (NewDatabase solo)]" by (rule pair_reach)
  obtain s' out where step: "proc_step solo (\<lambda>b c. c) (PAnswer 0 []) (procs K ''1.1'') = Done (s', out)"
    using K(2,3) by simp
  have call: "(0, wire fmempty (rest_request [] ''1.1'' 5 (Some [6]) 0 0), r) \<in> set (awaited (procs K ''1.1''))"
    by (simp add: K(2) solo_call_def)
  have "one_per_slot {solo_command}" "no_empty_value {solo_command}" "finite {''1.1'', ''1.2''}"
    by (simp_all add: one_per_slot_def no_empty_value_def solo_command_def)
  from cluster_answers_from_one_log [OF K(1) this] obtain L where
    "\<forall>i \<in> {''1.1'', ''1.2''}. prefix (map snd (hist (abs_system K) i)) L \<and>
      (\<forall>c extra base j key v cnt g r s' out.
       (c, wire extra (rest_request base j key v cnt g), r) \<in> set (awaited (procs K i)) \<longrightarrow>
       int64 key \<longrightarrow> int64 cnt \<longrightarrow> int64 g \<longrightarrow>
       proc_step solo (\<lambda>b c. c) (PAnswer c []) (procs K i) = Done (s', out) \<longrightarrow>
       0 \<le> g \<and> nat g < length L \<and>
       L ! nat g = \<lparr> Key = key, Value = v, ClientID = j, CommandID = cnt, Counter = g \<rparr> \<and>
       out = Respond c \<lparr> status = 200,
         wHeader = header_set HTTPCommandID (print_int cnt) (header_set HTTPClientID j fmempty),
         wBody = content (db_Get (snd (run_all Execute (NewDatabase solo) (take (nat g) L))) key) \<rparr>)" ..
  then have L: "prefix (map snd (hist (abs_system K) ''1.1'')) L" and "int64 5 \<Longrightarrow> int64 0 \<Longrightarrow> int64 0 \<Longrightarrow> L ! nat 0 =
      \<lparr> Key = 5, Value = Some [6], ClientID = ''1.1'', CommandID = 0, Counter = 0 \<rparr>"
    using call step by blast+
  then have "L ! 0 = solo_command" by (simp add: int64_def solo_command_def)
  with L step show ?thesis by blast
qed

end
