(* ===== verification/Reports.thy ===== *)
theory Reports
  imports BenchRuns Stats
begin

text \<open>
  The ends of \<open>Benchmark.Run\<close> and \<open>Benchmark.Load\<close>: the statistics of the latencies that the collector
  has, what is logged about the run, and the file with the latencies. How a duration is printed and
  what the file system answers are arguments.
\<close>

section \<open>Reports\<close>

text \<open>\<open>Duration.Seconds\<close>, and a rate per second as \<open>%f\<close> prints it.\<close>

definition seconds_of :: "int \<Rightarrow> float64" where
  "seconds_of d = fadd (float_of_int (d div 1000000000)) (fdiv (float_of_int (d mod 1000000000)) 1000000000)"

definition throughput :: "nat \<Rightarrow> int \<Rightarrow> string" where
  "throughput n d =
     (if seconds_of d = 0 then ''+Inf'' else format_f (fdiv (float_of_int (int n)) (seconds_of d)))"

definition Run_report ::
    "(int \<Rightarrow> string) \<Rightarrow> (string \<Rightarrow> string option) \<Rightarrow> (string \<Rightarrow> string option) \<Rightarrow> (float64 \<Rightarrow> string) \<Rightarrow>
     Bconfig \<Rightarrow> int \<Rightarrow> int list \<Rightarrow> (string list \<times> string) outcome" where
  "Run_report show create flush print c t latency =
     obind (Statistic latency) (\<lambda>st.
       Ret ([''Concurrency = '' @ print_int (Concurrency c),
             ''Write Ratio = '' @ format_f (bW c),
             ''Number of Keys = '' @ print_int (bK c),
             ''Benchmark Time = '' @ show t @ newline,
             ''Throughput = '' @ throughput (length latency) t @ newline,
             Stat_String st],
            snd (Stat_WriteFile create flush print ''latency'' st)))"

definition Load_report :: "(int \<Rightarrow> string) \<Rightarrow> int \<Rightarrow> int list \<Rightarrow> string list outcome" where
  "Load_report show t latency =
     obind (Statistic latency) (\<lambda>st.
       Ret [''Benchmark took '' @ show t @ newline,
            ''Throughput '' @ throughput (length latency) t @ newline,
            Stat_String st])"

section \<open>The report of a run\<close>

text \<open>A run of \<open>n\<close> operations has put as many keys as it has to.\<close>

definition measured :: "nat \<Rightarrow> Run \<Rightarrow> bool" where
  "measured n s \<longleftrightarrow> \<not> timed s \<and> (case main s of
     AtKey \<Rightarrow> 0 < left s \<and> adds s + left s = n
   | AtCounter \<Rightarrow> 0 < left s \<and> adds s + left s = n + 1
   | AtWait \<Rightarrow> adds s = n
   | Ended \<Rightarrow> adds s = n \<and> dones s = n)"

lemma measured_start: "measured n (start_run ld False n m)"
  by (simp add: measured_def start_run_def)

lemma ended_quiet:
  assumes "balanced s" "measured n s" "main s = Ended"
  shows "keys s = [] \<and> waiting s = [] \<and> busy s = []"
proof -
  have b: "length (keys s) + length (waiting s) + reads s = (if main s = AtCounter then 1 else 0)"
    "adds s = length (wrote s) + (if main s = AtCounter then 1 else 0)"
    "dones s + length (busy s) \<le> length (wrote s) + reads s"
    using assms(1) unfolding balanced_def by blast+
  have m: "dones s = n" "adds s = n" using assms(2) unfolding measured_def assms(3) by simp_all
  have "reads s = 0" "keys s = []" "waiting s = []" using b(1) assms(3) by simp_all
  moreover have "length (busy s) = 0" using b(2,3) m \<open>reads s = 0\<close> assms(3) by simp
  ultimately show ?thesis by simp
qed

lemma measured_step:
  assumes "bench_step s s'" and b: "balanced s" and m: "measured n s"
  shows "measured n s'"
  using assms(1) m ended_quiet [OF b m]
proof cases
  case (ends_write w ok)
  then show ?thesis using m ended_quiet [OF b m]
    by (cases "main s"; cases ok) (simp_all add: measured_def end_write_def Let_def)
next
  case (all_done)
  then show ?thesis using m by (simp add: measured_def)
next
  case (times_out)
  then show ?thesis using m by (simp add: measured_def)
next
  case (hands_counter k)
  then show ?thesis using m by (simp add: measured_def hand_counter_def Let_def)
next
  case (puts_key k)
  then show ?thesis using m by (simp add: measured_def put_key_def)
qed (use m ended_quiet [OF b m] in \<open>cases "main s"; simp add: measured_def\<close>)+

lemma measured_reach:
  assumes "bench_reach (start_run ld False n m) s"
  shows "measured n s"
  using assms
proof (induction rule: bench_reach.induct)
  case (step s s')
  then show ?case using measured_step [OF step.hyps(2) balanced_reach [OF step.hyps(1)]] by simp
qed (rule measured_start)

text \<open>
  A run of a fixed number of operations that ends reports on all of them, and its file has their
  latencies, sorted, one in each line; a run of none ends with a panic. So may a timed run, if the
  time is over before the first operation is.
\<close>

theorem run_reports:
  assumes "n < 2 ^ 40" and "create ''latency'' = None"
  shows "(\<forall>s latency. bench_reach (start_run False False n m) s \<longrightarrow> main s = Ended \<longrightarrow> length latency = dones s \<longrightarrow>
      (if n = 0 then Run_report show create flush print c t latency = Panic
       else \<exists>infos st. Run_report show create flush print c t latency =
              Ret (infos, concat (map (\<lambda>x. print x @ newline) (sort (map to_ms latency)))) \<and>
            last infos = Stat_String st \<and> sSize st = n)) \<and>
    (\<exists>s. bench_reach (start_run False True n m) s \<and> main s = Ended \<and> dones s = 0 \<and>
      Run_report show create flush print c t [] = Panic)"
proof (intro conjI allI impI)
  have none: "Run_report show create flush print c t [] = Panic"
    using Statistic_exact [of "[]"] by (simp add: Run_report_def)
  fix s and latency :: "int list"
  assume s: "bench_reach (start_run False False n m) s" "main s = Ended" "length latency = dones s"
  then have n: "length latency = n" using measured_reach [OF s(1)] by (simp add: measured_def)
  show "if n = 0 then Run_report show create flush print c t latency = Panic
       else \<exists>infos st. Run_report show create flush print c t latency =
              Ret (infos, concat (map (\<lambda>x. print x @ newline) (sort (map to_ms latency)))) \<and>
            last infos = Stat_String st \<and> sSize st = n"
  proof (cases "n = 0")
    case True
    then show ?thesis using n none by simp
  next
    case False
    then obtain st where "Statistic latency = Ret st" "sData st = sort (map to_ms latency)" "sSize st = n"
      using Statistic_exact [of latency] n assms(1) by auto
    then show ?thesis using False assms(2) by (auto simp: Run_report_def Stat_WriteFile_def Let_def)
  qed
next
  let ?s = "start_run False True n m"
  have "bench_step ?s (?s\<lparr>main := Ended\<rparr>)" by (rule bench_step.times_out) (simp_all add: start_run_def)
  then have "bench_reach ?s (?s\<lparr>main := Ended\<rparr>)" by (meson bench_reach.intros)
  then show "\<exists>s. bench_reach (start_run False True n m) s \<and> main s = Ended \<and> dones s = 0 \<and>
      Run_report show create flush print c t [] = Panic"
    using Statistic_exact [of "[]"]
    by (intro exI [of _ "?s\<lparr>main := Ended\<rparr>"]) (simp add: Run_report_def start_run_def)
qed

end
