(* ===== verification/Spec2Isabelle.thy ===== *)
theory Spec2Isabelle
  imports Queues HashRings Cycles Components Policies Limiters Stats Views Stalls Rounds Messages Programs Clusters Reports
begin

text \<open>
  BigBFT: a replicated key-value store in Go, verified as far as its code can be modelled.

  \<^bold>\<open>The program.\<close> Replicas (\<open>consensus/\<close>) order the commands of clients by numbered slots, with
  proposals and batches of votes, and apply them to a database (\<open>db.go\<close>). A replica is a handler
  object inside a node (\<open>node.go\<close>), which receives messages from its peers through a socket
  (\<open>socket.go\<close>) and transports (\<open>transport.go\<close>), and requests from clients over HTTP (\<open>http.go\<close>).
  Clients use a library (\<open>client.go\<close>), from a shell (\<open>cmd/cmd.go\<close>) or a benchmark (\<open>benchmark.go\<close>);
  a master may hand out the configuration (\<open>master/master.go\<close>). The slot of a command is the number
  which its client has given it: most of what goes wrong in the program comes from there.

  \<^bold>\<open>Data and conventions\<close> (\<open>Prelude\<close>, \<open>Strconv\<close>). Records and datatypes follow the source's types and keep
  their field names where Isabelle allows it; a prefix tells apart fields of equal names. Machine
  integers are 64-bit words where bits or wrap-around matter (ballots, identifiers, parsing), \<open>int\<close>
  elsewhere. Maps are finite maps, and every loop over a map takes the order in which it meets the
  keys, over which the theorems quantify. Nil slices are \<open>None\<close>. Panics, fatal errors and operations
  that block for ever are values (\<open>outcome\<close>, \<open>sync\<close>). A \<open>float64\<close> is the rational number it stands for, and
  each operation rounds to 53 bits (\<open>Floats\<close>). Making a channel of a negative size panics, and one without
  a buffer holds a message that waits to be taken.

  \<^bold>\<open>Identifiers, numbers, configuration.\<close> \<open>Ids\<close> is \<open>id.go\<close>, \<open>Ballots\<close> and \<open>Views\<close> are \<open>ballot.go\<close> and
  \<open>view.go\<close>, \<open>Configs\<close> is \<open>config.go\<close> and \<open>JsonConfigs\<close> its files, with the fields of a configuration as JSON has
  them: printing and parsing are inverse in their ranges, a saved configuration loads again over another one,
  \<open>Load\<close> counts nodes and zones. \<open>Masters\<close> is the program \<open>master/master.go\<close> and, at the other
  end, \<open>ConnectToMaster\<close> of \<open>util.go\<close>: all nodes that register get the same numbered addresses, but no counts.

  \<^bold>\<open>State of a replica.\<close> \<open>Quorums\<close> (\<open>quorum.go\<close>; the locale \<open>ack_set\<close> is what the protocol needs of it),
  \<open>Databases\<close> (\<open>db.go\<close>; the locale \<open>commuting_machine\<close> gives the reordering of conflict-free batches) and
  \<open>Peers\<close> (\<open>peerset.go\<close>).

  \<^bold>\<open>The protocol.\<close> \<open>Consensus\<close> translates \<open>consensus/consensus.go\<close>: \<open>HandleRequest\<close>, \<open>HandlePropose\<close>,
  \<open>HandleVote\<close> and \<open>exec\<close>, each from state and message to state and events. \<open>exec\<close> terminates because it
  removes an entry of the log at each turn. \<open>Consensus_Order\<close>: slots are applied in order, once.
  \<open>Consensus_Inv\<close>: the invariant of what a replica knows and says, through the locale \<open>reactive\<close>.
  \<open>Consensus_Props\<close>: what is applied was voted for; how batches of votes are made; when \<open>exec\<close> stops; that
  votes are counted by the name written in them. \<open>Services\<close>: the abstract service a replica is for its
  clients, and the proof that the handlers implement it; \<open>Replies\<close>: what clients can conclude.
  \<open>Gobs\<close> is what encoding does to a message, \<open>Network\<close> the replicas together over a network that may lose,
  delay, reorder and repeat messages, and \<open>Agreement\<close> the result: the replicas agree if the clients give
  each slot to one command and write no empty values, and each of the two conditions is needed.
  \<open>Progress\<close>: enough votes make a replica apply a complete batch. \<open>Batches\<close> and \<open>Rounds\<close>: if every replica
  gets all proposals before the first vote, all of them vote and apply the whole batch. \<open>Stalls\<close>: otherwise
  the votes need not be sent, and a replica may wait for ever although every message has arrived.

  \<^bold>\<open>Nodes and what joins them.\<close> \<open>Nodes\<close> is \<open>node.go\<close>, a step for each turn of its loops; \<open>Messages\<close> the
  printing and registration of messages, on which forwarding rests; \<open>Sockets\<close> is \<open>socket.go\<close> with the injection
  of faults and runs of its calls; \<open>Transports\<close> the queues of \<open>transport.go\<close> and the transport within a process as a step relation,
  \<open>Streams\<close> the TCP transport with its goroutines and connections that may break, which keeps the order of messages, and \<open>Datagrams\<close> the UDP
  transport, which cuts them off at 1500 bytes; \<open>Https\<close> the root handler of \<open>http.go\<close> with the request the client
  builds for it; \<open>Admins\<close> the other handlers, composed with the URLs of the client's \<open>Partition\<close> and the sockets
  they reach, and with its \<open>Consensus\<close> calls and the system of \<open>Network\<close>.

  \<^bold>\<open>A running system.\<close> \<open>Processes\<close> puts the handlers of \<open>Consensus\<close> into the node of \<open>Nodes\<close> behind the REST
  handler of \<open>Https\<close>: a process whose goroutines interleave. Handling a message panics or blocks only in a broadcast, and a
  REST call is answered only after its command was applied. \<open>Clusters\<close> joins the processes of all replicas by a
  network; the system of \<open>Network\<close> is its abstraction, by a simulation, so that agreement carries over to
  what clients see: all REST answers come from one log. \<open>Campaigns\<close> adds the clients, a run of the benchmark
  through the adapter of \<open>client/client.go\<close>. \<open>Programs\<close> has \<open>init.go\<close>, the main programs of \<open>server/\<close>, \<open>client/\<close>
  and \<open>cmd/\<close>, what they start and how they fail, and the unused client of \<open>TCPcommunications.go\<close>.

  \<^bold>\<open>Clients.\<close> \<open>Clients\<close> and \<open>Exchanges\<close> are \<open>client.go\<close>: who is asked and how many answers are waited for, and
  what comes of the answers. \<open>Shells\<close> is the shell. \<open>Benchmarks\<close> generates the keys; \<open>BenchRuns\<close> is the step
  relation of the goroutines of a run: its writes are numbered apart, and the ways in which a run never
  ends. \<open>Stats\<close> is \<open>stat.go\<close>: no rounding takes a percentile out of the data or out of order; \<open>Reports\<close> is the
  end of a run, which reports on all its operations or panics for want of any.

  \<^bold>\<open>Libraries.\<close> \<open>Queues\<close>, \<open>Stacks\<close>, \<open>Containers\<close>, \<open>HashRings\<close>, \<open>Graphs\<close>, \<open>Traversals\<close>, \<open>Cycles\<close> and
  \<open>Components\<close> are \<open>lib/\<close>, the first ones as refinements of lists and sets by the locales of \<open>Refines\<close>;
  \<open>Policies\<close>, \<open>Limiters\<close>, \<open>Utilities\<close> and \<open>Logs\<close> are \<open>policy.go\<close>, \<open>rate.go\<close>, \<open>util.go\<close> with \<open>operation.go\<close>,
  and \<open>log/log.go\<close>: thresholds, buffers, and which outputs a line goes to.

  \<^bold>\<open>Loops that may not end and fuel.\<close> The loops of the normal distribution are partial functions, shown to
  return for a positive number of keys. The recursive \<open>visit\<close> of the cycle search has fuel, and twice the
  number of vertices is enough, since every other call colours a vertex; \<open>strongConnect\<close> needs two, since
  it never gets further than the empty struct. Everything else is total, by structural recursion or a measure.

  \<^bold>\<open>Assumptions.\<close> One goroutine calls the handlers of a replica. A broadcast vote carries the map of pending
  votes as it is at the call, while \<open>exec\<close> hands over the map itself, which later turns may change before it is
  encoded. A turn of a process in which a broadcast does not return is no step of it; what it has done is a first
  part of the turn in which all return, so that what holds in the states after completed turns of what was
  answered holds of it too. Random draws, the clock, the orders of map loops, URL and JSON parsing, the
  encoder of messages, hashing, flags, and the answers of the operating system are arguments; theorems that need
  more of them than their type name it as a hypothesis (\<open>json_commands\<close>, \<open>json_values\<close>, and \<open>json_text\<close>, that
  parsing a JSON value inverts printing it; \<open>parses_drop\<close> and \<open>resolves\<close> for URLs; \<open>reads_one\<close> and \<open>cut_off\<close> for an encoder: it decodes what it encoded, whatever follows, and
  nothing that was cut off), and their witnesses give an instance.

  \<^bold>\<open>Not modelled.\<close> The bytes of the connections of HTTP, TCP and UDP, the parsing of flags, and the time
  stamps of log lines: input and output of the library. Errors of dialling are a single answer of the
  network. \<open>GetMD5Hash\<close>, \<open>Q1\<close> and \<open>Q2\<close>, which nothing uses; infinities and overflow of floats, and
  not-a-numbers other than the remainder by zero. Interfaces (\<open>state_machine.go\<close>) and code that is commented
  out have no definition.
\<close>

end
